(* ===== verification/Prelude.thy ===== *)
theory Prelude
  imports Main "HOL-Library.Word" "HOL-Library.Signed_Division"
begin

section \<open>Shared types, Go runtime values and generic lemmas\<close>

text \<open>
  What every component of the library uses: the byte and word types, Go's 64-bit signed
  arithmetic, error values and the result of a Go call, little- and big-endian integers
  (\<open>encoding/binary\<close>), \<open>bytes.Index\<close>, \<open>sort.Search\<close>, byte-wise exclusive or, and the
  collections \<open>len_simps\<close> (lengths of the byte strings the operations produce) and
  \<open>cancel_simps\<close> (inverse pairs) that carry the component proofs.

  Go's \<open>int\<close> is 64 bits wide (the platforms the package is built for); \<open>int\<close> and \<open>int64\<close>
  values are HOL integers, and every place where the code can overflow applies \<open>i64\<close>.
  Go's \<open>/\<close> and \<open>%\<close> truncate towards zero: \<open>sdiv\<close> and \<open>smod\<close>.
\<close>

unbundle bit_operations_syntax

type_synonym byte = "8 word"
type_synonym bytes = "byte list"
type_synonym u8 = "8 word"
type_synonym u16 = "16 word"
type_synonym u32 = "32 word"
type_synonym u64 = "64 word"

named_theorems len_simps
named_theorems cancel_simps

subsection \<open>Errors and results\<close>

text \<open>
  \<open>error\<close> values. \<open>Msg\<close> is \<open>errors.New\<close>, \<open>MsgFmt\<close> is \<open>fmt.Errorf\<close> with one numeric
  argument, \<open>Wrap\<close> is \<open>fmt.Errorf\<close> with \<open>%w\<close>, \<open>ReadErr\<close> is any error of the caller's
  \<open>io.ReaderAt\<close> other than \<open>io.EOF\<close>.
\<close>

datatype goerr =
    EOF
  | UnexpectedEOF
  | InvalidHeader string
  | Msg string
  | MsgFmt string int
  | KeySizeError int
  | Wrap string goerr
  | ReadErr string

fun errors_Is :: "goerr \<Rightarrow> goerr \<Rightarrow> bool" where
  "errors_Is (Wrap s e) t = (Wrap s e = t \<or> errors_Is e t)"
| "errors_Is e t = (e = t)"

text \<open>A Go call returns a value, returns an error, or panics.\<close>

datatype 'a result = Ok 'a | Error goerr | Panic string

definition bindR :: "'a result \<Rightarrow> ('a \<Rightarrow> 'b result) \<Rightarrow> 'b result" where
  "bindR m k = (case m of Ok x \<Rightarrow> k x | Error e \<Rightarrow> Error e | Panic s \<Rightarrow> Panic s)"

lemma bindR_simps [simp]:
  "bindR (Ok x) k = k x" "bindR (Error e) k = Error e" "bindR (Panic s) k = Panic s"
  by (simp_all add: bindR_def)

lemma bindR_Ok_iff:
  "bindR m k = Ok y \<longleftrightarrow> (\<exists>x. m = Ok x \<and> k x = Ok y)"
  "Ok y = bindR m k \<longleftrightarrow> (\<exists>x. m = Ok x \<and> k x = Ok y)"
  by (cases m, auto)+

definition is_eof :: "goerr \<Rightarrow> bool" where
  "is_eof e \<longleftrightarrow> errors_Is e EOF \<or> errors_Is e UnexpectedEOF"

lemma is_eof_simps [simp]: "is_eof EOF" "is_eof UnexpectedEOF"
  by (simp_all add: is_eof_def)

subsection \<open>64-bit signed integers\<close>

definition maxInt64 :: int where
  "maxInt64 = 2 ^ 63 - 1"

definition i64 :: "int \<Rightarrow> int" where
  "i64 x = (x + 2 ^ 63) mod 2 ^ 64 - 2 ^ 63"

lemma i64_id [simp]: "- (2 ^ 63) \<le> x \<Longrightarrow> x < 2 ^ 63 \<Longrightarrow> i64 x = x"
  by (simp add: i64_def)

lemma i64_nat: "n < 2 ^ 63 \<Longrightarrow> i64 (int n) = int n"
  by (rule i64_id) auto

lemma i64_range: "- (2 ^ 63) \<le> i64 x \<and> i64 x < 2 ^ 63"
proof -
  have "0 \<le> (x + 2 ^ 63) mod 2 ^ 64 \<and> (x + 2 ^ 63) mod 2 ^ 64 < (2::int) ^ 64"
    by simp
  then show ?thesis by (simp add: i64_def)
qed

lemma sdiv_nonneg: "0 \<le> a \<Longrightarrow> 0 < b \<Longrightarrow> (a::int) sdiv b = a div b"
  by (cases "a = 0") (simp_all add: signed_divide_int_def)

lemma smod_nonneg: "0 \<le> a \<Longrightarrow> 0 < b \<Longrightarrow> (a::int) smod b = a mod b"
proof (cases "a = 0")
  case False
  assume "0 \<le> a" "0 < b"
  with False show ?thesis by (simp add: signed_modulo_int_def)
qed (simp add: signed_modulo_int_def)

subsection \<open>Byte strings\<close>

definition slice :: "bytes \<Rightarrow> nat \<Rightarrow> nat \<Rightarrow> bytes" where
  "slice b off n = take n (drop off b)"

lemma length_slice [len_simps]: "off + n \<le> length b \<Longrightarrow> length (slice b off n) = n"
  by (simp add: slice_def)

lemma slice_slice: "j + m \<le> n \<Longrightarrow> slice (slice b k n) j m = slice b (k + j) m"
  by (simp add: slice_def drop_take add.commute)

text \<open>\<open>copy(dst, src)\<close>: the first \<open>min (len dst) (len src)\<close> bytes of \<open>dst\<close> are replaced.\<close>

definition overlay :: "'a list \<Rightarrow> 'a list \<Rightarrow> 'a list" where
  "overlay src dst = take (length dst) src @ drop (length src) dst"

lemma length_overlay [simp, len_simps]: "length (overlay src dst) = length dst"
  by (simp add: overlay_def min_def)

lemma overlay_full [simp]: "length src = length dst \<Longrightarrow> overlay src dst = src"
  by (simp add: overlay_def)

text \<open>Writing a run of bytes into a buffer at an offset; the buffer keeps its length.\<close>

definition writeAt :: "nat \<Rightarrow> 'a list \<Rightarrow> 'a list \<Rightarrow> 'a list" where
  "writeAt off b buf = take off buf @ overlay b (drop off buf)"

lemma length_writeAt [simp, len_simps]: "length (writeAt off b buf) = length buf"
  by (simp add: writeAt_def)

lemma writeAt_append:
  "length a = off \<Longrightarrow> length old = length b \<Longrightarrow> writeAt off b (a @ old @ rest) = a @ b @ rest"
  by (simp add: writeAt_def overlay_def)

definition xorBytes :: "bytes \<Rightarrow> bytes \<Rightarrow> bytes" where
  "xorBytes a b = map2 (XOR) a b"

lemma length_xorBytes [simp, len_simps]: "length (xorBytes a b) = min (length a) (length b)"
  by (simp add: xorBytes_def)

lemma xorBytes_Nil [simp]: "xorBytes [] b = []" "xorBytes a [] = []"
  by (simp_all add: xorBytes_def)

lemma xorBytes_Cons [simp]: "xorBytes (x # a) (y # b) = (x XOR y) # xorBytes a b"
  by (simp add: xorBytes_def)

lemma xor_word_cancel [simp, cancel_simps]: "(x XOR y) XOR y = (x :: 'a::len word)"
  by (simp add: xor.assoc)

lemma xorBytes_cancel [simp, cancel_simps]:
  "length a \<le> length b \<Longrightarrow> xorBytes (xorBytes a b) b = a"
proof (induction a arbitrary: b)
  case Nil
  then show ?case by simp
next
  case (Cons x a)
  then show ?case by (cases b) simp_all
qed

lemma xorBytes_commute: "xorBytes a b = xorBytes b a"
proof (induction a arbitrary: b)
  case Nil
  then show ?case by simp
next
  case (Cons x a)
  then show ?case by (cases b) (simp_all add: xor.commute)
qed

lemma nth_xorBytes:
  "i < length a \<Longrightarrow> i < length b \<Longrightarrow> xorBytes a b ! i = a ! i XOR b ! i"
  by (simp add: xorBytes_def)

lemma xorBytes_right_eq:
  "length a = length b \<Longrightarrow> length c = length a \<Longrightarrow> xorBytes a b = c \<longleftrightarrow> a = xorBytes c b"
  by (metis xorBytes_cancel order_refl)

text \<open>Induction over the 16-byte blocks of a byte string.\<close>

lemma block_induct [consumes 1, case_names Nil block]:
  fixes s :: bytes
  assumes "16 dvd length s"
    and "P []"
    and "\<And>b s. length b = 16 \<Longrightarrow> 16 dvd length s \<Longrightarrow> P s \<Longrightarrow> P (b @ s)"
  shows "P s"
proof -
  obtain n where "length s = 16 * n" using assms(1) by (auto elim: dvdE)
  then show ?thesis
  proof (induction n arbitrary: s)
    case 0
    then show ?case using assms(2) by simp
  next
    case (Suc n)
    then have "P (take 16 s @ drop 16 s)"
      by (intro assms(3)) auto
    then show ?case by simp
  qed
qed

subsection \<open>Little- and big-endian integers\<close>

primrec leNat :: "bytes \<Rightarrow> nat" where
  "leNat [] = 0"
| "leNat (b # bs) = unat b + 256 * leNat bs"

primrec leBytes :: "nat \<Rightarrow> nat \<Rightarrow> bytes" where
  "leBytes 0 k = []"
| "leBytes (Suc n) k = word_of_nat k # leBytes n (k div 256)"

definition beBytes :: "nat \<Rightarrow> nat \<Rightarrow> bytes" where
  "beBytes n k = rev (leBytes n k)"

lemma length_leBytes [simp, len_simps]: "length (leBytes n k) = n"
  by (induction n arbitrary: k) simp_all

lemma length_beBytes [simp, len_simps]: "length (beBytes n k) = n"
  by (simp add: beBytes_def)

lemma leNat_replicate_0 [simp]: "leNat (replicate n 0) = 0"
  by (induction n) simp_all

lemma leNat_bound: "leNat bs < 256 ^ length bs"
proof (induction bs)
  case Nil
  then show ?case by simp
next
  case (Cons b bs)
  have "unat b < 256"
    using unsigned_less [of b] by simp
  with Cons show ?case by simp
qed

lemma unat_byte_of_nat: "unat (word_of_nat k :: byte) = k mod 256"
  by (simp add: unat_of_nat)

lemma leNat_leBytes [simp, cancel_simps]: "leNat (leBytes n k) = k mod 256 ^ n"
proof (induction n arbitrary: k)
  case 0
  then show ?case by simp
next
  case (Suc n)
  have "k mod 256 + 256 * (k div 256 mod 256 ^ n) = k mod (256 * 256 ^ n)"
    by (simp add: mod_mult2_eq)
  with Suc show ?case by (simp add: unat_byte_of_nat)
qed

lemma leBytes_leNat [simp, cancel_simps]: "leBytes (length bs) (leNat bs) = bs"
proof (induction bs)
  case Nil
  then show ?case by simp
next
  case (Cons b bs)
  have b: "unat b < 256"
    using unsigned_less [of b] by simp
  have "unat (word_of_nat (unat b + 256 * leNat bs) :: byte) = unat b"
    using b by (simp add: unat_byte_of_nat del: of_nat_add)
  then have "word_of_nat (unat b + 256 * leNat bs) = b"
    by (rule unsigned_word_eqI)
  moreover have "(unat b + 256 * leNat bs) div 256 = leNat bs"
    using b by simp
  ultimately show ?case using Cons by simp
qed

lemma leBytes_mod: "leBytes n (k mod 256 ^ n) = leBytes n k"
  by (metis leBytes_leNat leNat_leBytes length_leBytes)

lemma leBytes_inj: "leBytes n j = leBytes n k \<Longrightarrow> j mod 256 ^ n = k mod 256 ^ n"
  by (metis leNat_leBytes)

text \<open>Shifting a byte left with a carry bit, and exclusive or with the lowest byte.\<close>

lemma double_mod: "2 * n mod 256 = 2 * (n mod 128)" for n :: nat
  using mult_mod_right [of 2 n 128] by simp

lemma double_mod_Suc: "(2 * n mod 256 + 1) mod 256 = 2 * n mod 256 + (1::nat)"
proof -
  have "n mod 128 < 128" by simp
  then have "2 * (n mod 128) + 1 < 256" by linarith
  then show ?thesis unfolding double_mod by (rule mod_less)
qed

lemma byte_shift_or:
  "unat (push_bit 1 b OR of_bool q) = (2 * unat b) mod 256 + of_bool q" for b :: byte
proof (cases q)
  case True
  have "push_bit 1 b OR 1 = 2 * b + 1"
    by (simp add: or_one_eq push_bit_eq_mult mult.commute)
  moreover have "unat (2 * b + 1) = (2 * unat b) mod 256 + 1"
    using double_mod_Suc [of "unat b"] by (simp only: unat_word_ariths) simp
  ultimately show ?thesis using True by simp
next
  case False
  have "unat (2 * b) = (2 * unat b) mod 256"
    by (simp only: unat_word_ariths) simp
  with False show ?thesis by (simp add: push_bit_eq_mult mult.commute)
qed

lemma byte_top_bit: "drop_bit 7 b = of_bool (128 \<le> unat b)" for b :: byte
proof -
  have b: "unat b < 256" using unsigned_less [of b] by simp
  have "unat (drop_bit 7 b) = drop_bit 7 (unat b)"
    by (rule unat_drop_bit_eq)
  also have "\<dots> = unat b div 2 ^ 7"
    by (rule drop_bit_eq_div)
  also have "\<dots> = (if 128 \<le> unat b then 1 else 0)"
    using b by (auto intro: div_nat_eqI)
  also have "\<dots> = unat (of_bool (128 \<le> unat b) :: byte)" by simp
  finally show ?thesis by (rule unsigned_word_eqI)
qed

lemma byte_shift_in:
  "unat (push_bit 1 b OR of_bool q) + 256 * of_bool (128 \<le> unat b) = 2 * unat b + of_bool q" for b :: byte
proof -
  have b: "unat b < 256" using unsigned_less [of b] by simp
  have "2 * unat b mod 256 = 2 * unat b - (if 128 \<le> unat b then 256 else 0)"
    using b by (auto simp: mod_if)
  then show ?thesis using b unfolding byte_shift_or by (simp split: if_splits)
qed

lemma xor_low_byte:
  "(x + 256 * r) XOR y = (x XOR y) + 256 * r" if "x < 256" "y < 256" for x y r :: nat
proof -
  have t: "take_bit 8 x = x" "take_bit 8 y = y" "drop_bit 8 x = 0" "drop_bit 8 y = 0"
    using that by (simp_all add: take_bit_eq_mod drop_bit_eq_div)
  have a: "take_bit 8 (x + 256 * r) = x" "drop_bit 8 (x + 256 * r) = r"
    using that by (simp_all add: take_bit_eq_mod drop_bit_eq_div)
  have "(x + 256 * r) XOR y = take_bit 8 ((x + 256 * r) XOR y) +
      push_bit 8 (drop_bit 8 ((x + 256 * r) XOR y))"
    using bits_ident [of 8 "(x + 256 * r) XOR y"] by (simp only: add.commute)
  also have "take_bit 8 ((x + 256 * r) XOR y) = x XOR y"
    by (simp only: take_bit_xor a t)
  also have "drop_bit 8 ((x + 256 * r) XOR y) = r"
    by (simp only: drop_bit_xor a t) simp
  finally show ?thesis by (simp add: push_bit_eq_mult)
qed

text \<open>Fixed-width fields: \<open>binary.LittleEndian.Uint16\<close>, \<open>PutUint16\<close> and their kin.\<close>

definition le16 :: "bytes \<Rightarrow> nat \<Rightarrow> u16" where
  "le16 b off = word_of_nat (leNat (slice b off 2))"

definition le32 :: "bytes \<Rightarrow> nat \<Rightarrow> u32" where
  "le32 b off = word_of_nat (leNat (slice b off 4))"

definition le64 :: "bytes \<Rightarrow> nat \<Rightarrow> u64" where
  "le64 b off = word_of_nat (leNat (slice b off 8))"

definition put16 :: "u16 \<Rightarrow> bytes" where
  "put16 w = leBytes 2 (unat w)"

definition put32 :: "u32 \<Rightarrow> bytes" where
  "put32 w = leBytes 4 (unat w)"

definition put64 :: "u64 \<Rightarrow> bytes" where
  "put64 w = leBytes 8 (unat w)"

lemma length_put [simp, len_simps]:
  "length (put16 a) = 2" "length (put32 b) = 4" "length (put64 c) = 8"
  by (simp_all add: put16_def put32_def put64_def)

lemma word_of_leNat_leBytes:
  "LENGTH('a::len) = 8 * n \<Longrightarrow> word_of_nat (leNat (leBytes n (unat w))) = (w :: 'a word)"
proof -
  assume n: "LENGTH('a) = 8 * n"
  have "(256::nat) ^ n = 2 ^ LENGTH('a)"
    by (simp add: n power_mult)
  then have "unat w mod 256 ^ n = unat w"
    using unsigned_less [of w] by simp
  then show ?thesis by simp
qed

lemma le_put_append [simp, cancel_simps]:
  "le16 (put16 a @ rest) 0 = a" "le32 (put32 b @ rest) 0 = b" "le64 (put64 c @ rest) 0 = c"
proof -
  have s: "slice (leBytes n k @ rest) 0 n = leBytes n k" for n k
    by (simp add: slice_def)
  show "le16 (put16 a @ rest) 0 = a"
    unfolding le16_def put16_def s by (rule word_of_leNat_leBytes) simp
  show "le32 (put32 b @ rest) 0 = b"
    unfolding le32_def put32_def s by (rule word_of_leNat_leBytes) simp
  show "le64 (put64 c @ rest) 0 = c"
    unfolding le64_def put64_def s by (rule word_of_leNat_leBytes) simp
qed

lemma slice_0: "slice b 0 n = take n b"
  by (simp add: slice_def)

lemma slice_skip: "length a \<le> off \<Longrightarrow> slice (a @ b) off n = slice b (off - length a) n"
  by (simp add: slice_def)

lemma le_skip:
  "length a \<le> off \<Longrightarrow> le16 (a @ b) off = le16 b (off - length a)"
  "length a \<le> off \<Longrightarrow> le32 (a @ b) off = le32 b (off - length a)"
  "length a \<le> off \<Longrightarrow> le64 (a @ b) off = le64 b (off - length a)"
  by (simp_all add: le16_def le32_def le64_def slice_skip)

lemma put_le:
  "off + 2 \<le> length b \<Longrightarrow> put16 (le16 b off) = slice b off 2"
  "off + 4 \<le> length b \<Longrightarrow> put32 (le32 b off) = slice b off 4"
  "off + 8 \<le> length b \<Longrightarrow> put64 (le64 b off) = slice b off 8"
proof -
  have aux: "leBytes n (unat (word_of_nat (leNat s) :: 'a::len word)) = s"
    if "length s = n" "LENGTH('a) = 8 * n" for s n
  proof -
    have "(256::nat) ^ n = 2 ^ LENGTH('a)"
      by (simp add: that power_mult)
    with leNat_bound [of s] that have "leNat s < 2 ^ LENGTH('a)" by simp
    then have "unat (word_of_nat (leNat s) :: 'a word) = leNat s"
      by (simp add: unat_of_nat)
    then show ?thesis
      using leBytes_leNat [of s] that(1) by (simp only:)
  qed
  show "off + 2 \<le> length b \<Longrightarrow> put16 (le16 b off) = slice b off 2"
    by (simp add: put16_def le16_def aux length_slice)
  show "off + 4 \<le> length b \<Longrightarrow> put32 (le32 b off) = slice b off 4"
    by (simp add: put32_def le32_def aux length_slice)
  show "off + 8 \<le> length b \<Longrightarrow> put64 (le64 b off) = slice b off 8"
    by (simp add: put64_def le64_def aux length_slice)
qed

subsection \<open>\<open>bytes.Index\<close>\<close>

primrec bytes_Index :: "bytes \<Rightarrow> bytes \<Rightarrow> nat option" where
  "bytes_Index [] sep = (if sep = [] then Some 0 else None)"
| "bytes_Index (x # xs) sep =
     (if take (length sep) (x # xs) = sep then Some 0
      else map_option Suc (bytes_Index xs sep))"

definition occursAt :: "bytes \<Rightarrow> bytes \<Rightarrow> nat \<Rightarrow> bool" where
  "occursAt s sep i \<longleftrightarrow> take (length sep) (drop i s) = sep"

lemma occursAt_0 [simp]: "occursAt s sep 0 \<longleftrightarrow> take (length sep) s = sep"
  by (simp add: occursAt_def)

lemma occursAt_Suc [simp]: "occursAt (x # s) sep (Suc i) \<longleftrightarrow> occursAt s sep i"
  by (simp add: occursAt_def)

lemma bytes_Index_Some:
  "bytes_Index s sep = Some i \<Longrightarrow> occursAt s sep i \<and> (\<forall>j<i. \<not> occursAt s sep j)"
proof (induction s arbitrary: i)
  case Nil
  then show ?case by (auto split: if_splits)
next
  case (Cons x s)
  show ?case
  proof (cases "take (length sep) (x # s) = sep")
    case True
    with Cons.prems show ?thesis by simp
  next
    case False
    with Cons.prems obtain k where k: "bytes_Index s sep = Some k" "i = Suc k"
      by auto
    with Cons.IH have "occursAt s sep k" "\<forall>j<k. \<not> occursAt s sep j" by auto
    with False k show ?thesis
      by (auto simp: less_Suc_eq_0_disj simp del: take_Suc_Cons)
  qed
qed

lemma bytes_Index_None: "bytes_Index s sep = None \<Longrightarrow> \<not> occursAt s sep i"
proof (induction s arbitrary: i)
  case Nil
  then show ?case by (auto simp: occursAt_def split: if_splits)
next
  case (Cons x s)
  then show ?case
    by (cases i) (auto split: if_splits)
qed

lemma bytes_Index_subset: "\<not> set sep \<subseteq> set s \<Longrightarrow> bytes_Index s sep = None"
proof (rule ccontr)
  assume n: "\<not> set sep \<subseteq> set s" "bytes_Index s sep \<noteq> None"
  then obtain i where "bytes_Index s sep = Some i" by auto
  then have "take (length sep) (drop i s) = sep" using bytes_Index_Some by (auto simp: occursAt_def)
  then have "set sep \<subseteq> set s" by (metis set_take_subset set_drop_subset subset_trans)
  with n show False by simp
qed

lemma bytes_Index_bound: "bytes_Index s sep = Some i \<Longrightarrow> i + length sep \<le> length s"
proof -
  assume "bytes_Index s sep = Some i"
  then have *: "take (length sep) (drop i s) = sep"
    using bytes_Index_Some by (auto simp: occursAt_def)
  show ?thesis
  proof (cases "sep = []")
    case True
    with \<open>bytes_Index s sep = Some i\<close> show ?thesis
      by (cases s) auto
  next
    case False
    have "min (length sep) (length s - i) = length sep"
      using arg_cong [OF *, of length] by simp
    then have "length sep \<le> length s - i" by simp
    moreover from False have "0 < length sep" by simp
    ultimately show ?thesis by linarith
  qed
qed

subsection \<open>\<open>sort.Search\<close>\<close>

text \<open>The binary search of the standard library: the least index of \<open>[0, n)\<close> where a
  monotone predicate holds, or \<open>n\<close>.\<close>

function search_loop :: "(nat \<Rightarrow> bool) \<Rightarrow> nat \<Rightarrow> nat \<Rightarrow> nat" where
  "search_loop f i j =
     (if i < j then
        (let h = (i + j) div 2 in
         if \<not> f h then search_loop f (h + 1) j else search_loop f i h)
      else i)"
  by pat_completeness auto
termination
  by (relation "measure (\<lambda>(f, i, j). j - i)") auto

declare search_loop.simps [simp del]

definition sort_Search :: "nat \<Rightarrow> (nat \<Rightarrow> bool) \<Rightarrow> nat" where
  "sort_Search n f = search_loop f 0 n"

lemma search_loop_spec:
  assumes mono: "\<And>a b. a \<le> b \<Longrightarrow> f a \<Longrightarrow> b < n \<Longrightarrow> f b"
    and "i \<le> j" "j \<le> n" "\<forall>k<i. \<not> f k" "\<forall>k. j \<le> k \<longrightarrow> k < n \<longrightarrow> f k"
  shows "search_loop f i j \<le> n \<and> (\<forall>k < search_loop f i j. \<not> f k) \<and>
    (\<forall>k. search_loop f i j \<le> k \<longrightarrow> k < n \<longrightarrow> f k)"
  using assms
proof (induction f i j rule: search_loop.induct)
  case (1 f i j)
  define h where "h = (i + j) div 2"
  show ?case
  proof (cases "i < j")
    case False
    then have "search_loop f i j = i" by (simp add: search_loop.simps [of f i j])
    moreover have "i = j" using False "1.prems"(2) by simp
    ultimately show ?thesis using "1.prems"(3-5) by simp
  next
    case True
    then have h: "i \<le> h" "h < j" by (auto simp: h_def)
    show ?thesis
    proof (cases "f h")
      case True
      have above: "\<forall>k. h \<le> k \<longrightarrow> k < n \<longrightarrow> f k"
        using "1.prems"(1) True by blast
      have step: "search_loop f i j = search_loop f i h"
        using \<open>i < j\<close> True by (simp add: search_loop.simps [of f i j] h_def)
      have "h \<le> n" using h "1.prems"(3) by simp
      have "\<not> \<not> f h" using True by simp
      show ?thesis
        unfolding step
        by (rule "1.IH"(2) [OF \<open>i < j\<close> h_def \<open>\<not> \<not> f h\<close>])
          (fact "1.prems"(1) h(1) \<open>h \<le> n\<close> "1.prems"(4) above)+
    next
      case False
      have below: "\<forall>k < h + 1. \<not> f k"
      proof (intro allI impI notI)
        fix k assume "k < h + 1" "f k"
        with "1.prems"(1) [of k h] h "1.prems"(3) False show False by simp
      qed
      have step: "search_loop f i j = search_loop f (h + 1) j"
        using \<open>i < j\<close> False by (simp add: search_loop.simps [of f i j] h_def)
      have "h + 1 \<le> j" using h by simp
      show ?thesis
        unfolding step
        by (rule "1.IH"(1) [OF \<open>i < j\<close> h_def False])
          (fact "1.prems"(1) \<open>h + 1 \<le> j\<close> "1.prems"(3) below "1.prems"(5))+
    qed
  qed
qed

lemma sort_Search_spec:
  assumes "\<And>a b. a \<le> b \<Longrightarrow> f a \<Longrightarrow> b < n \<Longrightarrow> f b"
  shows "sort_Search n f \<le> n"
    and "k < sort_Search n f \<Longrightarrow> \<not> f k"
    and "sort_Search n f \<le> k \<Longrightarrow> k < n \<Longrightarrow> f k"
  using search_loop_spec [of f n 0 n] assms by (auto simp: sort_Search_def)

text \<open>Division of offsets: the sector of a byte offset is below a bound when the offset is below the bound's start.\<close>

lemma zdiv_less_iff:
  fixes v k e :: int
  assumes "0 < k"
  shows "v div k < e \<longleftrightarrow> v < e * k"
proof
  assume "v div k < e"
  then have "(v div k + 1) * k \<le> e * k" using assms by (intro mult_right_mono) auto
  moreover have "v < (v div k + 1) * k"
    using div_mult_mod_eq [of v k] pos_mod_bound [OF assms, of v] unfolding distrib_right by linarith
  ultimately show "v < e * k" by simp
next
  assume v: "v < e * k"
  show "v div k < e"
  proof (rule ccontr)
    assume "\<not> v div k < e"
    then have "e * k \<le> (v div k) * k" using assms by (intro mult_right_mono) auto
    with v div_mult_mod_eq [of v k] pos_mod_sign [OF assms, of v] show False by linarith
  qed
qed

text \<open>A 64-bit number in sixteen little-endian bytes, the form in which the sector ciphers encrypt it.\<close>

lemma leNat_append: "leNat (a @ b) = leNat a + 256 ^ length a * leNat b"
  by (induction a) (simp_all add: algebra_simps)

lemma put64_extended: "put64 w @ replicate 8 0 = leBytes 16 (unat w)"
proof -
  have "unat w < 256 ^ 8" using unsigned_less [of w] by simp
  then have "leNat (put64 w @ replicate 8 0) = unat w" by (simp add: leNat_append put64_def)
  moreover have "leBytes (length (put64 w @ replicate 8 (0::byte))) (leNat (put64 w @ replicate 8 0)) =
      put64 w @ replicate 8 0" by (rule leBytes_leNat)
  ultimately show ?thesis by simp
qed

end
