(* ===== verification/Sha256.thy ===== *)
theory Sha256
  imports Prelude
begin

section \<open>\<open>crypto/sha256\<close> (FIPS 180-4)\<close>

text \<open>
  \<open>sha256_Sum256\<close> is the standard library's \<open>sha256.Sum256\<close>: padding, the message schedule
  and the compression function over 32-bit words. The package uses it for the integrity
  check, the user and recovery keys and the key stretching; those components rely on the
  result being 32 bytes long and a function of the message.
\<close>

text \<open>The constants of the standard (fractional parts of roots of primes), in decimal.\<close>

definition sha256_K :: "u32 list" where
  "sha256_K =
    [1116352408, 1899447441, 3049323471, 3921009573, 961987163, 1508970993, 2453635748, 2870763221,
     3624381080, 310598401, 607225278, 1426881987, 1925078388, 2162078206, 2614888103, 3248222580,
     3835390401, 4022224774, 264347078, 604807628, 770255983, 1249150122, 1555081692, 1996064986,
     2554220882, 2821834349, 2952996808, 3210313671, 3336571891, 3584528711, 113926993, 338241895,
     666307205, 773529912, 1294757372, 1396182291, 1695183700, 1986661051, 2177026350, 2456956037,
     2730485921, 2820302411, 3259730800, 3345764771, 3516065817, 3600352804, 4094571909, 275423344,
     430227734, 506948616, 659060556, 883997877, 958139571, 1322822218, 1537002063, 1747873779,
     1955562222, 2024104815, 2227730452, 2361852424, 2428436474, 2756734187, 3204031479, 3329325298]"

definition sha256_H0 :: "u32 list" where
  "sha256_H0 =
    [1779033703, 3144134277, 1013904242, 2773480762, 1359893119, 2600822924, 528734635, 1541459225]"

definition rotr :: "nat \<Rightarrow> u32 \<Rightarrow> u32" where
  "rotr n w = drop_bit n w OR push_bit (32 - n) w"

definition be32 :: "bytes \<Rightarrow> u32" where
  "be32 b = foldl (\<lambda>a x. push_bit 8 a OR ucast x) 0 b"

definition be32Bytes :: "u32 \<Rightarrow> bytes" where
  "be32Bytes w = map (\<lambda>i. ucast (drop_bit i w)) [24, 16, 8, 0]"

primrec sha256_schedule :: "nat \<Rightarrow> u32 list \<Rightarrow> u32 list" where
  "sha256_schedule 0 w = w"
| "sha256_schedule (Suc k) w =
     (let t = length w;
          w15 = w ! (t - 15); w2 = w ! (t - 2);
          s0 = rotr 7 w15 XOR rotr 18 w15 XOR drop_bit 3 w15;
          s1 = rotr 17 w2 XOR rotr 19 w2 XOR drop_bit 10 w2
      in sha256_schedule k (w @ [w ! (t - 16) + s0 + w ! (t - 7) + s1]))"

record sha256_state =
  sha_a :: u32
  sha_b :: u32
  sha_c :: u32
  sha_d :: u32
  sha_e :: u32
  sha_f :: u32
  sha_g :: u32
  sha_h :: u32

definition sha256_round :: "u32 \<times> u32 \<Rightarrow> sha256_state \<Rightarrow> sha256_state" where
  "sha256_round kw s =
     (case kw of (k, w) \<Rightarrow>
      let e = sha_e s; a = sha_a s;
          s1 = rotr 6 e XOR rotr 11 e XOR rotr 25 e;
          ch = (e AND sha_f s) XOR (NOT e AND sha_g s);
          t1 = sha_h s + s1 + ch + k + w;
          s0 = rotr 2 a XOR rotr 13 a XOR rotr 22 a;
          maj = (a AND sha_b s) XOR (a AND sha_c s) XOR (sha_b s AND sha_c s);
          t2 = s0 + maj
      in \<lparr>sha_a = t1 + t2, sha_b = a, sha_c = sha_b s, sha_d = sha_c s,
          sha_e = sha_d s + t1, sha_f = e, sha_g = sha_f s, sha_h = sha_g s\<rparr>)"

definition sha256_words :: "sha256_state \<Rightarrow> u32 list" where
  "sha256_words s = [sha_a s, sha_b s, sha_c s, sha_d s, sha_e s, sha_f s, sha_g s, sha_h s]"

definition sha256_init :: "u32 list \<Rightarrow> sha256_state" where
  "sha256_init h = \<lparr>sha_a = h ! 0, sha_b = h ! 1, sha_c = h ! 2, sha_d = h ! 3,
     sha_e = h ! 4, sha_f = h ! 5, sha_g = h ! 6, sha_h = h ! 7\<rparr>"

definition sha256_block :: "u32 list \<Rightarrow> bytes \<Rightarrow> u32 list" where
  "sha256_block h b =
     (let w = sha256_schedule 48 (map (\<lambda>i. be32 (slice b (4 * i) 4)) [0..<16]);
          s = fold sha256_round (zip sha256_K w) (sha256_init h)
      in map2 (+) h (sha256_words s))"

definition sha256_pad :: "bytes \<Rightarrow> bytes" where
  "sha256_pad m =
     (let n = length m; z = (119 - n mod 64) mod 64
      in m @ [0x80] @ replicate z 0 @ beBytes 8 (8 * n))"

function sha256_blocks :: "u32 list \<Rightarrow> bytes \<Rightarrow> u32 list" where
  "sha256_blocks h m = (if m = [] then h else sha256_blocks (sha256_block h (take 64 m)) (drop 64 m))"
  by pat_completeness auto
termination
  by (relation "measure (\<lambda>(h, m). length m)") auto

declare sha256_blocks.simps [simp del]

definition sha256_Sum256 :: "bytes \<Rightarrow> bytes" where
  "sha256_Sum256 m =
     concat (map be32Bytes (sha256_blocks sha256_H0 (sha256_pad m)))"

lemma length_sha256_block: "length h = 8 \<Longrightarrow> length (sha256_block h b) = 8"
  by (simp add: sha256_block_def Let_def sha256_words_def)

lemma length_sha256_blocks: "length h = 8 \<Longrightarrow> length (sha256_blocks h m) = 8"
proof (induction h m rule: sha256_blocks.induct)
  case (1 h m)
  then show ?case
    by (auto simp: sha256_blocks.simps [of h m] length_sha256_block)
qed

lemma length_sha256 [simp, len_simps]: "length (sha256_Sum256 m) = 32"
proof -
  have "length (sha256_blocks sha256_H0 (sha256_pad m)) = 8"
    by (rule length_sha256_blocks) (simp add: sha256_H0_def)
  then show ?thesis
    by (simp add: sha256_Sum256_def be32Bytes_def length_concat comp_def sum_list_triv)
qed

text \<open>Padding makes whole blocks.\<close>

lemma sha256_pad_blocks: "64 dvd length (sha256_pad m)"
proof -
  define q r where "q = length m div 64" and "r = length m mod 64"
  have m: "length m = 64 * q + r" and r: "r < 64" by (simp_all add: q_def r_def)
  have len: "length (sha256_pad m) = 64 * q + r + 9 + (119 - r) mod 64"
    by (simp add: sha256_pad_def Let_def r_def [symmetric]) (simp add: m)
  show ?thesis
  proof (cases "r \<le> 55")
    case True
    then have "(119 - r) mod 64 = 55 - r" by (simp add: mod_if)
    with len True have "length (sha256_pad m) = 64 * (q + 1)" by simp
    then show ?thesis by simp
  next
    case False
    then have "(119 - r) mod 64 = 119 - r" by simp
    with len r False have "length (sha256_pad m) = 64 * (q + 2)" by simp
    then show ?thesis by simp
  qed
qed

end
