(* ===== verification/Unicode.thy ===== *)
theory Unicode
  imports Prelude
begin

section \<open>Go strings, UTF-8 and \<open>unicode/utf16\<close>\<close>

text \<open>
  A Go string is a byte sequence: a HOL \<open>string\<close>, whose characters are bytes. Runes are
  natural numbers. \<open>utf8Decode\<close> is the conversion \<open>[]rune(s)\<close>, \<open>utf8Encode\<close> the conversion
  \<open>string(runes)\<close>, \<open>utf16Encode\<close> and \<open>utf16Decode\<close> are the library functions; each maps
  what is not a Unicode scalar value to U+FFFD. \<open>UTF16LEEncode\<close> is the function of
  \<open>keys.go\<close>; \<open>utf16leText\<close> is the decoding loop of \<open>Datum.Text\<close> (\<open>information.go\<close>).
\<close>

definition scalar :: "nat \<Rightarrow> bool" where
  "scalar r \<longleftrightarrow> r < 0xD800 \<or> (0xE000 \<le> r \<and> r \<le> 0x10FFFF)"

subsection \<open>UTF-8\<close>

definition utf8EncodeRune :: "nat \<Rightarrow> nat list" where
  "utf8EncodeRune r =
     (if r \<le> 0x7F then [r]
      else if r \<le> 0x7FF then [0xC0 + r div 64, 0x80 + r mod 64]
      else if \<not> scalar r then [0xEF, 0xBF, 0xBD]
      else if r \<le> 0xFFFF then [0xE0 + r div 4096, 0x80 + r div 64 mod 64, 0x80 + r mod 64]
      else [0xF0 + r div 262144, 0x80 + r div 4096 mod 64, 0x80 + r div 64 mod 64, 0x80 + r mod 64])"

definition utf8Encode :: "nat list \<Rightarrow> string" where
  "utf8Encode rs = map char_of (concat (map utf8EncodeRune rs))"

definition second_lo :: "nat \<Rightarrow> nat" where
  "second_lo a = (if a = 0xE0 then 0xA0 else if a = 0xF0 then 0x90 else 0x80)"

definition second_hi :: "nat \<Rightarrow> nat" where
  "second_hi a = (if a = 0xED then 0x9F else if a = 0xF4 then 0x8F else 0xBF)"

definition within :: "nat \<Rightarrow> nat \<Rightarrow> nat \<Rightarrow> bool" where
  "within lo hi b \<longleftrightarrow> lo \<le> b \<and> b \<le> hi"

text \<open>The first rune of a byte sequence and its width; malformed input is U+FFFD of width 1.\<close>

definition utf8DecodeRune :: "nat list \<Rightarrow> nat \<times> nat" where
  "utf8DecodeRune s =
     (case s of
        [] \<Rightarrow> (0xFFFD, 0)
      | a # rest \<Rightarrow>
          if a < 0x80 then (a, 1)
          else if within 0xC2 0xDF a then
            (case rest of
               b # _ \<Rightarrow> if within 0x80 0xBF b then (a mod 32 * 64 + b mod 64, 2) else (0xFFFD, 1)
             | _ \<Rightarrow> (0xFFFD, 1))
          else if within 0xE0 0xEF a then
            (case rest of
               b # c # _ \<Rightarrow>
                 if within (second_lo a) (second_hi a) b \<and> within 0x80 0xBF c
                 then (a mod 16 * 4096 + b mod 64 * 64 + c mod 64, 3) else (0xFFFD, 1)
             | _ \<Rightarrow> (0xFFFD, 1))
          else if within 0xF0 0xF4 a then
            (case rest of
               b # c # d # _ \<Rightarrow>
                 if within (second_lo a) (second_hi a) b \<and> within 0x80 0xBF c \<and> within 0x80 0xBF d
                 then (a mod 8 * 262144 + b mod 64 * 4096 + c mod 64 * 64 + d mod 64, 4)
                 else (0xFFFD, 1)
             | _ \<Rightarrow> (0xFFFD, 1))
          else (0xFFFD, 1))"

lemma utf8DecodeRune_width:
  "s \<noteq> [] \<Longrightarrow> (r, w) = utf8DecodeRune s \<Longrightarrow> length (drop w s) < length s"
  by (auto simp: utf8DecodeRune_def split: list.splits if_splits)

function utf8Decode_loop :: "nat list \<Rightarrow> nat list" where
  "utf8Decode_loop s =
     (if s = [] then []
      else case utf8DecodeRune s of (r, w) \<Rightarrow> r # utf8Decode_loop (drop w s))"
  by pat_completeness auto
termination
  by (relation "measure length") (simp_all add: utf8DecodeRune_width del: length_drop)

declare utf8Decode_loop.simps [simp del]

definition utf8Decode :: "string \<Rightarrow> nat list" where
  "utf8Decode s = utf8Decode_loop (map of_char s)"

subsection \<open>UTF-16\<close>

definition utf16EncodeRune :: "nat \<Rightarrow> nat list" where
  "utf16EncodeRune v =
     (if v < 0xD800 \<or> (0xE000 \<le> v \<and> v < 0x10000) then [v]
      else if 0x10000 \<le> v \<and> v \<le> 0x10FFFF then
        [0xD800 + (v - 0x10000) div 1024 mod 1024, 0xDC00 + (v - 0x10000) mod 1024]
      else [0xFFFD])"

definition utf16Encode :: "nat list \<Rightarrow> nat list" where
  "utf16Encode rs = concat (map utf16EncodeRune rs)"

fun utf16Decode :: "nat list \<Rightarrow> nat list" where
  "utf16Decode [] = []"
| "utf16Decode [r] = [if r < 0xD800 \<or> 0xE000 \<le> r then r else 0xFFFD]"
| "utf16Decode (r # s # us) =
     (if r < 0xD800 \<or> 0xE000 \<le> r then r # utf16Decode (s # us)
      else if r < 0xDC00 \<and> 0xDC00 \<le> s \<and> s < 0xE000
      then ((r - 0xD800) * 1024 + (s - 0xDC00) + 0x10000) # utf16Decode us
      else 0xFFFD # utf16Decode (s # us))"

subsection \<open>The functions of the package\<close>

definition UTF16LEEncode :: "string \<Rightarrow> bytes" where
  "UTF16LEEncode s =
     concat (map (\<lambda>u. put16 (word_of_nat u)) (utf16Encode (utf8Decode s)))"

definition utf16leText :: "bytes \<Rightarrow> string" where
  "utf16leText data =
     (let count = length data div 2;
          u16s = map (\<lambda>i. unat (le16 data (2 * i))) [0..<count]
      in utf8Encode (utf16Decode u16s))"

subsection \<open>Round trips\<close>

lemma surrogate_unit: "0xD800 + m mod 1024 < (0x10000::nat)"
proof -
  have "m mod 1024 < 1024" by simp
  then show ?thesis by linarith
qed

lemma utf16_rune_roundtrip: "scalar v \<Longrightarrow> utf16Decode (utf16EncodeRune v @ us) = v # utf16Decode us"
proof (cases "v < 0x10000")
  case True
  assume "scalar v"
  with True show ?thesis by (cases us) (auto simp: utf16EncodeRune_def scalar_def)
next
  case False
  assume "scalar v"
  define w where "w = v - 0x10000"
  have w: "v = w + 0x10000" "w < 0x100000" using False \<open>scalar v\<close> by (auto simp: w_def scalar_def)
  have hi: "w div 1024 < 1024" using w by (intro less_mult_imp_div_less) simp
  have lo: "w mod 1024 < 1024" by simp
  have e: "utf16EncodeRune v = [0xD800 + w div 1024, 0xDC00 + w mod 1024]"
    using w hi by (simp add: utf16EncodeRune_def)
  have "\<not> (0xD800 + w div 1024 < 0xD800 \<or> 0xE000 \<le> 0xD800 + w div 1024)" using hi by simp
  moreover have "0xD800 + w div 1024 < 0xDC00 \<and> 0xDC00 \<le> 0xDC00 + w mod 1024 \<and> 0xDC00 + w mod 1024 < 0xE000"
    using hi lo by linarith
  ultimately show ?thesis
    unfolding e by (simp only: append_Cons append_Nil utf16Decode.simps if_True if_False) (simp add: w)
qed

lemma mod_base: "n mod m = 0 \<Longrightarrow> h < m \<Longrightarrow> (n + h) mod m = (h::nat)"
  using mod_add_left_eq [of n m h] by simp

lemma utf8_rune_roundtrip: "scalar r \<Longrightarrow> utf8DecodeRune (utf8EncodeRune r @ rest) = (r, length (utf8EncodeRune r))"
proof -
  assume s: "scalar r"
  consider "r \<le> 0x7F" | "0x80 \<le> r" "r \<le> 0x7FF" | "0x800 \<le> r" "r \<le> 0xFFFF" | "0x10000 \<le> r" by linarith
  then show ?thesis
  proof cases
    case 1 then show ?thesis by (simp add: utf8EncodeRune_def utf8DecodeRune_def)
  next
    case 2
    have e: "utf8EncodeRune r = [0xC0 + r div 64, 0x80 + r mod 64]" using 2 by (simp add: utf8EncodeRune_def)
    define h where "h = r div 64"
    define l where "l = r mod 64"
    have r: "r = 64 * h + l" "l < 64" by (simp_all add: h_def l_def)
    have h: "2 \<le> h" "h < 32" using 2 r by linarith+
    have m: "(0xC0 + h) mod 32 = h" "(0x80 + l) mod 64 = l" using h r(2) by (auto intro: mod_base)
    show ?thesis unfolding e h_def [symmetric] l_def [symmetric]
      using h r m by (simp add: utf8DecodeRune_def within_def)
  next
    case 3
    have e: "utf8EncodeRune r = [0xE0 + r div 4096, 0x80 + r div 64 mod 64, 0x80 + r mod 64]" using 3 s by (simp add: utf8EncodeRune_def)
    define h where "h = r div 4096"
    define k where "k = r div 64 mod 64"
    define l where "l = r mod 64"
    have "r div 64 = h * 64 + k" unfolding h_def k_def by (simp add: div_mult2_eq [of r 64 64, simplified])
    then have r: "r = 4096 * h + 64 * k + l" using mod_div_mult_eq [of r 64] unfolding l_def by linarith
    have kl: "k < 64" "l < 64" by (simp_all add: k_def l_def)
    have h: "h < 16" "h = 0 \<Longrightarrow> 32 \<le> k" "h = 13 \<Longrightarrow> k \<le> 31" using 3 r kl s unfolding scalar_def by linarith+
    have m: "(0xE0 + h) mod 16 = h" "(0x80 + l) mod 64 = l"  "(0x80 + k) mod 64 = k" using h(1) kl by (auto intro: mod_base)
    show ?thesis unfolding e h_def [symmetric] l_def [symmetric] k_def [symmetric]
      using h r m kl by (simp add: utf8DecodeRune_def within_def second_lo_def second_hi_def)
  next
    case 4
    have e: "utf8EncodeRune r = [0xF0 + r div 262144, 0x80 + r div 4096 mod 64, 0x80 + r div 64 mod 64, 0x80 + r mod 64]"
      using 4 s by (simp add: utf8EncodeRune_def)
    define h where "h = r div 262144"
    define j where "j = r div 4096 mod 64"
    define k where "k = r div 64 mod 64"
    define l where "l = r mod 64"
    have "r div 4096 = h * 64 + j" unfolding h_def j_def
      using div_mult2_eq [of r 4096 64] by simp
    moreover have "r div 64 = r div 4096 * 64 + k" unfolding k_def
      using div_mult2_eq [of r 64 64] by simp
    ultimately have r: "r = 262144 * h + 4096 * j + 64 * k + l"
      using mod_div_mult_eq [of r 64] unfolding l_def by linarith
    have kl: "j < 64" "k < 64" "l < 64" by (simp_all add: j_def k_def l_def)
    have h: "h < 5" "h = 0 \<Longrightarrow> 16 \<le> j" "h = 4 \<Longrightarrow> j \<le> 15"
      using 4 r kl s unfolding scalar_def by linarith+
    have m: "(0xF0 + h) mod 8 = h" "(0x80 + l) mod 64 = l" "(0x80 + k) mod 64 = k" "(0x80 + j) mod 64 = j"
      using h(1) kl by (auto intro: mod_base)
    show ?thesis unfolding e h_def [symmetric] l_def [symmetric] k_def [symmetric] j_def [symmetric]
      using h r m kl by (simp add: utf8DecodeRune_def within_def second_lo_def second_hi_def)
  qed
qed

lemma utf16_roundtrip: "\<forall>r \<in> set rs. scalar r \<Longrightarrow> utf16Decode (utf16Encode rs) = rs"
  by (induction rs) (simp_all add: utf16Encode_def utf16_rune_roundtrip)

lemma utf8EncodeRune_bytes: "\<forall>b \<in> set (utf8EncodeRune r). b < 256"
proof -
  have "0x80 + m mod 64 < (256::nat)" for m
  proof -
    have "m mod 64 < 64" by simp
    then show ?thesis by linarith
  qed
  moreover have "0xC0 + r div 64 < 256" if "r \<le> 0x7FF" using that by simp
  moreover have "0xE0 + r div 4096 < 256" if "r \<le> 0xFFFF" using that by simp
  moreover have "0xF0 + r div 262144 < 256" if "scalar r" using that by (auto simp: scalar_def)
  ultimately show ?thesis by (simp add: utf8EncodeRune_def)
qed

lemma utf8EncodeRune_nonempty: "utf8EncodeRune r \<noteq> []"
  by (simp add: utf8EncodeRune_def)

lemma utf8_loop_roundtrip:
  "\<forall>r \<in> set rs. scalar r \<Longrightarrow> utf8Decode_loop (concat (map utf8EncodeRune rs)) = rs"
proof (induction rs)
  case Nil
  then show ?case by (simp add: utf8Decode_loop.simps)
next
  case (Cons r rs)
  then show ?case
    by (subst utf8Decode_loop.simps) (simp add: utf8_rune_roundtrip utf8EncodeRune_nonempty)
qed

lemma utf8_roundtrip: "\<forall>r \<in> set rs. scalar r \<Longrightarrow> utf8Decode (utf8Encode rs) = rs"
proof -
  assume *: "\<forall>r \<in> set rs. scalar r"
  have "map of_char (utf8Encode rs) = concat (map utf8EncodeRune rs)"
    unfolding utf8Encode_def map_map comp_def
    by (rule map_idI) (use utf8EncodeRune_bytes in \<open>force\<close>)
  then show ?thesis
    by (simp add: utf8Decode_def utf8_loop_roundtrip [OF *])
qed

lemma utf16_units: "\<forall>u \<in> set (utf16Encode rs). u < 0x10000"
proof -
  have "0xDC00 + m mod 1024 < (0x10000::nat)" for m
  proof -
    have "m mod 1024 < 1024" by simp
    then show ?thesis by linarith
  qed
  then show ?thesis
    by (auto simp: utf16Encode_def utf16EncodeRune_def surrogate_unit split: if_splits)
qed

lemma u16_units:
  "\<forall>u \<in> set us. u < 0x10000 \<Longrightarrow> i < length us \<Longrightarrow>
   unat (le16 (concat (map (\<lambda>u. put16 (word_of_nat u)) us)) (2 * i)) = us ! i"
proof (induction us arbitrary: i)
  case Nil
  then show ?case by simp
next
  case (Cons u us)
  show ?case
  proof (cases i)
    case 0
    with Cons.prems show ?thesis by (simp add: unat_of_nat)
  next
    case (Suc j)
    then show ?thesis using Cons.IH [of j] Cons.prems by (simp add: le_skip)
  qed
qed

lemma length_u16s: "length (concat (map (\<lambda>u. put16 (f u)) us)) = 2 * length us"
  by (induction us) simp_all

text \<open>What \<open>keys.go\<close> writes as UTF-16LE, \<open>information.go\<close> reads back.\<close>

lemma utf16le_roundtrip:
  assumes "\<forall>r \<in> set rs. scalar r"
  shows "utf16leText (UTF16LEEncode (utf8Encode rs)) = utf8Encode rs"
proof -
  let ?us = "utf16Encode rs"
  have "map (\<lambda>i. unat (le16 (UTF16LEEncode (utf8Encode rs)) (2 * i))) [0..<length ?us] = ?us"
    using u16_units [OF utf16_units, of _ rs]
    by (intro nth_equalityI) (simp_all add: UTF16LEEncode_def utf8_roundtrip [OF assms])
  moreover have "length (UTF16LEEncode (utf8Encode rs)) div 2 = length ?us"
    by (simp add: UTF16LEEncode_def utf8_roundtrip [OF assms] length_u16s)
  ultimately show ?thesis
    by (simp add: utf16leText_def Let_def utf16_roundtrip [OF assms])
qed

end
