(* ===== verification/Keys.thy ===== *)
theory Keys
  imports Sha256 Unicode
begin

section \<open>Keys from passwords (\<open>keys.go\<close>)\<close>

text \<open>
  Key stretching, the user key of a passphrase and the key of a recovery password, each a
  definition of the source's name. \<open>strings_Split\<close> and \<open>strconv_Atoi\<close> are the standard
  library's functions as the package uses them. \<open>encodeRecovery\<close> is the specification of the
  recovery password format: eight groups of six digits, each the eleven-fold of a 16-bit
  value, and \<open>stretchChain\<close> the hash chain the stretching computes.
\<close>

subsection \<open>\<open>strings.Split\<close> and \<open>strconv.Atoi\<close>\<close>

fun strings_Split :: "string \<Rightarrow> char \<Rightarrow> string list" where
  "strings_Split [] sep = [[]]"
| "strings_Split (c # cs) sep =
     (if c = sep then [] # strings_Split cs sep
      else case strings_Split cs sep of
             b # bs \<Rightarrow> (c # b) # bs
           | [] \<Rightarrow> [[c]])"

definition isDigit :: "char \<Rightarrow> bool" where
  "isDigit c \<longleftrightarrow> 48 \<le> (of_char c :: nat) \<and> (of_char c :: nat) \<le> 57"

definition digitVal :: "char \<Rightarrow> nat" where
  "digitVal c = of_char c - 48"

definition decimal :: "string \<Rightarrow> nat" where
  "decimal ds = foldl (\<lambda>a c. 10 * a + digitVal c) 0 ds"

definition strconv_Atoi :: "string \<Rightarrow> int result" where
  "strconv_Atoi s =
     (let neg = (case s of c # _ \<Rightarrow> c = CHR ''-'' | [] \<Rightarrow> False);
          ds = (case s of c # cs \<Rightarrow> if c = CHR ''-'' \<or> c = CHR ''+'' then cs else s | [] \<Rightarrow> []);
          v = (if neg then - int (decimal ds) else int (decimal ds))
      in if ds = [] \<or> \<not> list_all isDigit ds then Error (Msg ''strconv.Atoi: invalid syntax'')
         else if v < - (2 ^ 63) \<or> 2 ^ 63 \<le> v then Error (Msg ''strconv.Atoi: value out of range'')
         else Ok v)"

text \<open>\<open>v, _ := strconv.Atoi(s)\<close>: the error is dropped and a syntax error yields 0.\<close>

definition atoiValue :: "string \<Rightarrow> int" where
  "atoiValue s = (case strconv_Atoi s of Ok v \<Rightarrow> v | _ \<Rightarrow> 0)"

subsection \<open>The recovery password\<close>

definition blockChecksum :: "int list \<Rightarrow> int" where
  "blockChecksum digits =
     (let checksum = (digits ! 0 - digits ! 1 + digits ! 2 - digits ! 3 + digits ! 4) smod 11
      in if checksum < 0 then checksum + 11 else checksum)"

definition checkBlock :: "string \<Rightarrow> goerr option" where
  "checkBlock block =
     (case strconv_Atoi block of
        Ok blockValue \<Rightarrow>
          if blockValue smod 11 \<noteq> 0
          then Some (Msg ''invalid recovery password: block is not divisible by 11'')
          else if 720896 \<le> blockValue
          then Some (Msg ''invalid recovery password: block is >= 720896 (2^16 * 11)'')
          else let digits = map (\<lambda>c. atoiValue [c]) block in
            if length digits \<noteq> 6
            then Some (Msg ''invalid recovery password: each block must be 6 digits'')
            else if blockChecksum digits \<noteq> digits ! 5
            then Some (Msg ''invalid recovery password: invalid block checksum'')
            else None
      | _ \<Rightarrow> Some (Msg ''invalid recovery password: contains non-numeric characters''))"

primrec checkBlocks :: "string list \<Rightarrow> goerr option" where
  "checkBlocks [] = None"
| "checkBlocks (b # bs) = (case checkBlock b of Some e \<Rightarrow> Some e | None \<Rightarrow> checkBlocks bs)"

definition CheckRecoveryPassword :: "string \<Rightarrow> goerr option" where
  "CheckRecoveryPassword recoveryPassword =
     (let blocks = strings_Split recoveryPassword (CHR ''-'') in
      if length blocks \<noteq> 8 then Some (Msg ''invalid recovery password: invalid length'')
      else checkBlocks blocks)"

definition recoveryKeyBytes :: "string list \<Rightarrow> bytes" where
  "recoveryKeyBytes blocks =
     fold (\<lambda>(i, block) key.
             writeAt (i * 2) (put16 (word_of_int (atoiValue block sdiv 11))) key)
          (zip [0..<length blocks] blocks) (replicate 16 0)"

definition DeriveRecoveryKey :: "string \<Rightarrow> bytes result" where
  "DeriveRecoveryKey recoveryPassword =
     (case CheckRecoveryPassword recoveryPassword of
        Some e \<Rightarrow> Error e
      | None \<Rightarrow> Ok (sha256_Sum256 (recoveryKeyBytes (strings_Split recoveryPassword (CHR ''-'')))))"

subsection \<open>Passphrases and key stretching\<close>

definition DeriveUserKey :: "string \<Rightarrow> bytes" where
  "DeriveUserKey userPassword = sha256_Sum256 (sha256_Sum256 (UTF16LEEncode userPassword))"

primrec stretchLoop :: "nat \<Rightarrow> nat \<Rightarrow> bytes \<Rightarrow> bytes" where
  "stretchLoop 0 i data = data"
| "stretchLoop (Suc n) i data =
     (let data1 = writeAt 80 (put64 (word_of_nat i)) data;
          h = sha256_Sum256 data1
      in stretchLoop n (Suc i) (writeAt 0 h data1))"

definition Stretch :: "bytes \<Rightarrow> bytes \<Rightarrow> int \<Rightarrow> bytes result" where
  "Stretch password salt rounds =
     (if length password \<noteq> 32 then Error (Msg ''invalid password length'')
      else if length salt \<noteq> 16 then Error (Msg ''invalid salt length'')
      else let rounds' = (if rounds = 0 then 0x100000 else rounds);
               data = writeAt 64 salt (writeAt 32 password (replicate 88 0));
               data' = stretchLoop (nat rounds') 0 data
           in Ok (writeAt 0 (take 32 data') (replicate 32 0)))"

primrec stretchChain :: "bytes \<Rightarrow> bytes \<Rightarrow> nat \<Rightarrow> bytes" where
  "stretchChain password salt 0 = replicate 32 0"
| "stretchChain password salt (Suc n) =
     sha256_Sum256 (stretchChain password salt n @ password @ salt @ put64 (word_of_nat n))"

lemma length_stretchChain [simp, len_simps]: "length (stretchChain password salt n) = 32"
  by (cases n) simp_all

lemma stretchLoop_chain:
  assumes "length password = 32" "length salt = 16" "length ctr = 8"
  shows "take 32 (stretchLoop n i (stretchChain password salt i @ password @ salt @ ctr)) =
    stretchChain password salt (i + n)"
  using assms(3)
proof (induction n arbitrary: i ctr)
  case 0
  then show ?case by simp
next
  case (Suc n)
  let ?h = "stretchChain password salt i" and ?c = "put64 (word_of_nat i)"
  have "writeAt 80 ?c (?h @ password @ salt @ ctr) = ?h @ password @ salt @ ?c"
    using writeAt_append [of "?h @ password @ salt" 80 ctr ?c "[]"] assms Suc.prems by simp
  moreover have "writeAt 0 (sha256_Sum256 (?h @ password @ salt @ ?c)) (?h @ password @ salt @ ?c) =
      stretchChain password salt (Suc i) @ password @ salt @ ?c"
    using writeAt_append [of "[]" 0 ?h "stretchChain password salt (Suc i)" "password @ salt @ ?c"]
    by simp
  ultimately show ?case
    using Suc.IH [of ?c "Suc i"] by (simp del: stretchChain.simps)
qed

lemma Stretch_stretchChain:
  assumes "length password = 32" "length salt = 16"
  shows "Stretch password salt rounds =
    Ok (stretchChain password salt (nat (if rounds = 0 then 0x100000 else rounds)))"
proof -
  have z: "replicate 88 0 = (replicate 32 0 @ replicate 32 0 @ replicate 16 0 @ replicate 8 0 :: bytes)"
    by (simp flip: replicate_add)
  have "writeAt 32 password (replicate 88 0) =
      replicate 32 0 @ password @ replicate 16 0 @ replicate 8 0"
    using writeAt_append [of "replicate 32 0" 32 "replicate 32 0" password] assms(1)
    unfolding z by simp
  moreover have "writeAt 64 salt (replicate 32 0 @ password @ replicate 16 0 @ replicate 8 0) =
      replicate 32 0 @ password @ salt @ replicate 8 0"
    using writeAt_append [of "replicate 32 0 @ password" 64 "replicate 16 0" salt] assms by simp
  ultimately have data: "writeAt 64 salt (writeAt 32 password (replicate 88 0)) =
      stretchChain password salt 0 @ password @ salt @ replicate 8 0"
    by simp
  have copy: "writeAt 0 x (replicate 32 0) = x" if "length x = 32" for x :: bytes
    using that by (simp add: writeAt_def)
  show ?thesis
    using assms unfolding Stretch_def Let_def data
    by (simp only: stretchLoop_chain [OF assms, of "replicate 8 0" _ 0] length_replicate
        copy length_stretchChain add_0 if_False refl not_True_eq_False)
qed

subsection \<open>Decimal digits\<close>

primrec decDigits :: "nat \<Rightarrow> nat \<Rightarrow> string" where
  "decDigits 0 n = []"
| "decDigits (Suc k) n = decDigits k (n div 10) @ [char_of (48 + n mod 10)]"

lemma decDigits_numeral:
  "decDigits (numeral k) n = decDigits (pred_numeral k) (n div 10) @ [char_of (48 + n mod 10)]"
  unfolding numeral_eq_Suc [of k] by simp

lemma length_decDigits [simp]: "length (decDigits k n) = k"
  by (induction k arbitrary: n) simp_all

lemma digit_char:
  assumes "d < 10"
  shows "isDigit (char_of (48 + d))" "digitVal (char_of (48 + d)) = d"
  using assms by (simp_all add: isDigit_def digitVal_def)

lemma char_digitVal: "isDigit c \<Longrightarrow> char_of (48 + digitVal c) = c"
  by (simp add: isDigit_def digitVal_def)

lemma digitVal_bound: "isDigit c \<Longrightarrow> digitVal c < 10"
  unfolding isDigit_def digitVal_def by linarith

lemma decDigits_isDigit: "list_all isDigit (decDigits k n)"
  by (induction k arbitrary: n) (simp_all add: digit_char)

lemma decimal_snoc [simp]: "decimal (ds @ [c]) = 10 * decimal ds + digitVal c"
  by (simp add: decimal_def)

lemma decimal_decDigits [simp]: "decimal (decDigits k n) = n mod 10 ^ k"
proof (induction k arbitrary: n)
  case 0
  then show ?case by (simp add: decimal_def)
next
  case (Suc k)
  have "n mod (10 * 10 ^ k) = 10 * (n div 10 mod 10 ^ k) + n mod 10"
    by (rule mod_mult2_eq)
  with Suc show ?case by (simp add: digit_char)
qed

lemma decDigits_decimal: "list_all isDigit b \<Longrightarrow> decDigits (length b) (decimal b) = b"
proof (induction b rule: rev_induct)
  case Nil
  then show ?case by simp
next
  case (snoc c b)
  then have c: "digitVal c < 10" by (simp add: digitVal_bound)
  then have "(10 * decimal b + digitVal c) div 10 = decimal b"
    "(10 * decimal b + digitVal c) mod 10 = digitVal c"
    by simp_all
  with snoc show ?case by (simp add: char_digitVal)
qed

lemma decimal_bound: "list_all isDigit b \<Longrightarrow> decimal b < 10 ^ length b"
  by (metis decDigits_decimal decimal_decDigits mod_less_divisor zero_less_numeral zero_less_power)

lemma digit_not_sign: "isDigit c \<Longrightarrow> c \<noteq> CHR ''-'' \<and> c \<noteq> CHR ''+''"
  by (auto simp: isDigit_def)

lemma Atoi_digits:
  assumes "list_all isDigit b" "b \<noteq> []" "length b \<le> 18"
  shows "strconv_Atoi b = Ok (int (decimal b))"
proof -
  have "decimal b < 10 ^ 18"
    using decimal_bound [OF assms(1)] power_increasing [OF assms(3), of "10::nat"] by simp
  then have "int (decimal b) < 2 ^ 63" by simp
  moreover obtain c cs where "b = c # cs" using assms(2) by (cases b) auto
  ultimately show ?thesis
    using assms(1) digit_not_sign [of c] by (simp add: strconv_Atoi_def Let_def)
qed

lemma atoiValue_digit: "isDigit c \<Longrightarrow> atoiValue [c] = int (digitVal c)"
  by (simp add: atoiValue_def Atoi_digits) (simp add: decimal_def)

subsection \<open>The checksum digit\<close>

lemma smod_adjust:
  "(let c = S smod 11 in if c < 0 then c + 11 else c) = S mod (11::int)"
proof (cases "0 \<le> S")
  case True
  then have "S smod 11 = S mod 11" by (simp add: smod_nonneg)
  then show ?thesis by (simp add: Let_def)
next
  case False
  then have "S smod 11 = - ((- S) mod 11)"
    by (simp add: signed_modulo_int_def signed_divide_int_def sgn_if minus_div_mult_eq_mod [symmetric])
  moreover have "(- S) mod 11 = (if S mod 11 = 0 then 0 else 11 - S mod 11)"
    by (rule zmod_zminus1_eq_if)
  ultimately show ?thesis
    by (simp add: Let_def)
qed

text \<open>
  Ten is -1 modulo 11, so the alternating sum of the first five digits determines the last
  one of a multiple of 11: the checksum test repeats the divisibility test.
\<close>

lemma checksum_digit:
  fixes b :: string
  assumes "list_all isDigit b" "length b = 6" "decimal b mod 11 = 0"
  shows "blockChecksum (map (\<lambda>c. int (digitVal c)) b) = int (digitVal (b ! 5))"
proof -
  obtain c0 c1 c2 c3 c4 c5 where b: "b = [c0, c1, c2, c3, c4, c5]"
    using assms(2) by (auto simp: numeral_eq_Suc length_Suc_conv)
  define d where "d = (\<lambda>c. int (digitVal c))"
  have d5: "0 \<le> d c5" "d c5 < 10"
    using digitVal_bound [of c5] assms(1) by (simp_all add: b d_def)
  define S where "S = d c0 - d c1 + d c2 - d c3 + d c4"
  have "int (decimal b) = 11 * (9091 * d c0 + 909 * d c1 + 91 * d c2 + 9 * d c3 + d c4) + (d c5 - S)"
    by (simp add: b decimal_def d_def S_def)
  moreover have "11 dvd int (decimal b)"
    using assms(3) by presburger
  ultimately have "11 dvd d c5 - S"
    by (metis dvd_add_right_iff dvd_triv_left)
  then have "d c5 mod 11 = S mod 11"
    by (simp only: mod_eq_dvd_iff)
  then have "S mod 11 = d c5" using d5 by simp
  moreover have "blockChecksum (map (\<lambda>c. int (digitVal c)) b) = S mod 11"
    unfolding blockChecksum_def by (simp only: smod_adjust) (simp add: b d_def S_def)
  ultimately show ?thesis by (simp add: b d_def)
qed

subsection \<open>The format\<close>

definition encodeBlock :: "nat \<Rightarrow> string" where
  "encodeBlock v = decDigits 6 (11 * v)"

fun joinDash :: "string list \<Rightarrow> string" where
  "joinDash [] = []"
| "joinDash [b] = b"
| "joinDash (b # bs) = b @ CHR ''-'' # joinDash bs"

definition encodeRecovery :: "nat list \<Rightarrow> string" where
  "encodeRecovery vs = joinDash (map encodeBlock vs)"

lemma Split_no_sep: "sep \<notin> set b \<Longrightarrow> strings_Split b sep = [b]"
  by (induction b) auto

lemma Split_append: "sep \<notin> set b \<Longrightarrow> strings_Split (b @ sep # s) sep = b # strings_Split s sep"
  by (induction b) auto

lemma Split_joinDash:
  "bs \<noteq> [] \<Longrightarrow> \<forall>b \<in> set bs. CHR ''-'' \<notin> set b \<Longrightarrow> strings_Split (joinDash bs) (CHR ''-'') = bs"
  by (induction bs rule: joinDash.induct) (simp_all add: Split_no_sep Split_append)

lemma Split_nonempty: "strings_Split s sep \<noteq> []"
  by (induction s) (auto split: list.splits)

lemma joinDash_Split: "joinDash (strings_Split s (CHR ''-'')) = s"
proof (induction s)
  case Nil
  then show ?case by simp
next
  case (Cons c s)
  obtain b bs where "strings_Split s (CHR ''-'') = b # bs"
    using Split_nonempty [of s] by (cases "strings_Split s (CHR ''-'')") auto
  with Cons show ?case by (cases bs) auto
qed

lemma Split_blocks: "b \<in> set (strings_Split s sep) \<Longrightarrow> sep \<notin> set b \<and> set b \<subseteq> set s"
proof (induction s arbitrary: b)
  case Nil
  then show ?case by simp
next
  case (Cons c s)
  obtain d ds where ds: "strings_Split s sep = d # ds"
    using Split_nonempty [of s] by (cases "strings_Split s sep") auto
  have IH: "x \<in> set (d # ds) \<Longrightarrow> sep \<notin> set x \<and> set x \<subseteq> set s" for x
    using Cons.IH [of x] ds by metis
  from Cons.prems ds have "b = [] \<or> b \<in> set (d # ds) \<or> c \<noteq> sep \<and> b = c # d"
    by (auto split: if_splits)
  then show ?case using IH [of b] IH [of d] by auto
qed

lemma encodeBlock_digits: "list_all isDigit (encodeBlock v)" "length (encodeBlock v) = 6"
  by (simp_all add: encodeBlock_def decDigits_isDigit)

lemma decimal_encodeBlock: "v < 65536 \<Longrightarrow> decimal (encodeBlock v) = 11 * v"
  by (simp add: encodeBlock_def)

lemma digits_no_dash: "list_all isDigit b \<Longrightarrow> CHR ''-'' \<notin> set b"
  by (auto simp: list_all_iff dest: digit_not_sign)

lemma map_atoiValue: "list_all isDigit b \<Longrightarrow> map (\<lambda>c. atoiValue [c]) b = map (\<lambda>c. int (digitVal c)) b"
  by (auto simp: list_all_iff atoiValue_digit)

lemma checkBlock_digits:
  assumes "list_all isDigit b" "length b = 6"
  shows "checkBlock b = None \<longleftrightarrow> decimal b mod 11 = 0 \<and> decimal b < 720896"
proof -
  have at: "strconv_Atoi b = Ok (int (decimal b))"
    using assms by (intro Atoi_digits) auto
  have sm: "int (decimal b) smod 11 = int (decimal b mod 11)"
    by (simp add: smod_nonneg zmod_int)
  have ck: "decimal b mod 11 = 0 \<Longrightarrow>
      blockChecksum (map (\<lambda>c. atoiValue [c]) b) = map (\<lambda>c. atoiValue [c]) b ! 5"
    using checksum_digit [OF assms] assms by (simp add: map_atoiValue)
  show ?thesis
    unfolding checkBlock_def at result.case Let_def sm
    using ck assms by auto
qed

text \<open>The texts the check accepts for a value: its six digits, or a plus sign in the place of a leading 0.\<close>

definition groupOf :: "string \<Rightarrow> nat \<Rightarrow> bool" where
  "groupOf b v \<longleftrightarrow> b = encodeBlock v \<or> (hd (encodeBlock v) = CHR ''0'' \<and> b = CHR ''+'' # tl (encodeBlock v))"

lemma groupOf_chars: "groupOf b v \<Longrightarrow> CHR ''-'' \<notin> set b" "groupOf b v \<Longrightarrow> CHR ''+'' \<notin> set b \<Longrightarrow> b = encodeBlock v"
proof -
  have "CHR ''-'' \<notin> set (encodeBlock v)" by (rule digits_no_dash [OF encodeBlock_digits(1)])
  moreover have "set (tl (encodeBlock v)) \<subseteq> set (encodeBlock v)" by (cases "encodeBlock v") auto
  ultimately show "groupOf b v \<Longrightarrow> CHR ''-'' \<notin> set b" by (auto simp: groupOf_def)
  show "groupOf b v \<Longrightarrow> CHR ''+'' \<notin> set b \<Longrightarrow> b = encodeBlock v" by (auto simp: groupOf_def)
qed

lemma sign_chars: "\<not> isDigit (CHR ''+'')" "\<not> isDigit (CHR ''-'')" "isDigit (CHR ''0'')" "digitVal (CHR ''0'') = 0"
  by (simp_all add: isDigit_def digitVal_def)

lemma checkBlock_plus:
  assumes "list_all isDigit ds" "ds \<noteq> []"
  shows "checkBlock (CHR ''+'' # ds) = checkBlock (CHR ''0'' # ds)"
proof -
  have "decimal (CHR ''0'' # ds) = decimal ds" by (simp add: decimal_def sign_chars)
  then have "strconv_Atoi (CHR ''+'' # ds) = strconv_Atoi (CHR ''0'' # ds)"
    using assms sign_chars by (simp add: strconv_Atoi_def Let_def)
  moreover have "atoiValue ''+'' = atoiValue ''0''"
    by (simp add: atoiValue_def strconv_Atoi_def isDigit_def decimal_def digitVal_def)
  then have "map (\<lambda>c. atoiValue [c]) (CHR ''+'' # ds) = map (\<lambda>c. atoiValue [c]) (CHR ''0'' # ds)" by simp
  ultimately show ?thesis unfolding checkBlock_def by (simp only:)
qed

lemma checkBlock_iff_digits:
  assumes "list_all isDigit b"
  shows "checkBlock b = None \<longleftrightarrow> (\<exists>v < 65536. b = encodeBlock v)"
proof
  assume "\<exists>v < 65536. b = encodeBlock v"
  then obtain v where "v < 65536" "b = encodeBlock v" by blast
  then show "checkBlock b = None"
    using checkBlock_digits [OF encodeBlock_digits, of v] by (simp add: decimal_encodeBlock)
next
  assume ok: "checkBlock b = None"
  then have len: "length b = 6"
    by (auto simp: checkBlock_def Let_def split: result.splits if_splits)
  with ok assms have v: "decimal b mod 11 = 0" "decimal b < 720896"
    by (simp_all add: checkBlock_digits)
  then have "decimal b = 11 * (decimal b div 11)" by auto
  moreover have "b = decDigits 6 (decimal b)"
    using decDigits_decimal [OF assms] len by simp
  ultimately have "b = encodeBlock (decimal b div 11)"
    by (simp add: encodeBlock_def)
  with v show "\<exists>v < 65536. b = encodeBlock v"
    by (intro exI [of _ "decimal b div 11"]) simp
qed

lemma encodeBlock_Cons: "\<exists>c cs. encodeBlock v = c # cs \<and> isDigit c \<and> list_all isDigit cs"
  using encodeBlock_digits [of v] by (cases "encodeBlock v") auto

lemma checkBlock_iff:
  assumes "CHR ''-'' \<notin> set b"
  shows "checkBlock b = None \<longleftrightarrow> (\<exists>v < 65536. groupOf b v)"
proof (cases "\<exists>ds. b = CHR ''+'' # ds")
  case True
  then obtain ds where b: "b = CHR ''+'' # ds" by blast
  show ?thesis
  proof (cases "list_all isDigit ds \<and> ds \<noteq> []")
    case True
    then have "checkBlock b = checkBlock (CHR ''0'' # ds)" using checkBlock_plus b by simp
    then have "checkBlock b = None \<longleftrightarrow> (\<exists>v < 65536. CHR ''0'' # ds = encodeBlock v)"
      using checkBlock_iff_digits [of "CHR ''0'' # ds"] True sign_chars by simp
    also have "\<dots> \<longleftrightarrow> (\<exists>v < 65536. groupOf b v)"
    proof -
      have "CHR ''0'' # ds = encodeBlock v \<longleftrightarrow> groupOf b v" for v
        using encodeBlock_Cons [of v] sign_chars by (auto simp: groupOf_def b)
      then show ?thesis by simp
    qed
    finally show ?thesis .
  next
    case False
    then have "checkBlock b \<noteq> None" by (auto simp: b checkBlock_def strconv_Atoi_def Let_def)
    moreover have "\<not> groupOf b v" for v
      using encodeBlock_Cons [of v] encodeBlock_digits(2) [of v] sign_chars False by (auto simp: groupOf_def b)
    ultimately show ?thesis by simp
  qed
next
  case False
  show ?thesis
  proof (cases "list_all isDigit b")
    case True
    have "groupOf b v \<longleftrightarrow> b = encodeBlock v" for v using False by (auto simp: groupOf_def)
    with checkBlock_iff_digits [OF True] show ?thesis by simp
  next
    case no: False
    have "strconv_Atoi b \<noteq> Ok x" for x
      using no assms False by (cases b) (auto simp: strconv_Atoi_def Let_def)
    then have "checkBlock b \<noteq> None" by (auto simp: checkBlock_def split: result.splits)
    moreover have "\<not> groupOf b v" for v
      using no False encodeBlock_digits(1) [of v] by (auto simp: groupOf_def)
    ultimately show ?thesis by simp
  qed
qed

lemma checkBlocks_iff: "checkBlocks bs = None \<longleftrightarrow> (\<forall>b \<in> set bs. checkBlock b = None)"
  by (induction bs) (auto split: option.splits)

lemma CheckRecovery_groups:
  "CheckRecoveryPassword s = None \<longleftrightarrow>
    (\<exists>bs vs. s = joinDash bs \<and> length vs = 8 \<and> (\<forall>v \<in> set vs. v < 65536) \<and> list_all2 groupOf bs vs)"
proof
  let ?bs = "strings_Split s (CHR ''-'')"
  assume "CheckRecoveryPassword s = None"
  then have len: "length ?bs = 8" and ok: "\<forall>b \<in> set ?bs. checkBlock b = None"
    by (auto simp: CheckRecoveryPassword_def Let_def checkBlocks_iff split: if_splits)
  have "\<exists>v. v < 65536 \<and> groupOf b v" if "b \<in> set ?bs" for b
    using ok that checkBlock_iff [of b] Split_blocks [OF that] by metis
  then obtain f where f: "\<forall>b \<in> set ?bs. f b < 65536 \<and> groupOf b (f b)"
    by metis
  then have "list_all2 groupOf ?bs (map f ?bs)" by (simp add: list_all2_conv_all_nth)
  with f len joinDash_Split [of s]
  show "\<exists>bs vs. s = joinDash bs \<and> length vs = 8 \<and> (\<forall>v \<in> set vs. v < 65536) \<and> list_all2 groupOf bs vs"
    by (intro exI [of _ ?bs] exI [of _ "map f ?bs"]) simp
next
  assume "\<exists>bs vs. s = joinDash bs \<and> length vs = 8 \<and> (\<forall>v \<in> set vs. v < 65536) \<and> list_all2 groupOf bs vs"
  then obtain bs vs where s: "s = joinDash bs" "length vs = 8" "\<forall>v \<in> set vs. v < 65536" "list_all2 groupOf bs vs"
    by blast
  have len: "length bs = 8" using list_all2_lengthD [OF s(4)] s(2) by simp
  have g: "\<exists>v < 65536. groupOf b v" if "b \<in> set bs" for b
    using that s(3,4) by (fastforce simp: in_set_conv_nth list_all2_conv_all_nth)
  then have "\<forall>b \<in> set bs. CHR ''-'' \<notin> set b" using groupOf_chars(1) by blast
  then have "strings_Split s (CHR ''-'') = bs" unfolding s(1) using len by (intro Split_joinDash) auto
  moreover have "checkBlock b = None" if "b \<in> set bs" for b
    using g [OF that] checkBlock_iff [of b] groupOf_chars(1) by blast
  ultimately show "CheckRecoveryPassword s = None"
    using len by (simp add: CheckRecoveryPassword_def checkBlocks_iff)
qed

lemma joinDash_chars: "b \<in> set bs \<Longrightarrow> set b \<subseteq> set (joinDash bs)"
  by (induction bs rule: joinDash.induct) auto

lemma CheckRecovery_iff:
  assumes "CHR ''+'' \<notin> set s"
  shows "CheckRecoveryPassword s = None \<longleftrightarrow>
    (\<exists>vs. length vs = 8 \<and> (\<forall>v \<in> set vs. v < 65536) \<and> s = encodeRecovery vs)"
proof
  assume "CheckRecoveryPassword s = None"
  then obtain bs vs where s: "s = joinDash bs" "length vs = 8" "\<forall>v \<in> set vs. v < 65536" "list_all2 groupOf bs vs"
    unfolding CheckRecovery_groups by blast
  have "bs = map encodeBlock vs"
  proof (rule nth_equalityI)
    show "length bs = length (map encodeBlock vs)" using list_all2_lengthD [OF s(4)] by simp
    fix j assume j: "j < length bs"
    then have "groupOf (bs ! j) (vs ! j)" "CHR ''+'' \<notin> set (bs ! j)"
      using s(4) joinDash_chars [of "bs ! j" bs] assms by (auto simp: s(1) list_all2_conv_all_nth)
    with j s(4) show "bs ! j = map encodeBlock vs ! j"
      using groupOf_chars(2) by (simp add: list_all2_lengthD)
  qed
  with s show "\<exists>vs. length vs = 8 \<and> (\<forall>v \<in> set vs. v < 65536) \<and> s = encodeRecovery vs"
    by (auto simp: encodeRecovery_def)
next
  assume "\<exists>vs. length vs = 8 \<and> (\<forall>v \<in> set vs. v < 65536) \<and> s = encodeRecovery vs"
  then show "CheckRecoveryPassword s = None"
    unfolding CheckRecovery_groups encodeRecovery_def
    by (force simp: list_all2_conv_all_nth groupOf_def)
qed

subsection \<open>The key bytes\<close>

lemma put_block:
  "v < 65536 \<Longrightarrow> put16 (word_of_int (atoiValue (encodeBlock v) sdiv 11)) = put16 (word_of_nat v)"
proof -
  assume v: "v < 65536"
  have "strconv_Atoi (encodeBlock v) = Ok (int (11 * v))"
  proof -
    have "encodeBlock v \<noteq> []" using encodeBlock_digits(2) [of v] by auto
    then show ?thesis
      using Atoi_digits [OF encodeBlock_digits(1), of v] encodeBlock_digits(2) [of v] v
      by (simp add: decimal_encodeBlock)
  qed
  then have "atoiValue (encodeBlock v) sdiv 11 = int v"
    by (simp add: atoiValue_def sdiv_nonneg)
  then show ?thesis by simp
qed

lemma fold_writeAt_blocks:
  assumes "length pre = 2 * i" "length rest = 2 * length bs" "\<forall>b \<in> set bs. length (f b) = 2"
  shows "fold (\<lambda>(i, b) key. writeAt (i * 2) (f b) key) (zip [i..<i + length bs] bs) (pre @ rest) =
    pre @ concat (map f bs)"
  using assms
proof (induction bs arbitrary: i pre rest)
  case Nil
  then show ?case by simp
next
  case (Cons b bs)
  have upt: "[i..<i + length (b # bs)] = i # [Suc i..<Suc i + length bs]"
    using upt_conv_Cons [of i "i + length (b # bs)"] by simp
  have "writeAt (i * 2) (f b) (pre @ rest) = (pre @ f b) @ drop 2 rest"
    using writeAt_append [of pre "i * 2" "take 2 rest" "f b" "drop 2 rest"] Cons.prems by simp
  with Cons.IH [of "pre @ f b" "Suc i" "drop 2 rest"] Cons.prems show ?case
    unfolding upt by simp
qed

lemma recoveryKeyBytes_encode:
  assumes "length vs = 8" "\<forall>v \<in> set vs. v < 65536"
  shows "recoveryKeyBytes (map encodeBlock vs) = concat (map (\<lambda>v. put16 (word_of_nat v)) vs)"
proof -
  have "recoveryKeyBytes (map encodeBlock vs) =
      concat (map (\<lambda>b. put16 (word_of_int (atoiValue b sdiv 11))) (map encodeBlock vs))"
    using fold_writeAt_blocks [of "[]" 0 "replicate 16 0" "map encodeBlock vs"
        "\<lambda>b. put16 (word_of_int (atoiValue b sdiv 11))"] assms(1)
    by (simp add: recoveryKeyBytes_def)
  also have "\<dots> = concat (map (\<lambda>v. put16 (word_of_nat v)) vs)"
    using assms(2) by (auto simp: put_block intro: arg_cong [where f = concat])
  finally show ?thesis .
qed

lemma Split_encodeRecovery:
  "vs \<noteq> [] \<Longrightarrow> strings_Split (encodeRecovery vs) (CHR ''-'') = map encodeBlock vs"
  unfolding encodeRecovery_def
  by (intro Split_joinDash) (auto simp: digits_no_dash [OF encodeBlock_digits(1)])

lemma encodeRecovery_no_plus: "CHR ''+'' \<notin> set (encodeRecovery vs)"
proof -
  have "CHR ''+'' \<notin> set (joinDash bs)" if "\<forall>b \<in> set bs. CHR ''+'' \<notin> set b" for bs
    using that by (induction bs rule: joinDash.induct) auto
  moreover have "CHR ''+'' \<notin> set (encodeBlock v)" for v
    using encodeBlock_digits(1) [of v] by (auto simp: list_all_iff dest: digit_not_sign)
  ultimately show ?thesis by (simp add: encodeRecovery_def)
qed

subsection \<open>Properties\<close>

text \<open>C16: The recovery password check, exactly: a string passes \<open>CheckRecoveryPassword\<close> if and only if it
  is eight dash-separated groups, each the six digits of the eleven-fold of a value below 2^16 or the
  same with a plus sign in the place of a leading zero, which \<open>strconv.Atoi\<close> lets through. Without
  a plus sign the accepted strings are the recovery passwords and no others.\<close>

theorem recovery_check_iff:
  "(CheckRecoveryPassword s = None \<longleftrightarrow>
      (\<exists>bs vs. s = joinDash bs \<and> length vs = 8 \<and> (\<forall>v \<in> set vs. v < 65536) \<and> list_all2 groupOf bs vs)) \<and>
   (CHR ''+'' \<notin> set s \<longrightarrow>
      (CheckRecoveryPassword s = None \<longleftrightarrow>
        (\<exists>vs. length vs = 8 \<and> (\<forall>v \<in> set vs. v < 65536) \<and> s = encodeRecovery vs)))"
  by (intro conjI impI CheckRecovery_groups CheckRecovery_iff)

theorem recovery_check_iff_witness:
  "CheckRecoveryPassword (encodeRecovery [1, 2, 3, 4, 5, 6, 7, 65535]) = None \<and>
   CheckRecoveryPassword (joinDash ((CHR ''+'' # tl (encodeBlock 1)) # map encodeBlock [2, 3, 4, 5, 6, 7, 65535])) = None"
proof
  have "\<exists>vs. length vs = 8 \<and> (\<forall>v \<in> set vs. v < 65536) \<and>
      encodeRecovery [1, 2, 3, 4, 5, 6, 7, 65535] = encodeRecovery vs"
    by (intro exI [of _ "[1, 2, 3, 4, 5, 6, 7, 65535]"]) simp
  then show "CheckRecoveryPassword (encodeRecovery [1, 2, 3, 4, 5, 6, 7, 65535]) = None"
    by (rule recovery_check_iff [THEN conjunct2, rule_format, OF encodeRecovery_no_plus, THEN iffD2])
  let ?bs = "(CHR ''+'' # tl (encodeBlock 1)) # map encodeBlock [2, 3, 4, 5, 6, 7, 65535]"
  have "char_of (48 :: nat) = CHR ''0''" by code_simp
  then have "hd (encodeBlock 1) = CHR ''0''" by (simp add: encodeBlock_def decDigits_numeral)
  then have "list_all2 groupOf ?bs [1, 2, 3, 4, 5, 6, 7, 65535]" by (simp add: groupOf_def)
  then have "\<exists>bs vs. joinDash ?bs = joinDash bs \<and> length vs = 8 \<and> (\<forall>v \<in> set vs. v < 65536) \<and> list_all2 groupOf bs vs"
    by (intro exI [of _ ?bs] exI [of _ "[1, 2, 3, 4, 5, 6, 7, 65535]"] conjI refl) simp_all
  then show "CheckRecoveryPassword (joinDash ?bs) = None" by (rule recovery_check_iff [THEN conjunct1, THEN iffD2])
qed

text \<open>C17: Round trip of the recovery key. The password that encodes eight 16-bit values is accepted,
  and the derived key is SHA-256 of exactly these values in little-endian order: no value is
  truncated, reordered or lost by the division by 11 and the \<open>uint16\<close> conversion.\<close>

theorem recovery_key_roundtrip:
  assumes "length vs = 8" and "\<forall>v \<in> set vs. v < 65536"
  shows "DeriveRecoveryKey (encodeRecovery vs) =
    Ok (sha256_Sum256 (concat (map (\<lambda>v. put16 (word_of_nat v)) vs)))"
proof -
  have "CheckRecoveryPassword (encodeRecovery vs) = None"
    using CheckRecovery_iff [OF encodeRecovery_no_plus, of vs] assms by blast
  moreover have "vs \<noteq> []" using assms(1) by auto
  ultimately show ?thesis
    by (simp add: DeriveRecoveryKey_def Split_encodeRecovery recoveryKeyBytes_encode [OF assms])
qed

theorem recovery_key_roundtrip_witness:
  "length [1, 2, 3, 4, 5, 6, 7, 65535 :: nat] = 8 \<and>
   DeriveRecoveryKey (encodeRecovery [1, 2, 3, 4, 5, 6, 7, 65535]) =
     Ok (sha256_Sum256 (concat (map (\<lambda>v. put16 (word_of_nat v)) [1, 2, 3, 4, 5, 6, 7, 65535])))"
  using recovery_key_roundtrip [of "[1, 2, 3, 4, 5, 6, 7, 65535]"] by simp

text \<open>The checksum test of \<open>CheckRecoveryPassword\<close> repeats the divisibility test. For six
  digits whose value is a multiple of 11, the alternating sum modulo 11 that the code computes,
  with its correction of negative remainders, is the last digit.\<close>

theorem checksum_follows_divisibility:
  assumes "list_all isDigit b" and "length b = 6" and "decimal b mod 11 = 0"
  shows "blockChecksum (map (\<lambda>c. atoiValue [c]) b) = atoiValue [b ! 5]"
proof -
  have "isDigit (b ! 5)" using assms(1,2) by (simp add: list_all_length)
  then show ?thesis
    using checksum_digit [OF assms] by (simp add: map_atoiValue [OF assms(1)] atoiValue_digit)
qed

theorem checksum_follows_divisibility_witness:
  "list_all isDigit ''720885'' \<and> decimal ''720885'' mod 11 = 0 \<and>
   blockChecksum (map (\<lambda>c. atoiValue [c]) ''720885'') = atoiValue [''720885'' ! 5]"
proof -
  have d: "list_all isDigit ''720885''" by (simp add: isDigit_def)
  have m: "decimal ''720885'' mod 11 = 0" by (simp add: decimal_def digitVal_def)
  show ?thesis using d m checksum_follows_divisibility [OF d _ m] by simp
qed

text \<open>C20: Key stretching computes the BitLocker hash chain. For a 32-byte key and a 16-byte salt,
  \<open>Stretch\<close> returns the chain of the requested number of rounds, and of 0x100000 rounds when
  asked for 0: each link is SHA-256 of the previous link, the key, the salt and the 64-bit
  round counter, whatever the buffer holds between the rounds.\<close>

theorem stretch_computes_chain:
  assumes "length password = 32" and "length salt = 16"
  shows "Stretch password salt rounds =
    Ok (stretchChain password salt (nat (if rounds = 0 then 0x100000 else rounds)))"
  by (rule Stretch_stretchChain [OF assms])

theorem stretch_computes_chain_witness:
  "length (replicate 32 (1::byte)) = 32 \<and> length (replicate 16 (2::byte)) = 16 \<and>
   Stretch (replicate 32 1) (replicate 16 2) 3 =
     Ok (stretchChain (replicate 32 1) (replicate 16 2) (nat (if (3::int) = 0 then 0x100000 else 3)))"
  by (intro conjI stretch_computes_chain) simp_all

text \<open>A plus sign passes the recovery password check. \<open>strconv.Atoi\<close> accepts a sign, and the
  digit loop counts the sign as the digit 0, so a group such as \<open>+00011\<close> is accepted although
  it is not numeric, and it yields the key of the group \<open>000011\<close>.\<close>

theorem recovery_check_accepts_sign:
  "CheckRecoveryPassword ''+00011-000022-000033-000044-000055-000066-000077-000088'' = None \<and>
   DeriveRecoveryKey ''+00011-000022-000033-000044-000055-000066-000077-000088'' =
   DeriveRecoveryKey ''000011-000022-000033-000044-000055-000066-000077-000088''"
proof -
  have at: "strconv_Atoi ''+00011'' = Ok 11" "strconv_Atoi ''000011'' = Ok 11"
    "strconv_Atoi ''000022'' = Ok 22" "strconv_Atoi ''000033'' = Ok 33" "strconv_Atoi ''000044'' = Ok 44"
    "strconv_Atoi ''000055'' = Ok 55" "strconv_Atoi ''000066'' = Ok 66" "strconv_Atoi ''000077'' = Ok 77"
    "strconv_Atoi ''000088'' = Ok 88"
    by (simp_all add: strconv_Atoi_def isDigit_def decimal_def digitVal_def)
  have dig: "atoiValue ''+'' = 0" "atoiValue ''0'' = 0" "atoiValue ''1'' = 1" "atoiValue ''2'' = 2"
    "atoiValue ''3'' = 3" "atoiValue ''4'' = 4" "atoiValue ''5'' = 5" "atoiValue ''6'' = 6"
    "atoiValue ''7'' = 7" "atoiValue ''8'' = 8"
    by (simp_all add: atoiValue_def strconv_Atoi_def isDigit_def decimal_def digitVal_def)
  show ?thesis
    by (simp add: DeriveRecoveryKey_def CheckRecoveryPassword_def checkBlock_def at dig Let_def
        blockChecksum_def recoveryKeyBytes_def atoiValue_def [of "_ # _ # _"]
        smod_nonneg sdiv_nonneg)
qed

end
