(* ===== verification/Aes.thy ===== *)
theory Aes
  imports Prelude
begin

section \<open>The block cipher: \<open>crypto/aes\<close> (FIPS 197)\<close>

text \<open>
  The package gets its block cipher from the standard library: \<open>aes.NewCipher\<close> and the
  \<open>Encrypt\<close> and \<open>Decrypt\<close> of \<open>cipher.Block\<close> (the interface \<open>cipherBlock\<close> of \<open>xts.go\<close>). This
  theory is that algorithm: a state of 16 bytes in column order, the substitution tables,
  the row shift, the column mix over GF(2^8), the key schedule for 16, 24 and 32 byte keys,
  and the two directions. \<open>block_cipher\<close> states what the modes of the package (XTS, CBC,
  CCM) rely on; \<open>aes\<close> interprets it on this model, so that decryption inverting
  encryption is proved and not assumed.
\<close>

subsection \<open>The interface \<open>cipherBlock\<close>\<close>

locale block_cipher =
  fixes wf :: "'c \<Rightarrow> bool"
    and Encrypt :: "'c \<Rightarrow> bytes \<Rightarrow> bytes"
    and Decrypt :: "'c \<Rightarrow> bytes \<Rightarrow> bytes"
  assumes length_Encrypt: "wf c \<Longrightarrow> length b = 16 \<Longrightarrow> length (Encrypt c b) = 16"
    and length_Decrypt: "wf c \<Longrightarrow> length b = 16 \<Longrightarrow> length (Decrypt c b) = 16"
    and Decrypt_Encrypt: "wf c \<Longrightarrow> length b = 16 \<Longrightarrow> Decrypt c (Encrypt c b) = b"
    and Encrypt_Decrypt: "wf c \<Longrightarrow> length b = 16 \<Longrightarrow> Encrypt c (Decrypt c b) = b"
begin

lemma Encrypt_inj:
  "wf c \<Longrightarrow> length a = 16 \<Longrightarrow> length b = 16 \<Longrightarrow> Encrypt c a = Encrypt c b \<Longrightarrow> a = b"
  by (metis Decrypt_Encrypt)

lemma Decrypt_eq_iff:
  "wf c \<Longrightarrow> length a = 16 \<Longrightarrow> length b = 16 \<Longrightarrow> Decrypt c a = b \<longleftrightarrow> a = Encrypt c b"
  by (metis Decrypt_Encrypt Encrypt_Decrypt)

end

subsection \<open>Substitution\<close>

definition aes_sbox :: bytes where
  "aes_sbox =
    [0x63, 0x7c, 0x77, 0x7b, 0xf2, 0x6b, 0x6f, 0xc5, 0x30, 0x01, 0x67, 0x2b, 0xfe, 0xd7, 0xab, 0x76,
     0xca, 0x82, 0xc9, 0x7d, 0xfa, 0x59, 0x47, 0xf0, 0xad, 0xd4, 0xa2, 0xaf, 0x9c, 0xa4, 0x72, 0xc0,
     0xb7, 0xfd, 0x93, 0x26, 0x36, 0x3f, 0xf7, 0xcc, 0x34, 0xa5, 0xe5, 0xf1, 0x71, 0xd8, 0x31, 0x15,
     0x04, 0xc7, 0x23, 0xc3, 0x18, 0x96, 0x05, 0x9a, 0x07, 0x12, 0x80, 0xe2, 0xeb, 0x27, 0xb2, 0x75,
     0x09, 0x83, 0x2c, 0x1a, 0x1b, 0x6e, 0x5a, 0xa0, 0x52, 0x3b, 0xd6, 0xb3, 0x29, 0xe3, 0x2f, 0x84,
     0x53, 0xd1, 0x00, 0xed, 0x20, 0xfc, 0xb1, 0x5b, 0x6a, 0xcb, 0xbe, 0x39, 0x4a, 0x4c, 0x58, 0xcf,
     0xd0, 0xef, 0xaa, 0xfb, 0x43, 0x4d, 0x33, 0x85, 0x45, 0xf9, 0x02, 0x7f, 0x50, 0x3c, 0x9f, 0xa8,
     0x51, 0xa3, 0x40, 0x8f, 0x92, 0x9d, 0x38, 0xf5, 0xbc, 0xb6, 0xda, 0x21, 0x10, 0xff, 0xf3, 0xd2,
     0xcd, 0x0c, 0x13, 0xec, 0x5f, 0x97, 0x44, 0x17, 0xc4, 0xa7, 0x7e, 0x3d, 0x64, 0x5d, 0x19, 0x73,
     0x60, 0x81, 0x4f, 0xdc, 0x22, 0x2a, 0x90, 0x88, 0x46, 0xee, 0xb8, 0x14, 0xde, 0x5e, 0x0b, 0xdb,
     0xe0, 0x32, 0x3a, 0x0a, 0x49, 0x06, 0x24, 0x5c, 0xc2, 0xd3, 0xac, 0x62, 0x91, 0x95, 0xe4, 0x79,
     0xe7, 0xc8, 0x37, 0x6d, 0x8d, 0xd5, 0x4e, 0xa9, 0x6c, 0x56, 0xf4, 0xea, 0x65, 0x7a, 0xae, 0x08,
     0xba, 0x78, 0x25, 0x2e, 0x1c, 0xa6, 0xb4, 0xc6, 0xe8, 0xdd, 0x74, 0x1f, 0x4b, 0xbd, 0x8b, 0x8a,
     0x70, 0x3e, 0xb5, 0x66, 0x48, 0x03, 0xf6, 0x0e, 0x61, 0x35, 0x57, 0xb9, 0x86, 0xc1, 0x1d, 0x9e,
     0xe1, 0xf8, 0x98, 0x11, 0x69, 0xd9, 0x8e, 0x94, 0x9b, 0x1e, 0x87, 0xe9, 0xce, 0x55, 0x28, 0xdf,
     0x8c, 0xa1, 0x89, 0x0d, 0xbf, 0xe6, 0x42, 0x68, 0x41, 0x99, 0x2d, 0x0f, 0xb0, 0x54, 0xbb, 0x16]"

definition aes_inv_sbox :: bytes where
  "aes_inv_sbox =
    [0x52, 0x09, 0x6a, 0xd5, 0x30, 0x36, 0xa5, 0x38, 0xbf, 0x40, 0xa3, 0x9e, 0x81, 0xf3, 0xd7, 0xfb,
     0x7c, 0xe3, 0x39, 0x82, 0x9b, 0x2f, 0xff, 0x87, 0x34, 0x8e, 0x43, 0x44, 0xc4, 0xde, 0xe9, 0xcb,
     0x54, 0x7b, 0x94, 0x32, 0xa6, 0xc2, 0x23, 0x3d, 0xee, 0x4c, 0x95, 0x0b, 0x42, 0xfa, 0xc3, 0x4e,
     0x08, 0x2e, 0xa1, 0x66, 0x28, 0xd9, 0x24, 0xb2, 0x76, 0x5b, 0xa2, 0x49, 0x6d, 0x8b, 0xd1, 0x25,
     0x72, 0xf8, 0xf6, 0x64, 0x86, 0x68, 0x98, 0x16, 0xd4, 0xa4, 0x5c, 0xcc, 0x5d, 0x65, 0xb6, 0x92,
     0x6c, 0x70, 0x48, 0x50, 0xfd, 0xed, 0xb9, 0xda, 0x5e, 0x15, 0x46, 0x57, 0xa7, 0x8d, 0x9d, 0x84,
     0x90, 0xd8, 0xab, 0x00, 0x8c, 0xbc, 0xd3, 0x0a, 0xf7, 0xe4, 0x58, 0x05, 0xb8, 0xb3, 0x45, 0x06,
     0xd0, 0x2c, 0x1e, 0x8f, 0xca, 0x3f, 0x0f, 0x02, 0xc1, 0xaf, 0xbd, 0x03, 0x01, 0x13, 0x8a, 0x6b,
     0x3a, 0x91, 0x11, 0x41, 0x4f, 0x67, 0xdc, 0xea, 0x97, 0xf2, 0xcf, 0xce, 0xf0, 0xb4, 0xe6, 0x73,
     0x96, 0xac, 0x74, 0x22, 0xe7, 0xad, 0x35, 0x85, 0xe2, 0xf9, 0x37, 0xe8, 0x1c, 0x75, 0xdf, 0x6e,
     0x47, 0xf1, 0x1a, 0x71, 0x1d, 0x29, 0xc5, 0x89, 0x6f, 0xb7, 0x62, 0x0e, 0xaa, 0x18, 0xbe, 0x1b,
     0xfc, 0x56, 0x3e, 0x4b, 0xc6, 0xd2, 0x79, 0x20, 0x9a, 0xdb, 0xc0, 0xfe, 0x78, 0xcd, 0x5a, 0xf4,
     0x1f, 0xdd, 0xa8, 0x33, 0x88, 0x07, 0xc7, 0x31, 0xb1, 0x12, 0x10, 0x59, 0x27, 0x80, 0xec, 0x5f,
     0x60, 0x51, 0x7f, 0xa9, 0x19, 0xb5, 0x4a, 0x0d, 0x2d, 0xe5, 0x7a, 0x9f, 0x93, 0xc9, 0x9c, 0xef,
     0xa0, 0xe0, 0x3b, 0x4d, 0xae, 0x2a, 0xf5, 0xb0, 0xc8, 0xeb, 0xbb, 0x3c, 0x83, 0x53, 0x99, 0x61,
     0x17, 0x2b, 0x04, 0x7e, 0xba, 0x77, 0xd6, 0x26, 0xe1, 0x69, 0x14, 0x63, 0x55, 0x21, 0x0c, 0x7d]"

definition aes_sub :: "byte \<Rightarrow> byte" where
  "aes_sub b = aes_sbox ! unat b"

definition aes_inv_sub :: "byte \<Rightarrow> byte" where
  "aes_inv_sub b = aes_inv_sbox ! unat b"

text \<open>The second table inverts the first: one evaluation over the table. The other direction
  follows, since an injective function on the finite type of bytes is onto.\<close>

lemma aes_tables_inverse: "map aes_inv_sub aes_sbox = map word_of_nat [0..<256]"
  by code_simp

lemma length_aes_sbox: "length aes_sbox = 256"
  by (simp add: aes_sbox_def)

lemma aes_inv_sub_sub [simp, cancel_simps]: "aes_inv_sub (aes_sub b) = b"
proof -
  have b: "unat b < 256"
    using unsigned_less [of b] by simp
  then have "map aes_inv_sub aes_sbox ! unat b = aes_inv_sub (aes_sub b)"
    by (simp add: aes_sub_def length_aes_sbox)
  moreover have "(map word_of_nat [0..<256] :: bytes) ! unat b = b"
    using b by simp
  ultimately show ?thesis by (simp only: aes_tables_inverse)
qed

lemma aes_sub_inv_sub [simp, cancel_simps]: "aes_sub (aes_inv_sub b) = b"
proof -
  have "inj aes_sub"
    by (rule inj_on_inverseI [where g = aes_inv_sub]) simp
  then have "surj aes_sub"
    by (rule finite_UNIV_inj_surj [OF finite])
  then obtain a where "b = aes_sub a" by (rule surjE)
  then show ?thesis by simp
qed

subsection \<open>Row shift\<close>

definition aes_shiftRows :: "bytes \<Rightarrow> bytes" where
  "aes_shiftRows s = map (\<lambda>i. s ! i) [0, 5, 10, 15, 4, 9, 14, 3, 8, 13, 2, 7, 12, 1, 6, 11]"

definition aes_inv_shiftRows :: "bytes \<Rightarrow> bytes" where
  "aes_inv_shiftRows s = map (\<lambda>i. s ! i) [0, 13, 10, 7, 4, 1, 14, 11, 8, 5, 2, 15, 12, 9, 6, 3]"

lemma list16_nth: "length s = 16 \<Longrightarrow>
  s = [s!0, s!1, s!2, s!3, s!4, s!5, s!6, s!7, s!8, s!9, s!10, s!11, s!12, s!13, s!14, s!15]"
  by (rule nth_equalityI) (auto simp: less_Suc_eq numeral_eq_Suc)

lemma aes_shiftRows_inverse [simp, cancel_simps]:
  assumes "length s = 16"
  shows "aes_inv_shiftRows (aes_shiftRows s) = s" "aes_shiftRows (aes_inv_shiftRows s) = s"
  using list16_nth [OF assms] by (simp_all add: aes_shiftRows_def aes_inv_shiftRows_def)

lemma length_aes_shiftRows [simp, len_simps]:
  "length (aes_shiftRows s) = 16" "length (aes_inv_shiftRows s) = 16"
  by (simp_all add: aes_shiftRows_def aes_inv_shiftRows_def)

subsection \<open>Column mix\<close>

definition aes_xtime :: "byte \<Rightarrow> byte" where
  "aes_xtime b = push_bit 1 b XOR (if bit b 7 then 0x1b else 0)"

lemma aes_xtime_xor [simp]: "aes_xtime (a XOR b) = aes_xtime a XOR aes_xtime b"
  by (auto simp: aes_xtime_def push_bit_xor bit_xor_iff xor.assoc xor.left_commute)

fun aes_mixColumns :: "bytes \<Rightarrow> bytes" where
  "aes_mixColumns (a # b # c # d # rest) =
     (let x = aes_xtime in
      [x a XOR (x b XOR b) XOR c XOR d,
       a XOR x b XOR (x c XOR c) XOR d,
       a XOR b XOR x c XOR (x d XOR d),
       (x a XOR a) XOR b XOR c XOR x d] @ aes_mixColumns rest)"
| "aes_mixColumns s = []"

fun aes_inv_mixColumns :: "bytes \<Rightarrow> bytes" where
  "aes_inv_mixColumns (a # b # c # d # rest) =
     (let x = aes_xtime;
          m9 = (\<lambda>v. x (x (x v)) XOR v);
          m11 = (\<lambda>v. x (x (x v)) XOR x v XOR v);
          m13 = (\<lambda>v. x (x (x v)) XOR x (x v) XOR v);
          m14 = (\<lambda>v. x (x (x v)) XOR x (x v) XOR x v) in
      [m14 a XOR m11 b XOR m13 c XOR m9 d,
       m9 a XOR m14 b XOR m11 c XOR m13 d,
       m13 a XOR m9 b XOR m14 c XOR m11 d,
       m11 a XOR m13 b XOR m9 c XOR m14 d] @ aes_inv_mixColumns rest)"
| "aes_inv_mixColumns s = []"

lemma xor_word_cancel_left [simp]: "x XOR (x XOR y) = (y :: 'a::len word)"
  by (simp flip: xor.assoc)

lemma aes_mixColumns_inverse:
  "4 dvd length s \<Longrightarrow> aes_inv_mixColumns (aes_mixColumns s) = s"
proof (induction s rule: aes_mixColumns.induct)
  case (1 a b c d rest)
  have "4 dvd length rest" using 1 by (simp add: dvd_def) presburger
  with 1 show ?case
    by (simp add: Let_def xor.assoc xor.left_commute xor.commute)
qed (auto simp: dvd_def, presburger+)

lemma aes_inv_mixColumns_inverse:
  "4 dvd length s \<Longrightarrow> aes_mixColumns (aes_inv_mixColumns s) = s"
proof (induction s rule: aes_mixColumns.induct)
  case (1 a b c d rest)
  have "4 dvd length rest" using 1 by (simp add: dvd_def) presburger
  with 1 show ?case
    by (simp add: Let_def xor.assoc xor.left_commute xor.commute)
qed (auto simp: dvd_def, presburger+)

lemma length_aes_mixColumns [simp, len_simps]:
  "4 dvd length s \<Longrightarrow> length (aes_mixColumns s) = length s"
proof (induction s rule: aes_mixColumns.induct)
  case (1 a b c d rest)
  have "4 dvd length rest" using 1 by (simp add: dvd_def) presburger
  with 1 show ?case by (simp add: Let_def)
qed (auto simp: dvd_def, presburger+)

lemma length_aes_inv_mixColumns [simp, len_simps]:
  "4 dvd length s \<Longrightarrow> length (aes_inv_mixColumns s) = length s"
proof (induction s rule: aes_mixColumns.induct)
  case (1 a b c d rest)
  have "4 dvd length rest" using 1 by (simp add: dvd_def) presburger
  with 1 show ?case by (simp add: Let_def)
qed (auto simp: dvd_def, presburger+)

subsection \<open>Rounds\<close>

text \<open>
  The rounds after the first key addition, over the remaining round keys: the last round has
  no column mix. The inverse takes the round keys from the last to the first.
\<close>

fun aes_rounds :: "bytes \<Rightarrow> bytes list \<Rightarrow> bytes" where
  "aes_rounds s [] = s"
| "aes_rounds s [k] = xorBytes (aes_shiftRows (map aes_sub s)) k"
| "aes_rounds s (k # ks) =
     aes_rounds (xorBytes (aes_mixColumns (aes_shiftRows (map aes_sub s))) k) ks"

fun aes_inv_rounds :: "bytes \<Rightarrow> bytes list \<Rightarrow> bytes" where
  "aes_inv_rounds s [] = s"
| "aes_inv_rounds s [k] = map aes_inv_sub (aes_inv_shiftRows (xorBytes s k))"
| "aes_inv_rounds s (k # ks) =
     map aes_inv_sub (aes_inv_shiftRows (aes_inv_mixColumns (xorBytes (aes_inv_rounds s ks) k)))"

lemma aes_sub_map_inverse [simp, cancel_simps]:
  "map aes_inv_sub (map aes_sub s) = s" "map aes_sub (map aes_inv_sub s) = s"
  by (simp_all add: comp_def)

lemma length_aes_rounds:
  "length s = 16 \<Longrightarrow> \<forall>k \<in> set ks. length k = 16 \<Longrightarrow> length (aes_rounds s ks) = 16"
  by (induction s ks rule: aes_rounds.induct) simp_all

lemma length_aes_inv_rounds:
  "length s = 16 \<Longrightarrow> \<forall>k \<in> set ks. length k = 16 \<Longrightarrow> length (aes_inv_rounds s ks) = 16"
  by (induction s ks rule: aes_inv_rounds.induct) simp_all

lemma aes_rounds_inverse:
  "length s = 16 \<Longrightarrow> \<forall>k \<in> set ks. length k = 16 \<Longrightarrow> aes_inv_rounds (aes_rounds s ks) ks = s"
  by (induction s ks rule: aes_rounds.induct)
    (simp_all add: aes_mixColumns_inverse del: map_map)

lemma aes_inv_rounds_inverse:
  "length s = 16 \<Longrightarrow> \<forall>k \<in> set ks. length k = 16 \<Longrightarrow> aes_rounds (aes_inv_rounds s ks) ks = s"
  by (induction s ks rule: aes_inv_rounds.induct)
    (simp_all add: length_aes_inv_rounds aes_inv_mixColumns_inverse
      del: map_map)

subsection \<open>Key schedule and cipher\<close>

datatype aesCipher = AesCipher (roundKeys: "bytes list")

definition aes_rcon :: "nat \<Rightarrow> byte" where
  "aes_rcon j = [0x01, 0x02, 0x04, 0x08, 0x10, 0x20, 0x40, 0x80, 0x1b, 0x36] ! (j - 1)"

definition aes_temp :: "nat \<Rightarrow> bytes list \<Rightarrow> bytes" where
  "aes_temp nk ws =
     (let i = length ws; t = last ws in
      if i mod nk = 0 then xorBytes (map aes_sub (tl t @ [hd t])) [aes_rcon (i div nk), 0, 0, 0]
      else if 6 < nk \<and> i mod nk = 4 then map aes_sub t
      else t)"

primrec aes_expand :: "nat \<Rightarrow> nat \<Rightarrow> bytes list \<Rightarrow> bytes list" where
  "aes_expand 0 nk ws = ws"
| "aes_expand (Suc k) nk ws =
     aes_expand k nk (ws @ [xorBytes (ws ! (length ws - nk)) (aes_temp nk ws)])"

fun chunks4 :: "bytes list \<Rightarrow> bytes list" where
  "chunks4 (a # b # c # d # rest) = (a @ b @ c @ d) # chunks4 rest"
| "chunks4 ws = []"

definition aes_NewCipher :: "bytes \<Rightarrow> aesCipher result" where
  "aes_NewCipher key =
     (if length key \<in> {16, 24, 32} then
        (let nk = length key div 4;
             ws = map (\<lambda>i. slice key (4 * i) 4) [0..<nk]
         in Ok (AesCipher (chunks4 (aes_expand (4 * (nk + 7) - nk) nk ws))))
      else Error (KeySizeError (int (length key))))"

definition aes_Encrypt :: "aesCipher \<Rightarrow> bytes \<Rightarrow> bytes" where
  "aes_Encrypt c b = (case roundKeys c of [] \<Rightarrow> b | k # ks \<Rightarrow> aes_rounds (xorBytes b k) ks)"

definition aes_Decrypt :: "aesCipher \<Rightarrow> bytes \<Rightarrow> bytes" where
  "aes_Decrypt c b = (case roundKeys c of [] \<Rightarrow> b | k # ks \<Rightarrow> xorBytes (aes_inv_rounds b ks) k)"

definition aes_wf :: "aesCipher \<Rightarrow> bool" where
  "aes_wf c \<longleftrightarrow> (\<forall>k \<in> set (roundKeys c). length k = 16)"

interpretation aes: block_cipher aes_wf aes_Encrypt aes_Decrypt
proof unfold_locales
  fix c :: aesCipher and b :: bytes
  assume wf: "aes_wf c" and len: "length b = 16"
  show "length (aes_Encrypt c b) = 16"
    using wf len by (auto simp: aes_wf_def aes_Encrypt_def length_aes_rounds split: list.splits)
  show "length (aes_Decrypt c b) = 16"
    using wf len by (auto simp: aes_wf_def aes_Decrypt_def length_aes_inv_rounds split: list.splits)
  show "aes_Decrypt c (aes_Encrypt c b) = b"
    using wf len
    by (auto simp: aes_wf_def aes_Encrypt_def aes_Decrypt_def aes_rounds_inverse split: list.splits)
  show "aes_Encrypt c (aes_Decrypt c b) = b"
    using wf len
    by (auto simp: aes_wf_def aes_Encrypt_def aes_Decrypt_def aes_inv_rounds_inverse
        length_aes_inv_rounds split: list.splits)
qed

lemma length_aes_temp: "length (last ws) = 4 \<Longrightarrow> length (aes_temp nk ws) = 4"
  by (cases "last ws") (simp_all add: aes_temp_def Let_def)

lemma aes_expand_words:
  assumes "\<forall>w \<in> set ws. length w = 4" "0 < nk" "nk \<le> length ws"
  shows "\<forall>w \<in> set (aes_expand k nk ws). length w = 4"
  using assms
proof (induction k arbitrary: ws)
  case 0
  then show ?case by simp
next
  case (Suc k)
  let ?w = "xorBytes (ws ! (length ws - nk)) (aes_temp nk ws)"
  from Suc.prems have "ws \<noteq> []" by auto
  then have "length (last ws) = 4" using Suc.prems(1) by simp
  moreover have "length (ws ! (length ws - nk)) = 4"
    using Suc.prems \<open>ws \<noteq> []\<close> by (intro bspec [OF Suc.prems(1)] nth_mem) auto
  ultimately have "length ?w = 4" by (simp add: length_aes_temp)
  with Suc.prems have "\<forall>w \<in> set (aes_expand k nk (ws @ [?w])). length w = 4"
    by (intro Suc.IH) auto
  then show ?case by simp
qed

lemma chunks4_lengths:
  "\<forall>w \<in> set ws. length w = 4 \<Longrightarrow> \<forall>k \<in> set (chunks4 ws). length k = 16"
  by (induction ws rule: chunks4.induct) auto

lemma aes_NewCipher_wf: "aes_NewCipher key = Ok c \<Longrightarrow> aes_wf c"
proof -
  assume "aes_NewCipher key = Ok c"
  then obtain nk where key: "length key = 4 * nk" "4 \<le> nk"
    and c: "c = AesCipher (chunks4 (aes_expand (4 * (nk + 7) - nk) nk
      (map (\<lambda>i. slice key (4 * i) 4) [0..<nk])))"
    by (auto simp: aes_NewCipher_def Let_def split: if_splits)
  have "\<forall>w \<in> set (map (\<lambda>i. slice key (4 * i) 4) [0..<nk]). length w = 4"
    using key by (auto simp: length_slice)
  then have "\<forall>w \<in> set (aes_expand (4 * (nk + 7) - nk) nk
      (map (\<lambda>i. slice key (4 * i) 4) [0..<nk])). length w = 4"
    using key by (intro aes_expand_words) auto
  then show ?thesis
    by (simp add: aes_wf_def c chunks4_lengths)
qed

lemma aes_NewCipher_cases:
  "aes_NewCipher key = Error (KeySizeError (int (length key))) \<or>
   (\<exists>c. aes_NewCipher key = Ok c \<and> aes_wf c \<and> length key \<in> {16, 24, 32})"
  using aes_NewCipher_wf [of key] by (auto simp: aes_NewCipher_def Let_def)

lemma aes_NewCipher_Ok:
  "length key = 16 \<or> length key = 24 \<or> length key = 32 \<Longrightarrow> \<exists>c. aes_NewCipher key = Ok c \<and> aes_wf c"
  using aes_NewCipher_cases [of key] by (auto simp: aes_NewCipher_def Let_def)

end
