(* ===== verification/SectorCipher.thy ===== *)
theory SectorCipher
  imports Aes
begin

section \<open>The interface \<open>sectorCipher\<close> (\<open>bde.go\<close>)\<close>

text \<open>
  The volume stream decrypts whole sectors through the interface
  \<open>decryptSector(dst, src []byte, sectorNum uint64)\<close>, implemented by \<open>xts.go\<close> and \<open>cbc.go\<close>.
  The stream calls it with \<open>dst\<close> and \<open>src\<close> the same buffer, the tests with two buffers, so
  the model keeps the aliasing explicit: \<open>SameBuf\<close> says that \<open>src\<close> is \<open>dst\<close>, and then every
  write to \<open>dst\<close> is seen by the reads from \<open>src\<close> that follow it.

  The locale \<open>sector_cipher\<close> is the contract: on a sector of an admissible length the call
  returns (no panic), aliased or not it computes the same function \<open>decode\<close>, and \<open>decode\<close>
  inverts the mode's encryption \<open>encode\<close> (which the package does not contain: it only reads).
\<close>

datatype srcBuf = SameBuf | OtherBuf bytes

definition srcBytes :: "bytes \<Rightarrow> srcBuf \<Rightarrow> bytes" where
  "srcBytes dst src = (case src of SameBuf \<Rightarrow> dst | OtherBuf s \<Rightarrow> s)"

lemma srcBytes_simps [simp]: "srcBytes dst SameBuf = dst" "srcBytes dst (OtherBuf s) = s"
  by (simp_all add: srcBytes_def)

text \<open>Two ways to hand over the bytes \<open>s\<close>: in place, or from a buffer of their own.\<close>

definition handsOver :: "bytes \<Rightarrow> bytes \<Rightarrow> srcBuf \<Rightarrow> bool" where
  "handsOver s dst src \<longleftrightarrow> length dst = length s \<and> (src = SameBuf \<and> dst = s \<or> src = OtherBuf s)"

lemma handsOver_same [intro, simp]: "handsOver s s SameBuf"
  by (simp add: handsOver_def)

lemma handsOver_other [intro]: "length dst = length s \<Longrightarrow> handsOver s dst (OtherBuf s)"
  by (simp add: handsOver_def)

locale sector_cipher =
  fixes wf :: "'c \<Rightarrow> bool"
    and lenOk :: "'c \<Rightarrow> nat \<Rightarrow> bool"
    and decryptSector :: "'c \<Rightarrow> bytes \<Rightarrow> srcBuf \<Rightarrow> u64 \<Rightarrow> bytes result"
    and decode :: "'c \<Rightarrow> u64 \<Rightarrow> bytes \<Rightarrow> bytes"
    and encode :: "'c \<Rightarrow> u64 \<Rightarrow> bytes \<Rightarrow> bytes"
  assumes decryptSector: "wf c \<Longrightarrow> lenOk c (length s) \<Longrightarrow> handsOver s dst src \<Longrightarrow>
      decryptSector c dst src n = Ok (decode c n s)"
    and length_decode: "wf c \<Longrightarrow> lenOk c (length s) \<Longrightarrow> length (decode c n s) = length s"
    and length_encode: "wf c \<Longrightarrow> lenOk c (length s) \<Longrightarrow> length (encode c n s) = length s"
    and decode_encode: "wf c \<Longrightarrow> lenOk c (length s) \<Longrightarrow> decode c n (encode c n s) = s"
    and encode_decode: "wf c \<Longrightarrow> lenOk c (length s) \<Longrightarrow> encode c n (decode c n s) = s"
begin

lemma alias_safe:
  "wf c \<Longrightarrow> lenOk c (length s) \<Longrightarrow> length dst = length s \<Longrightarrow>
   decryptSector c s SameBuf n = decryptSector c dst (OtherBuf s) n"
  by (simp add: decryptSector handsOver_def)

lemma decrypts_encrypted:
  "wf c \<Longrightarrow> lenOk c (length p) \<Longrightarrow> handsOver (encode c n p) dst src \<Longrightarrow>
   decryptSector c dst src n = Ok p"
  by (simp add: decryptSector [where s = "encode c n p"] length_encode decode_encode)

lemma decode_inj:
  "wf c \<Longrightarrow> lenOk c (length s) \<Longrightarrow> lenOk c (length t) \<Longrightarrow> decode c n s = decode c n t \<Longrightarrow> s = t"
  by (metis encode_decode)

end

end
