(* ===== verification/Xts.thy ===== *)
theory Xts
  imports SectorCipher
begin

section \<open>AES-XTS sector decryption (\<open>xts.go\<close>)\<close>

text \<open>
  \<open>newXTSCipher\<close> splits the key in a data and a tweak half; \<open>decryptSector\<close> is the loop over
  the 16-byte blocks with its buffer writes; \<open>gfMulX\<close> is the byte loop with its carry.
  \<open>xtsEncode\<close> is IEEE 1619 encryption of whole blocks, the reference the loop is proved to
  invert, with tweaks \<open>sectorTweak\<close> and \<open>doubleTweak\<close> of its own, and \<open>gfDouble\<close> is multiplication by x in GF(2^128), the reference for \<open>gfMulX\<close>.
  The pool of sector buffers (\<open>sectorBufPool\<close>) is memory reuse: each use takes the first
  \<open>sectorSize\<close> bytes of a 4096-byte buffer and overwrites all of them before reading.
\<close>

record xtsCipher =
  dataKey :: aesCipher
  tweakKey :: aesCipher

definition newXTSCipher :: "bytes \<Rightarrow> xtsCipher result" where
  "newXTSCipher fvek =
     (if length fvek \<noteq> 32 \<and> length fvek \<noteq> 64 then Error (Msg ''xts: invalid key length'')
      else let half = length fvek div 2 in
        (case aes_NewCipher (take half fvek) of
           Error e \<Rightarrow> Error e
         | Panic s \<Rightarrow> Panic s
         | Ok b1 \<Rightarrow>
             (case aes_NewCipher (drop half fvek) of
                Error e \<Rightarrow> Error e
              | Panic s \<Rightarrow> Panic s
              | Ok b2 \<Rightarrow> Ok \<lparr>dataKey = b1, tweakKey = b2\<rparr>)))"

primrec gfMulX_loop :: "byte \<Rightarrow> bytes \<Rightarrow> bytes \<times> byte" where
  "gfMulX_loop carry [] = ([], carry)"
| "gfMulX_loop carry (b # bs) =
     (let newCarry = drop_bit 7 b;
          b' = push_bit 1 b OR carry;
          (bs', c) = gfMulX_loop newCarry bs
      in (b' # bs', c))"

definition gfMulX :: "bytes \<Rightarrow> bytes" where
  "gfMulX tweak =
     (let (t, carry) = gfMulX_loop 0 tweak in
      if carry \<noteq> 0 then (hd t XOR 0x87) # tl t else t)"

function xts_loop :: "xtsCipher \<Rightarrow> srcBuf \<Rightarrow> bytes \<Rightarrow> nat \<Rightarrow> bytes \<Rightarrow> bytes" where
  "xts_loop c src dst off tweak =
     (if off < length (srcBytes dst src) then
        (let tmp = xorBytes (slice (srcBytes dst src) off 16) tweak;
             tmp' = aes_Decrypt (dataKey c) tmp;
             dst' = writeAt off (xorBytes tmp' tweak) dst
         in xts_loop c src dst' (off + 16) (gfMulX tweak))
      else dst)"
  by pat_completeness auto
termination
  by (relation "measure (\<lambda>(c, src, dst, off, tweak). length (srcBytes dst src) - off)")
    (auto simp: srcBytes_def Let_def split: srcBuf.splits)

declare xts_loop.simps [simp del]

definition xtsTweak0 :: "xtsCipher \<Rightarrow> u64 \<Rightarrow> bytes" where
  "xtsTweak0 c sectorNum = aes_Encrypt (tweakKey c) (put64 sectorNum @ replicate 8 0)"

definition xts_decryptSector :: "xtsCipher \<Rightarrow> bytes \<Rightarrow> srcBuf \<Rightarrow> u64 \<Rightarrow> bytes result" where
  "xts_decryptSector c dst src sectorNum =
     (if length dst \<noteq> length (srcBytes dst src) \<or> length dst mod 16 \<noteq> 0
      then Panic ''xts: invalid sector length''
      else Ok (xts_loop c src dst 0 (xtsTweak0 c sectorNum)))"

subsection \<open>\<open>gfMulX\<close> doubles in GF(2^128)\<close>

definition gfDouble :: "128 word \<Rightarrow> 128 word" where
  "gfDouble w = push_bit 1 w XOR (if bit w 127 then 0x87 else 0)"

definition blockWord :: "bytes \<Rightarrow> 128 word" where
  "blockWord b = word_of_nat (leNat b)"

lemma gfMulX_loop_spec:
  "gfMulX_loop (of_bool q) bs = (bs', c) \<Longrightarrow>
   length bs' = length bs \<and>
   (\<exists>q'. c = of_bool q' \<and>
     leNat bs' + 256 ^ length bs * of_bool q' = 2 * leNat bs + of_bool q)"
proof (induction bs arbitrary: q bs' c)
  case Nil
  then show ?case by (intro conjI exI [of _ q]) simp_all
next
  case (Cons b bs)
  let ?q = "128 \<le> unat b"
  obtain r c' where r: "gfMulX_loop (of_bool ?q) bs = (r, c')"
    by (cases "gfMulX_loop (of_bool ?q) bs")
  with Cons.prems have bs': "bs' = (push_bit 1 b OR of_bool q) # r" "c = c'"
    by (auto simp: byte_top_bit Let_def)
  from Cons.IH [OF r] obtain q' where q': "length r = length bs" "c' = of_bool q'"
    "leNat r + 256 ^ length bs * of_bool q' = 2 * leNat bs + of_bool ?q" by auto
  have "unat (push_bit 1 b OR of_bool q) + 256 * leNat r + 256 * (256 ^ length bs * of_bool q')
      = unat (push_bit 1 b OR of_bool q) + 256 * (leNat r + 256 ^ length bs * of_bool q')"
    by (simp add: algebra_simps)
  also have "\<dots> = (unat (push_bit 1 b OR of_bool q) + 256 * of_bool ?q) + 256 * (2 * leNat bs)"
    unfolding q'(3) by (simp add: algebra_simps)
  also have "\<dots> = 2 * leNat (b # bs) + of_bool q"
    unfolding byte_shift_in by (simp add: algebra_simps)
  finally show ?case using q' bs' by (intro conjI exI [of _ q']) (simp_all add: algebra_simps)
qed

lemma length_gfMulX [simp, len_simps]: "t \<noteq> [] \<Longrightarrow> length (gfMulX t) = length t"
proof -
  assume t: "t \<noteq> []"
  obtain r c where r: "gfMulX_loop 0 t = (r, c)" by (cases "gfMulX_loop 0 t")
  then have "length r = length t" using gfMulX_loop_spec [of False t r c] by simp
  with r t show ?thesis by (cases r) (auto simp: gfMulX_def)
qed

lemma leNat_xor_hd:
  "t \<noteq> [] \<Longrightarrow> leNat ((hd t XOR k) # tl t) = leNat t XOR unat k"
proof -
  assume "t \<noteq> []"
  then obtain b r where t: "t = b # r" by (cases t) auto
  have "unat b < 256" "unat k < 256" using unsigned_less [of b] unsigned_less [of k] by simp_all
  then show ?thesis
    by (simp add: t unsigned_xor_eq xor_low_byte)
qed

lemma blockWord_gfMulX:
  assumes "length t = 16"
  shows "blockWord (gfMulX t) = gfDouble (blockWord t)"
proof -
  obtain r c where r: "gfMulX_loop 0 t = (r, c)" by (cases "gfMulX_loop 0 t")
  from gfMulX_loop_spec [of False t r c] r assms obtain q where
    q: "length r = 16" "c = of_bool q" "leNat r + 2 ^ 128 * of_bool q = 2 * leNat t"
    by auto
  have bound: "leNat t < 2 ^ 128" "leNat r < 2 ^ 128"
    using leNat_bound [of t] leNat_bound [of r] assms q(1) by simp_all
  have top: "bit (blockWord t) 127 \<longleftrightarrow> q"
  proof -
    have "bit (blockWord t) 127 \<longleftrightarrow> bit (leNat t) 127"
      unfolding blockWord_def bit_of_nat_iff by simp
    also have "\<dots> \<longleftrightarrow> odd (leNat t div 2 ^ 127)"
      by (rule bit_iff_odd)
    also have "leNat t div 2 ^ 127 = of_bool q"
      using q(3) bound by (cases q) (auto intro: div_nat_eqI)
    finally show ?thesis by simp
  qed
  have "(word_of_nat (2 * leNat t) :: 128 word) = word_of_nat (leNat r + 2 ^ 128 * of_bool q)"
    by (simp only: q(3))
  also have "\<dots> = word_of_nat (leNat r)"
    by (cases q) (simp_all add: word_of_nat_eq_iff take_bit_eq_mod)
  finally have shift: "push_bit 1 (blockWord t) = word_of_nat (leNat r)"
    by (simp add: blockWord_def push_bit_eq_mult mult.commute)
  show ?thesis
  proof (cases q)
    case True
    then have "leNat (gfMulX t) = leNat r XOR 0x87"
      using leNat_xor_hd [of r "0x87"] q(1,2) r \<open>q\<close> by (cases r) (auto simp: gfMulX_def)
    then show ?thesis
      using True shift top by (simp add: blockWord_def gfDouble_def of_nat_xor_eq)
  next
    case False
    then show ?thesis
      using q r shift top by (simp add: gfMulX_def gfDouble_def blockWord_def)
  qed
qed

text \<open>Doubling of a 16-byte tweak, in terms of the field alone.\<close>

definition doubleTweak :: "bytes \<Rightarrow> bytes" where
  "doubleTweak t = leBytes 16 (unat (gfDouble (blockWord t)))"

lemma length_doubleTweak [simp, len_simps]: "length (doubleTweak t) = 16"
  by (simp add: doubleTweak_def)

lemma gfMulX_doubleTweak:
  assumes "length t = 16"
  shows "gfMulX t = doubleTweak t"
proof -
  have l: "length (gfMulX t) = 16" using assms by (cases t) simp_all
  then have "leNat (gfMulX t) < 2 ^ 128" using leNat_bound [of "gfMulX t"] by simp
  then have "unat (blockWord (gfMulX t)) = leNat (gfMulX t)" by (simp add: blockWord_def unat_of_nat)
  then have "doubleTweak t = leBytes 16 (leNat (gfMulX t))"
    by (simp add: doubleTweak_def blockWord_gfMulX [OF assms, symmetric])
  with leBytes_leNat [of "gfMulX t"] l show ?thesis by simp
qed

subsection \<open>The sector loop computes the block-wise XTS transform\<close>

function xtsBlocks :: "(bytes \<Rightarrow> bytes) \<Rightarrow> bytes \<Rightarrow> bytes \<Rightarrow> bytes" where
  "xtsBlocks F t s =
     (if s = [] then []
      else xorBytes (F (xorBytes (take 16 s) t)) t @ xtsBlocks F (doubleTweak t) (drop 16 s))"
  by pat_completeness auto
termination
  by (relation "measure (\<lambda>(F, t, s). length s)") auto

declare xtsBlocks.simps [simp del]

lemma xtsBlocks_simps [simp]:
  "xtsBlocks F t [] = []"
  "length b = 16 \<Longrightarrow> xtsBlocks F t (b @ s) = xorBytes (F (xorBytes b t)) t @ xtsBlocks F (doubleTweak t) s"
  by (simp add: xtsBlocks.simps) (subst xtsBlocks.simps, auto)

text \<open>The first tweak: the sector number in 16 little-endian bytes, encrypted under the tweak key.\<close>

definition sectorTweak :: "xtsCipher \<Rightarrow> u64 \<Rightarrow> bytes" where
  "sectorTweak c n = aes_Encrypt (tweakKey c) (leBytes 16 (unat n))"

lemma xtsTweak0_sectorTweak: "xtsTweak0 c n = sectorTweak c n"
  by (simp add: xtsTweak0_def sectorTweak_def put64_extended)

definition xtsDecode :: "xtsCipher \<Rightarrow> u64 \<Rightarrow> bytes \<Rightarrow> bytes" where
  "xtsDecode c n s = xtsBlocks (aes_Decrypt (dataKey c)) (sectorTweak c n) s"

definition xtsEncode :: "xtsCipher \<Rightarrow> u64 \<Rightarrow> bytes \<Rightarrow> bytes" where
  "xtsEncode c n p = xtsBlocks (aes_Encrypt (dataKey c)) (sectorTweak c n) p"

definition xts_wf :: "xtsCipher \<Rightarrow> bool" where
  "xts_wf c \<longleftrightarrow> aes_wf (dataKey c) \<and> aes_wf (tweakKey c)"

definition xts_lenOk :: "xtsCipher \<Rightarrow> nat \<Rightarrow> bool" where
  "xts_lenOk c n \<longleftrightarrow> 16 dvd n"

lemma length_sectorTweak [simp]: "xts_wf c \<Longrightarrow> length (sectorTweak c n) = 16"
  by (simp add: sectorTweak_def xts_wf_def aes.length_Encrypt)

lemma length_xtsBlocks:
  assumes "16 dvd length s" "length t = 16" "\<And>b. length b = 16 \<Longrightarrow> length (F b) = 16"
  shows "length (xtsBlocks F t s) = length s"
  using assms(1,2)
  by (induction s arbitrary: t rule: block_induct) (simp_all add: assms(3))

lemma xtsBlocks_inverse:
  assumes "16 dvd length s" "length t = 16"
    and "\<And>b. length b = 16 \<Longrightarrow> length (F b) = 16"
    and "\<And>b. length b = 16 \<Longrightarrow> G (F b) = b"
  shows "xtsBlocks G t (xtsBlocks F t s) = s"
  using assms(1,2)
  by (induction s arbitrary: t rule: block_induct) (simp_all add: assms(3,4))

text \<open>
  One iteration on a buffer whose first \<open>off\<close> bytes are done: whether the source is the
  buffer itself or not, the bytes read are those not yet overwritten.
\<close>

lemma xts_loop_blocks:
  assumes "16 dvd length s" "xts_wf c" "length t = 16" "length pre = length out"
    and "length rest = length s" "src = SameBuf \<and> rest = s \<or> src = OtherBuf (pre @ s)"
  shows "xts_loop c src (out @ rest) (length out) t =
    out @ xtsBlocks (aes_Decrypt (dataKey c)) t s"
  using assms
proof (induction s arbitrary: t pre out rest rule: block_induct)
  case Nil
  then show ?case by (auto simp: xts_loop.simps)
next
  case (block b s)
  define old where "old = take 16 rest"
  define rest' where "rest' = drop 16 rest"
  have rest: "rest = old @ rest'" "length old = 16" "length rest' = length s"
    using block.prems block.hyps by (simp_all add: old_def rest'_def)
  let ?b = "xorBytes (aes_Decrypt (dataKey c) (xorBytes b t)) t"
  have len: "length ?b = 16"
    using block.prems block.hyps by (simp add: aes.length_Decrypt xts_wf_def)
  have read: "slice (srcBytes (out @ rest) src) (length out) 16 = b"
    and more: "length out < length (srcBytes (out @ rest) src)"
    using block.prems block.hyps by (auto simp: slice_def)
  have wr: "writeAt (length out) ?b (out @ rest) = (out @ ?b) @ rest'"
    using writeAt_append [of out "length out" old ?b rest'] rest len by simp
  have "xts_loop c src (out @ rest) (length out) t =
      xts_loop c src ((out @ ?b) @ rest') (length (out @ ?b)) (doubleTweak t)"
    by (subst xts_loop.simps)
      (simp only: more if_True Let_def read wr length_append len gfMulX_doubleTweak [OF block.prems(2)])
  also have "\<dots> = (out @ ?b) @ xtsBlocks (aes_Decrypt (dataKey c)) (doubleTweak t) s"
  proof (rule block.IH)
    show "xts_wf c" "length (doubleTweak t) = 16" "length rest' = length s"
      using block.prems rest by simp_all
    show "length (pre @ b) = length (out @ ?b)"
      using block.prems block.hyps len by simp
    show "src = SameBuf \<and> rest' = s \<or> src = OtherBuf ((pre @ b) @ s)"
      using block.prems(5) block.hyps rest'_def by auto
  qed
  finally show ?case using block.hyps by simp
qed

lemma xts_decryptSector_decode:
  assumes "xts_wf c" "16 dvd length s" "handsOver s dst src"
  shows "xts_decryptSector c dst src n = Ok (xtsDecode c n s)"
proof -
  have "length dst = length (srcBytes dst src)" "length dst = length s"
    and src: "src = SameBuf \<and> dst = s \<or> src = OtherBuf ([] @ s)"
    using assms(3) by (auto simp: handsOver_def)
  moreover have "xts_loop c src dst 0 (xtsTweak0 c n) = xtsDecode c n s"
    using xts_loop_blocks [of s c "sectorTweak c n" "[]" "[]" dst src] assms src \<open>length dst = length s\<close>
    by (simp add: xtsDecode_def xtsTweak0_sectorTweak)
  ultimately show ?thesis
    using assms(2) by (simp add: xts_decryptSector_def dvd_eq_mod_eq_0)
qed

interpretation xts: sector_cipher xts_wf xts_lenOk xts_decryptSector xtsDecode xtsEncode
proof unfold_locales
  fix c n and s :: bytes
  assume c: "xts_wf c" "xts_lenOk c (length s)"
  then have s: "16 dvd length s" by (simp add: xts_lenOk_def)
  have k: "aes_wf (dataKey c)" using c(1) by (simp add: xts_wf_def)
  note laws = aes.length_Decrypt [OF k] aes.length_Encrypt [OF k]
    aes.Decrypt_Encrypt [OF k] aes.Encrypt_Decrypt [OF k] length_sectorTweak [OF c(1)]
  show "handsOver s dst src \<Longrightarrow> xts_decryptSector c dst src n = Ok (xtsDecode c n s)" for dst src
    by (rule xts_decryptSector_decode [OF c(1) s])
  show "length (xtsDecode c n s) = length s" "length (xtsEncode c n s) = length s"
    unfolding xtsDecode_def xtsEncode_def by (rule length_xtsBlocks [OF s], simp_all add: laws)+
  show "xtsDecode c n (xtsEncode c n s) = s" "xtsEncode c n (xtsDecode c n s) = s"
    unfolding xtsDecode_def xtsEncode_def by (rule xtsBlocks_inverse [OF s], simp_all add: laws)+
qed

subsection \<open>Construction\<close>

lemma newXTSCipher_wf: "newXTSCipher k = Ok c \<Longrightarrow> xts_wf c"
  by (auto simp: newXTSCipher_def xts_wf_def Let_def split: if_splits result.splits
      intro: aes_NewCipher_wf)

lemma newXTSCipher_iff:
  "(\<exists>c. newXTSCipher k = Ok c) \<longleftrightarrow> length k = 32 \<or> length k = 64"
proof
  assume "length k = 32 \<or> length k = 64"
  then have "\<exists>c. aes_NewCipher (take (length k div 2) k) = Ok c"
    "\<exists>c. aes_NewCipher (drop (length k div 2) k) = Ok c"
    by (auto simp: aes_NewCipher_def Let_def)
  with \<open>length k = 32 \<or> length k = 64\<close> show "\<exists>c. newXTSCipher k = Ok c"
    by (auto simp: newXTSCipher_def Let_def)
qed (auto simp: newXTSCipher_def split: if_splits)

lemma newXTSCipher_error:
  "length k \<noteq> 32 \<Longrightarrow> length k \<noteq> 64 \<Longrightarrow> newXTSCipher k = Error (Msg ''xts: invalid key length'')"
  by (simp add: newXTSCipher_def)

subsection \<open>Properties\<close>

text \<open>C13: With a key the constructor accepts, \<open>decryptSector\<close> returns the plaintext of every sector that
  IEEE 1619 encryption produced under the same sector number, in place or from another buffer.\<close>

theorem xts_decrypts_encrypted:
  assumes "newXTSCipher key = Ok c" "16 dvd length p" "handsOver (xtsEncode c n p) dst src"
  shows "xts_decryptSector c dst src n = Ok p"
  using xts.decrypts_encrypted [OF newXTSCipher_wf [OF assms(1)] _ assms(3)] assms(2)
  by (simp add: xts_lenOk_def)

theorem xts_decrypts_encrypted_witness:
  "\<exists>c. newXTSCipher (replicate 64 1) = Ok c \<and>
     xts_decryptSector c (xtsEncode c 5 (replicate 32 9)) SameBuf 5 = Ok (replicate 32 9)"
proof -
  obtain c where c: "newXTSCipher (replicate 64 1) = Ok c"
    using newXTSCipher_iff [of "replicate 64 1"] by auto
  show ?thesis using c xts_decrypts_encrypted [OF c, of "replicate 32 9" 5] by auto
qed

text \<open>C29: \<open>gfMulX\<close>, a loop over bytes with a carry, is multiplication by x in GF(2^128) on the tweak
  read as a little-endian number.\<close>

theorem gfMulX_doubles:
  assumes "length t = 16"
  shows "blockWord (gfMulX t) = gfDouble (blockWord t) \<and> length (gfMulX t) = 16"
  using blockWord_gfMulX [OF assms] assms by (simp add: gfMulX_doubleTweak)

theorem gfMulX_doubles_witness:
  "blockWord (gfMulX (replicate 16 255)) = gfDouble (blockWord (replicate 16 255))"
  using gfMulX_doubles [of "replicate 16 255"] by simp

text \<open>C27: \<open>decryptSector\<close> panics exactly on two buffers of different lengths or on a length that is no
  multiple of 16; otherwise the result depends only on the bytes handed over, not on aliasing.\<close>

theorem xts_panics_exactly:
  assumes "xts_wf c"
  shows "((\<exists>s. xts_decryptSector c dst src n = Panic s) \<longleftrightarrow>
      length dst \<noteq> length (srcBytes dst src) \<or> \<not> 16 dvd length dst) \<and>
    (length dst = length (srcBytes dst src) \<and> 16 dvd length dst \<longrightarrow>
      xts_decryptSector c dst src n = xts_decryptSector c (srcBytes dst src) SameBuf n)"
proof (cases "length dst = length (srcBytes dst src) \<and> 16 dvd length dst")
  case True
  then have "handsOver (srcBytes dst src) dst src"
    by (cases src) (auto simp: handsOver_def)
  then have "xts_decryptSector c dst src n = Ok (xtsDecode c n (srcBytes dst src))"
    "xts_decryptSector c (srcBytes dst src) SameBuf n = Ok (xtsDecode c n (srcBytes dst src))"
    using True by (auto intro!: xts.decryptSector [OF assms] simp: xts_lenOk_def)
  with True show ?thesis by auto
next
  case False
  then show ?thesis by (auto simp: xts_decryptSector_def dvd_eq_mod_eq_0)
qed

theorem xts_panics_exactly_witness:
  "\<exists>c s. newXTSCipher (replicate 32 0) = Ok c \<and> xts_decryptSector c [1, 2, 3] SameBuf 0 = Panic s"
proof -
  obtain c where c: "newXTSCipher (replicate 32 0) = Ok c"
    using newXTSCipher_iff [of "replicate 32 0"] by auto
  moreover have "\<not> 16 dvd length [1, 2, 3 :: byte]" by (simp add: dvd_eq_mod_eq_0)
  ultimately show ?thesis
    using xts_panics_exactly [OF newXTSCipher_wf [OF c], of "[1, 2, 3]" SameBuf 0] by blast
qed

end
