(* ===== verification/Cbc.thy ===== *)
theory Cbc
  imports SectorCipher
begin

section \<open>AES-CBC sector decryption without diffuser (\<open>cbc.go\<close>)\<close>

text \<open>
  \<open>newCBCCipher\<close> checks key and sector size; \<open>decryptSector\<close> derives the initialisation
  vector from the byte offset of the sector (\<open>sectorNum * sectorSize\<close> in \<open>uint64\<close>, so it
  wraps) and runs the block loop, keeping a copy of each ciphertext block before the buffer
  is overwritten. \<open>cbcEncode\<close> is CBC encryption with the same vector.
\<close>

record cbcCipher =
  cbc_block :: aesCipher
  cbc_sectorSize :: int

definition newCBCCipher :: "bytes \<Rightarrow> int \<Rightarrow> cbcCipher result" where
  "newCBCCipher fvek sectorSize =
     (if length fvek \<noteq> 16 \<and> length fvek \<noteq> 32 then Error (Msg ''cbc: invalid key length'')
      else if sectorSize \<le> 0 \<or> sectorSize smod 16 \<noteq> 0 then Error (Msg ''cbc: invalid sector size'')
      else (case aes_NewCipher fvek of
              Error e \<Rightarrow> Error e
            | Panic s \<Rightarrow> Panic s
            | Ok b \<Rightarrow> Ok \<lparr>cbc_block = b, cbc_sectorSize = sectorSize\<rparr>))"

function cbc_loop :: "cbcCipher \<Rightarrow> srcBuf \<Rightarrow> bytes \<Rightarrow> nat \<Rightarrow> bytes \<Rightarrow> bytes" where
  "cbc_loop c src dst off prev =
     (if off < length (srcBytes dst src) then
        (let ctCopy = slice (srcBytes dst src) off 16;
             dec = aes_Decrypt (cbc_block c) ctCopy;
             dst' = writeAt off (xorBytes dec prev) dst
         in cbc_loop c src dst' (off + 16) ctCopy)
      else dst)"
  by pat_completeness auto
termination
  by (relation "measure (\<lambda>(c, src, dst, off, prev). length (srcBytes dst src) - off)")
    (auto simp: srcBytes_def Let_def split: srcBuf.splits)

declare cbc_loop.simps [simp del]

definition cbcIV :: "cbcCipher \<Rightarrow> u64 \<Rightarrow> bytes" where
  "cbcIV c sectorNum =
     aes_Encrypt (cbc_block c) (put64 (sectorNum * word_of_int (cbc_sectorSize c)) @ replicate 8 0)"

definition cbc_decryptSector :: "cbcCipher \<Rightarrow> bytes \<Rightarrow> srcBuf \<Rightarrow> u64 \<Rightarrow> bytes result" where
  "cbc_decryptSector c dst src sectorNum =
     (if length dst \<noteq> length (srcBytes dst src) \<or> length dst mod 16 \<noteq> 0
      then Panic ''cbc: invalid sector length''
      else if int (length dst) \<noteq> cbc_sectorSize c then Panic ''cbc: unexpected sector size''
      else Ok (cbc_loop c src dst 0 (cbcIV c sectorNum)))"

subsection \<open>CBC as a function of the sector\<close>

function cbcDecBlocks :: "aesCipher \<Rightarrow> bytes \<Rightarrow> bytes \<Rightarrow> bytes" where
  "cbcDecBlocks k prev s =
     (if s = [] then []
      else xorBytes (aes_Decrypt k (take 16 s)) prev @ cbcDecBlocks k (take 16 s) (drop 16 s))"
  by pat_completeness auto
termination
  by (relation "measure (\<lambda>(k, prev, s). length s)") auto

function cbcEncBlocks :: "aesCipher \<Rightarrow> bytes \<Rightarrow> bytes \<Rightarrow> bytes" where
  "cbcEncBlocks k prev p =
     (if p = [] then []
      else let e = aes_Encrypt k (xorBytes (take 16 p) prev)
           in e @ cbcEncBlocks k e (drop 16 p))"
  by pat_completeness auto
termination
  by (relation "measure (\<lambda>(k, prev, s). length s)") auto

declare cbcDecBlocks.simps [simp del] cbcEncBlocks.simps [simp del]

lemma cbcDecBlocks_simps [simp]:
  "cbcDecBlocks k prev [] = []"
  "length b = 16 \<Longrightarrow> cbcDecBlocks k prev (b @ s) =
     xorBytes (aes_Decrypt k b) prev @ cbcDecBlocks k b s"
  by (simp add: cbcDecBlocks.simps) (subst cbcDecBlocks.simps, auto)

lemma cbcEncBlocks_simps [simp]:
  "cbcEncBlocks k prev [] = []"
  "length b = 16 \<Longrightarrow> cbcEncBlocks k prev (b @ p) =
     aes_Encrypt k (xorBytes b prev) @ cbcEncBlocks k (aes_Encrypt k (xorBytes b prev)) p"
  by (simp add: cbcEncBlocks.simps) (subst cbcEncBlocks.simps, auto simp: Let_def)

text \<open>The reference vector: the sector's byte offset, a 64-bit number, in 16 little-endian bytes, encrypted.\<close>

definition offsetIV :: "cbcCipher \<Rightarrow> u64 \<Rightarrow> bytes" where
  "offsetIV c n =
     aes_Encrypt (cbc_block c) (leBytes 16 (nat ((uint n * cbc_sectorSize c) mod 2 ^ 64)))"

lemma cbcIV_offsetIV: "cbcIV c n = offsetIV c n"
proof -
  have "uint (n * word_of_int (cbc_sectorSize c)) = (uint n * cbc_sectorSize c) mod 2 ^ 64"
    by (simp add: uint_word_ariths uint_word_of_int mod_simps)
  then have "unat (n * word_of_int (cbc_sectorSize c)) = nat ((uint n * cbc_sectorSize c) mod 2 ^ 64)"
    by (simp only: unat_eq_nat_uint)
  then show ?thesis by (simp add: cbcIV_def offsetIV_def put64_extended)
qed

definition cbcDecode :: "cbcCipher \<Rightarrow> u64 \<Rightarrow> bytes \<Rightarrow> bytes" where
  "cbcDecode c n s = cbcDecBlocks (cbc_block c) (offsetIV c n) s"

definition cbcEncode :: "cbcCipher \<Rightarrow> u64 \<Rightarrow> bytes \<Rightarrow> bytes" where
  "cbcEncode c n p = cbcEncBlocks (cbc_block c) (offsetIV c n) p"

definition cbc_wf :: "cbcCipher \<Rightarrow> bool" where
  "cbc_wf c \<longleftrightarrow> aes_wf (cbc_block c)"

definition cbc_lenOk :: "cbcCipher \<Rightarrow> nat \<Rightarrow> bool" where
  "cbc_lenOk c n \<longleftrightarrow> 16 dvd n \<and> int n = cbc_sectorSize c"

lemma length_offsetIV [simp]: "cbc_wf c \<Longrightarrow> length (offsetIV c n) = 16"
  by (simp add: offsetIV_def cbc_wf_def aes.length_Encrypt)

lemma length_cbcDecBlocks:
  "16 dvd length s \<Longrightarrow> aes_wf k \<Longrightarrow> length prev = 16 \<Longrightarrow> length (cbcDecBlocks k prev s) = length s"
  by (induction s arbitrary: prev rule: block_induct) (simp_all add: aes.length_Decrypt)

lemma length_cbcEncBlocks:
  "16 dvd length s \<Longrightarrow> aes_wf k \<Longrightarrow> length prev = 16 \<Longrightarrow> length (cbcEncBlocks k prev s) = length s"
  by (induction s arbitrary: prev rule: block_induct) (simp_all add: aes.length_Encrypt)

lemma cbcDec_Enc:
  "16 dvd length s \<Longrightarrow> aes_wf k \<Longrightarrow> length prev = 16 \<Longrightarrow>
   cbcDecBlocks k prev (cbcEncBlocks k prev s) = s"
  by (induction s arbitrary: prev rule: block_induct)
    (simp_all add: aes.length_Encrypt aes.Decrypt_Encrypt)

lemma cbcEnc_Dec:
  "16 dvd length s \<Longrightarrow> aes_wf k \<Longrightarrow> length prev = 16 \<Longrightarrow>
   cbcEncBlocks k prev (cbcDecBlocks k prev s) = s"
  by (induction s arbitrary: prev rule: block_induct)
    (simp_all add: aes.length_Decrypt aes.Encrypt_Decrypt)

subsection \<open>The loop\<close>

lemma cbc_loop_blocks:
  assumes "16 dvd length s" "cbc_wf c" "length prev = 16" "length pre = length out"
    and "length rest = length s" "src = SameBuf \<and> rest = s \<or> src = OtherBuf (pre @ s)"
  shows "cbc_loop c src (out @ rest) (length out) prev =
    out @ cbcDecBlocks (cbc_block c) prev s"
  using assms
proof (induction s arbitrary: prev pre out rest rule: block_induct)
  case Nil
  then show ?case by (auto simp: cbc_loop.simps)
next
  case (block b s)
  define old where "old = take 16 rest"
  define rest' where "rest' = drop 16 rest"
  have rest: "rest = old @ rest'" "length old = 16" "length rest' = length s"
    using block.prems block.hyps by (simp_all add: old_def rest'_def)
  let ?b = "xorBytes (aes_Decrypt (cbc_block c) b) prev"
  have len: "length ?b = 16"
    using block.prems block.hyps by (simp add: aes.length_Decrypt cbc_wf_def)
  have read: "slice (srcBytes (out @ rest) src) (length out) 16 = b"
    and more: "length out < length (srcBytes (out @ rest) src)"
    using block.prems block.hyps by (auto simp: slice_def)
  have wr: "writeAt (length out) ?b (out @ rest) = (out @ ?b) @ rest'"
    using writeAt_append [of out "length out" old ?b rest'] rest len by simp
  have "cbc_loop c src (out @ rest) (length out) prev =
      cbc_loop c src ((out @ ?b) @ rest') (length (out @ ?b)) b"
    by (subst cbc_loop.simps) (simp only: more if_True Let_def read wr length_append len)
  also have "\<dots> = (out @ ?b) @ cbcDecBlocks (cbc_block c) b s"
  proof (rule block.IH)
    show "cbc_wf c" "length b = 16" "length rest' = length s"
      using block.prems block.hyps rest by simp_all
    show "length (pre @ b) = length (out @ ?b)"
      using block.prems block.hyps len by simp
    show "src = SameBuf \<and> rest' = s \<or> src = OtherBuf ((pre @ b) @ s)"
      using block.prems(5) block.hyps rest'_def by auto
  qed
  finally show ?case using block.hyps by simp
qed

lemma cbc_decryptSector_decode:
  assumes "cbc_wf c" "cbc_lenOk c (length s)" "handsOver s dst src"
  shows "cbc_decryptSector c dst src n = Ok (cbcDecode c n s)"
proof -
  have len: "length dst = length (srcBytes dst src)" "length dst = length s"
    and src: "src = SameBuf \<and> dst = s \<or> src = OtherBuf ([] @ s)"
    using assms(3) by (auto simp: handsOver_def)
  have s: "16 dvd length s" "int (length s) = cbc_sectorSize c"
    using assms(2) by (simp_all add: cbc_lenOk_def)
  have "cbc_loop c src dst 0 (cbcIV c n) = cbcDecode c n s"
    unfolding cbcIV_offsetIV using cbc_loop_blocks [of s c "offsetIV c n" "[]" "[]" dst src] assms(1) s src len(2)
    by (simp add: cbcDecode_def)
  with len s show ?thesis
    by (simp add: cbc_decryptSector_def dvd_eq_mod_eq_0)
qed

interpretation cbc: sector_cipher cbc_wf cbc_lenOk cbc_decryptSector cbcDecode cbcEncode
proof unfold_locales
  fix c n and s :: bytes
  assume c: "cbc_wf c" "cbc_lenOk c (length s)"
  then have s: "16 dvd length s" and k: "aes_wf (cbc_block c)"
    by (simp_all add: cbc_lenOk_def cbc_wf_def)
  note iv = length_offsetIV [OF c(1), of n]
  show "handsOver s dst src \<Longrightarrow> cbc_decryptSector c dst src n = Ok (cbcDecode c n s)" for dst src
    by (rule cbc_decryptSector_decode [OF c])
  show "length (cbcDecode c n s) = length s" "length (cbcEncode c n s) = length s"
    unfolding cbcDecode_def cbcEncode_def
    by (rule length_cbcDecBlocks [OF s k iv], rule length_cbcEncBlocks [OF s k iv])
  show "cbcDecode c n (cbcEncode c n s) = s" "cbcEncode c n (cbcDecode c n s) = s"
    unfolding cbcDecode_def cbcEncode_def
    by (rule cbcDec_Enc [OF s k iv], rule cbcEnc_Dec [OF s k iv])
qed

subsection \<open>Construction\<close>

lemma newCBCCipher_wf: "newCBCCipher k n = Ok c \<Longrightarrow> cbc_wf c \<and> cbc_sectorSize c = n \<and> 0 < n \<and> 16 dvd n"
  by (auto simp: newCBCCipher_def cbc_wf_def smod_nonneg dvd_eq_mod_eq_0 split: if_splits result.splits
      intro: aes_NewCipher_wf)

lemma newCBCCipher_iff:
  "(\<exists>c. newCBCCipher k n = Ok c) \<longleftrightarrow> (length k = 16 \<or> length k = 32) \<and> 0 < n \<and> 16 dvd n"
proof
  assume *: "(length k = 16 \<or> length k = 32) \<and> 0 < n \<and> 16 dvd n"
  then have "\<exists>c. aes_NewCipher k = Ok c"
    by (auto simp: aes_NewCipher_def Let_def)
  with * show "\<exists>c. newCBCCipher k n = Ok c"
    by (auto simp: newCBCCipher_def smod_nonneg dvd_eq_mod_eq_0)
qed (auto simp: newCBCCipher_def smod_nonneg dvd_eq_mod_eq_0 split: if_splits)

subsection \<open>Properties\<close>

text \<open>C14: With a key and a sector size the constructor accepts, \<open>decryptSector\<close> returns the plaintext of
  every whole sector that CBC encryption under the same sector number produced.\<close>

theorem cbc_decrypts_encrypted:
  assumes "newCBCCipher key ss = Ok c" "int (length p) = ss" "handsOver (cbcEncode c n p) dst src"
  shows "cbc_decryptSector c dst src n = Ok p"
proof -
  note c = newCBCCipher_wf [OF assms(1)]
  with assms(2) have "cbc_lenOk c (length p)"
    by (auto simp: cbc_lenOk_def int_dvd_int_iff [symmetric])
  then show ?thesis using cbc.decrypts_encrypted c assms(3) by blast
qed

theorem cbc_decrypts_encrypted_witness:
  "\<exists>c. newCBCCipher (replicate 16 1) 512 = Ok c \<and>
     cbc_decryptSector c (cbcEncode c 5 (replicate 512 9)) SameBuf 5 = Ok (replicate 512 9)"
proof -
  obtain c where c: "newCBCCipher (replicate 16 1) 512 = Ok c"
    using newCBCCipher_iff [of "replicate 16 1" 512] by auto
  show ?thesis using c cbc_decrypts_encrypted [OF c, of "replicate 512 9" 5] by auto
qed

end
