(* ===== verification/Ccm.thy ===== *)
theory Ccm
  imports Aes
begin

section \<open>AES-CCM decryption with tag verification (\<open>ccm.go\<close>)\<close>

text \<open>
  \<open>ccmDecrypt\<close> and its helpers, each a definition of the same name. The block cipher is an
  argument \<open>E\<close> (\<open>block.Encrypt\<close>) of the helpers, as it is in the code. \<open>ctrXor\<close> is
  \<open>cipher.NewCTR\<close> with \<open>XORKeyStream\<close> of the standard library: a 128-bit big-endian counter
  that is incremented after every block.

  The second half is the specification of CCM (NIST SP 800-38C, RFC 3610) as an encryption
  function, which the package does not contain, and the lemmas that every helper of the code
  computes the part of the specification it stands for.
\<close>

subsection \<open>The code\<close>

definition makeCCMIV :: "bytes \<Rightarrow> nat \<Rightarrow> u32 \<Rightarrow> bytes" where
  "makeCCMIV nonce L counter =
     (let out = writeAt 1 nonce (writeAt 0 [word_of_nat (L - 1)] (replicate 16 0)) in
      if L = 2 then writeAt 14 (rev (put16 (ucast counter))) out
      else if L = 3 then
        out[13 := ucast (drop_bit 16 counter), 14 := ucast (drop_bit 8 counter), 15 := ucast counter]
      else if L = 4 then writeAt 12 (rev (put32 counter)) out
      else fold (\<lambda>i o'. o'[16 - L + i := ucast (drop_bit (8 * (L - 1 - i)) counter)]) [0..<L] out)"

definition formatAAD :: "bytes \<Rightarrow> bytes" where
  "formatAAD aad =
     (let n = length aad;
          hdr = rev (put16 (word_of_nat n));
          buf = hdr @ aad;
          rem = length buf mod 16
      in if rem \<noteq> 0 then buf @ replicate (16 - rem) 0 else buf)"

function ccmCbcMacUpdate :: "(bytes \<Rightarrow> bytes) \<Rightarrow> bytes \<Rightarrow> bytes \<Rightarrow> bytes" where
  "ccmCbcMacUpdate E x data =
     (if data = [] then x
      else let n = (if length data < 16 then length data else 16);
               tmp = xorBytes (writeAt 0 (take n data) (replicate 16 0)) x;
               x' = E tmp
           in if length data \<le> 16 then x' else ccmCbcMacUpdate E x' (drop 16 data))"
  by pat_completeness auto
termination
  by (relation "measure (\<lambda>(E, x, data). length data)") auto

declare ccmCbcMacUpdate.simps [simp del]

definition ccmMac :: "(bytes \<Rightarrow> bytes) \<Rightarrow> bytes \<Rightarrow> bytes \<Rightarrow> bytes \<Rightarrow> nat \<Rightarrow> bytes" where
  "ccmMac E nonce aad plaintext tagLen =
     (let L = 15 - length nonce;
          f0 = word_of_nat (L - 1) :: byte;
          f1 = (if 0 < length aad then f0 OR push_bit 6 1 else f0);
          flags = f1 OR word_of_nat ((tagLen - 2) div 2 * 8);
          b0 = writeAt 1 nonce (writeAt 0 [flags] (replicate 16 0));
          msgLen = word_of_nat (length plaintext) :: u64;
          b0' = fold (\<lambda>i o'. o'[16 - L + i := ucast (drop_bit (8 * (L - 1 - i)) msgLen)]) [0..<L] b0;
          x = E b0';
          x1 = (if 0 < length aad then ccmCbcMacUpdate E x (formatAAD aad) else x);
          x2 = ccmCbcMacUpdate E x1 plaintext
      in overlay x2 (replicate 16 0))"

primrec leIncr :: "bytes \<Rightarrow> bytes" where
  "leIncr [] = []"
| "leIncr (b # bs) = (if b + 1 \<noteq> 0 then (b + 1) # bs else 0 # leIncr bs)"

definition ctrIncr :: "bytes \<Rightarrow> bytes" where
  "ctrIncr iv = rev (leIncr (rev iv))"

function ctrXor :: "(bytes \<Rightarrow> bytes) \<Rightarrow> bytes \<Rightarrow> bytes \<Rightarrow> bytes" where
  "ctrXor E iv data =
     (if data = [] then []
      else xorBytes (take 16 data) (E iv) @ ctrXor E (ctrIncr iv) (drop 16 data))"
  by pat_completeness auto
termination
  by (relation "measure (\<lambda>(E, iv, data). length data)") auto

declare ctrXor.simps [simp del]

definition ccmDecrypt :: "bytes \<Rightarrow> bytes \<Rightarrow> bytes \<Rightarrow> bytes \<Rightarrow> bytes \<Rightarrow> bytes result" where
  "ccmDecrypt key nonce ciphertext tag aad =
     (if length nonce < 7 \<or> 13 < length nonce then Error (Msg ''ccm: invalid nonce length'')
      else if length tag \<noteq> 16 \<and> (length tag < 4 \<or> 16 < length tag \<or> length tag mod 2 \<noteq> 0)
      then Error (Msg ''ccm: invalid tag length'')
      else let L = 15 - length nonce in
      if L < 2 \<or> 8 < L then Error (Msg ''ccm: invalid nonce length'')
      else if (push_bit (8 * L) 1 :: u64) \<le> word_of_nat (length ciphertext)
      then Error (Msg ''ccm: message too large'')
      else case aes_NewCipher key of
        Error e \<Rightarrow> Error e
      | Panic s \<Rightarrow> Panic s
      | Ok block \<Rightarrow>
          (let E = aes_Encrypt block;
               a0 = writeAt 1 nonce (writeAt 0 [word_of_nat (L - 1)] (replicate 16 0));
               s0 = E a0;
               plain = ctrXor E (makeCCMIV nonce L 1) ciphertext;
               mac = ccmMac E nonce aad plain (length tag);
               mac' = writeAt 0 (xorBytes (take (length tag) mac) s0) mac
           in if take (length tag) mac' \<noteq> tag then Error (Msg ''ccm: authentication failed'')
              else Ok plain))"

subsection \<open>The specification\<close>

text \<open>Counter block \<open>i\<close>: flags, nonce and the counter in \<open>L\<close> big-endian bytes.\<close>

definition ctrBlock :: "bytes \<Rightarrow> nat \<Rightarrow> bytes" where
  "ctrBlock nonce i =
     (let L = 15 - length nonce in word_of_nat (L - 1) # nonce @ beBytes L i)"

text \<open>Counter mode from block \<open>i\<close> on.\<close>

function ccmCrypt :: "(bytes \<Rightarrow> bytes) \<Rightarrow> bytes \<Rightarrow> nat \<Rightarrow> bytes \<Rightarrow> bytes" where
  "ccmCrypt E nonce i data =
     (if data = [] then []
      else xorBytes (take 16 data) (E (ctrBlock nonce i)) @ ccmCrypt E nonce (i + 1) (drop 16 data))"
  by pat_completeness auto
termination
  by (relation "measure (\<lambda>(E, nonce, i, data). length data)") auto

declare ccmCrypt.simps [simp del]

definition padBlock :: "bytes \<Rightarrow> bytes" where
  "padBlock b = b @ replicate (16 - length b) 0"

function padBlocks :: "bytes \<Rightarrow> bytes list" where
  "padBlocks d = (if d = [] then [] else padBlock (take 16 d) # padBlocks (drop 16 d))"
  by pat_completeness auto
termination
  by (relation "measure length") auto

declare padBlocks.simps [simp del]

definition ccmFlags :: "bytes \<Rightarrow> bytes \<Rightarrow> nat \<Rightarrow> byte" where
  "ccmFlags nonce aad tagLen =
     (let L = 15 - length nonce
      in word_of_nat (64 * of_bool (aad \<noteq> []) + 8 * ((tagLen - 2) div 2) + (L - 1)))"

text \<open>The encoding of the length of the associated data: two, six or ten bytes (RFC 3610, section 2.2).\<close>

definition aadHeader :: "nat \<Rightarrow> bytes" where
  "aadHeader n =
     (if n < 65280 then beBytes 2 n
      else if n < 2 ^ 32 then [0xFF, 0xFE] @ beBytes 4 n
      else [0xFF, 0xFF] @ beBytes 8 n)"

definition ccmBlocks :: "bytes \<Rightarrow> bytes \<Rightarrow> bytes \<Rightarrow> nat \<Rightarrow> bytes list" where
  "ccmBlocks nonce aad p tagLen =
     (ccmFlags nonce aad tagLen # nonce @ beBytes (15 - length nonce) (length p)) #
     (if aad = [] then [] else padBlocks (aadHeader (length aad) @ aad)) @ padBlocks p"

definition cbcMac :: "(bytes \<Rightarrow> bytes) \<Rightarrow> bytes list \<Rightarrow> bytes" where
  "cbcMac E bs = fold (\<lambda>b x. E (xorBytes b x)) bs (replicate 16 0)"

definition ccmTag :: "(bytes \<Rightarrow> bytes) \<Rightarrow> bytes \<Rightarrow> bytes \<Rightarrow> bytes \<Rightarrow> nat \<Rightarrow> bytes" where
  "ccmTag E nonce aad p tagLen =
     take tagLen (xorBytes (cbcMac E (ccmBlocks nonce aad p tagLen)) (E (ctrBlock nonce 0)))"

definition ccmEncrypt :: "aesCipher \<Rightarrow> bytes \<Rightarrow> bytes \<Rightarrow> bytes \<Rightarrow> nat \<Rightarrow> bytes \<times> bytes" where
  "ccmEncrypt k nonce aad p tagLen =
     (ccmCrypt (aes_Encrypt k) nonce 1 p, ccmTag (aes_Encrypt k) nonce aad p tagLen)"

subsection \<open>Counter blocks\<close>

lemma fold_update_range:
  "a + n \<le> length o' \<Longrightarrow>
   fold (\<lambda>i o'. o'[a + i := f i]) [0..<n] o' = take a o' @ map f [0..<n] @ drop (a + n) o'"
proof (induction n)
  case 0
  then show ?case by simp
next
  case (Suc n)
  then have "drop (a + n) o' = o' ! (a + n) # drop (Suc (a + n)) o'"
    by (intro Cons_nth_drop_Suc [symmetric]) simp
  with Suc show ?case
    by (simp add: list_update_append min_def)
qed

lemma leBytes_nth: "i < n \<Longrightarrow> leBytes n k ! i = word_of_nat (k div 256 ^ i)"
proof (induction n arbitrary: i k)
  case 0
  then show ?case by simp
next
  case (Suc n)
  then show ?case
    by (cases i) (simp_all add: div_mult2_eq)
qed

lemma beBytes_map: "beBytes n k = map (\<lambda>i. word_of_nat (k div 256 ^ (n - 1 - i))) [0..<n]"
  by (rule nth_equalityI) (auto simp: beBytes_def rev_nth leBytes_nth)

lemma ucast_drop_bit_byte:
  "(ucast (drop_bit (8 * j) (w :: 'a::len word)) :: byte) = word_of_nat (unat w div 256 ^ j)"
proof -
  have "unat (drop_bit (8 * j) w) = drop_bit (8 * j) (unat w)"
    by (rule unat_drop_bit_eq)
  also have "\<dots> = unat w div 256 ^ j"
    by (simp add: drop_bit_eq_div power_mult)
  finally have "unat (drop_bit (8 * j) w) = unat w div 256 ^ j" .
  then show ?thesis
    by (metis of_nat_unat)
qed

lemma shift_bytes_be:
  "map (\<lambda>i. ucast (drop_bit (8 * (n - 1 - i)) (w :: 'a::len word)) :: byte) [0..<n] = beBytes n (unat w)"
  by (simp add: beBytes_map ucast_drop_bit_byte)

lemma leBytes_zero [simp]: "leBytes n 0 = replicate n 0"
  by (induction n) simp_all

lemma header_block:
  assumes "length nonce = 15 - L" "L \<le> 15"
  shows "writeAt 1 nonce (writeAt 0 [f :: byte] (replicate 16 0)) = f # nonce @ replicate L 0"
proof -
  have "writeAt 0 [f] (replicate 16 0) = [f] @ replicate (15 - L) 0 @ replicate L (0::byte)"
    using assms(2) by (simp add: writeAt_def overlay_def flip: replicate_add)
  then show ?thesis
    using writeAt_append [of "[f]" 1 "replicate (15 - L) 0" nonce "replicate L 0"] assms by simp
qed

lemma rev_put:
  "rev (put16 (ucast (c :: u32))) = beBytes 2 (unat c)" "rev (put32 c) = beBytes 4 (unat c)"
proof -
  have "leBytes 2 (unat c mod 256 ^ 2) = leBytes 2 (unat c)" by (rule leBytes_mod)
  moreover have "unat (ucast c :: u16) = unat c mod 256 ^ 2"
    by (simp add: unsigned_ucast_eq take_bit_eq_mod)
  ultimately show "rev (put16 (ucast c)) = beBytes 2 (unat c)"
    by (simp only: put16_def beBytes_def)
  show "rev (put32 c) = beBytes 4 (unat c)"
    by (simp add: put32_def beBytes_def)
qed

lemma tail_update:
  assumes "length nonce = 15 - L" "L \<le> 15"
  shows "fold (\<lambda>i o'. o'[16 - L + i := g i]) [0..<L] (f # nonce @ replicate L 0) = f # nonce @ map g [0..<L]"
proof -
  have "16 - L = length (f # nonce)" using assms by simp
  then show ?thesis
    using fold_update_range [of "16 - L" L "f # nonce @ replicate L 0" g] assms by simp
qed

lemma tail_write:
  assumes "length nonce = 15 - L" "L \<le> 15" "length b = L"
  shows "writeAt (16 - L) b (f # nonce @ replicate L 0) = f # nonce @ b"
  using writeAt_append [of "f # nonce" "16 - L" "replicate L 0" b "[]"] assms by simp

lemma makeCCMIV_block:
  assumes "length nonce = 15 - L" "2 \<le> L" "L \<le> 8"
  shows "makeCCMIV nonce L counter = word_of_nat (L - 1) # nonce @ beBytes L (unat counter)"
proof -
  have out: "writeAt 1 nonce (writeAt 0 [word_of_nat (L - 1)] (replicate 16 0)) =
      word_of_nat (L - 1) # nonce @ replicate L 0"
    using assms by (intro header_block) auto
  consider "L = 2" | "L = 3" | "L = 4" | "5 \<le> L" using assms by linarith
  then show ?thesis
  proof cases
    case 1
    then show ?thesis
      using tail_write [of nonce 2 "beBytes 2 (unat counter)"] assms
      unfolding makeCCMIV_def Let_def out rev_put by simp
  next
    case 2
    then have "[0..<L] = [0, 1, 2]" by (simp add: upt_rec)
    then have "(word_of_nat (L - 1) # nonce @ replicate L 0)
        [13 := ucast (drop_bit 16 counter), 14 := ucast (drop_bit 8 counter), 15 := ucast counter] =
      fold (\<lambda>i o'. o'[16 - L + i := ucast (drop_bit (8 * (L - 1 - i)) counter)]) [0..<L]
        (word_of_nat (L - 1) # nonce @ replicate L 0)"
      using 2 by simp
    also have "\<dots> = word_of_nat (L - 1) # nonce @ beBytes L (unat counter)"
      using assms unfolding shift_bytes_be [symmetric] by (intro tail_update) auto
    finally show ?thesis
      unfolding makeCCMIV_def Let_def out using 2 by simp
  next
    case 3
    then show ?thesis
      using tail_write [of nonce 4 "beBytes 4 (unat counter)"] assms
      unfolding makeCCMIV_def Let_def out rev_put by simp
  next
    case 4
    then have "makeCCMIV nonce L counter =
      fold (\<lambda>i o'. o'[16 - L + i := ucast (drop_bit (8 * (L - 1 - i)) counter)]) [0..<L]
        (word_of_nat (L - 1) # nonce @ replicate L 0)"
      unfolding makeCCMIV_def Let_def out by simp
    then show ?thesis
      using assms unfolding shift_bytes_be [symmetric] by (subst tail_update [symmetric]) auto
  qed
qed

lemma ctrBlock_iv:
  assumes "7 \<le> length nonce" "length nonce \<le> 13"
  shows "makeCCMIV nonce (15 - length nonce) counter = ctrBlock nonce (unat counter)"
  using makeCCMIV_block [of nonce "15 - length nonce" counter] assms
  by (simp add: ctrBlock_def Let_def)

lemma leIncr_leBytes:
  "k + 1 < 256 ^ n \<Longrightarrow> leIncr (leBytes n k @ rest) = leBytes n (k + 1) @ rest"
proof (induction n arbitrary: k)
  case 0
  then show ?case by simp
next
  case (Suc n)
  have w: "word_of_nat k + 1 = (word_of_nat (k + 1) :: byte)" by (simp add: add.commute)
  have z: "(word_of_nat (k + 1) :: byte) = 0 \<longleftrightarrow> (k + 1) mod 256 = 0"
    by (simp only: word_of_nat_eq_0_iff) (simp add: dvd_eq_mod_eq_0)
  show ?case
  proof (cases "(k + 1) mod 256 = 0")
    case True
    then have div: "(k + 1) div 256 = k div 256 + 1"
      by (simp add: div_Suc)
    have "(k + 1) div 256 < 256 ^ n"
      using Suc.prems by (intro less_mult_imp_div_less) (simp add: mult.commute)
    then have "k div 256 + 1 < 256 ^ n" by (simp only: div)
    then have "leIncr (leBytes n (k div 256) @ rest) = leBytes n (k div 256 + 1) @ rest"
      by (rule Suc.IH)
    moreover have "leIncr (leBytes (Suc n) k @ rest) = 0 # leIncr (leBytes n (k div 256) @ rest)"
      using z True w by (simp del: of_nat_Suc of_nat_add)
    moreover have "leBytes (Suc n) (k + 1) = 0 # leBytes n (k div 256 + 1)"
      using z True div by (simp del: of_nat_Suc of_nat_add)
    ultimately show ?thesis by simp
  next
    case False
    then have "(k + 1) div 256 = k div 256"
      by (simp add: div_Suc)
    with False show ?thesis using w z by (simp del: of_nat_Suc of_nat_add)
  qed
qed

lemma ctrIncr_block:
  "k + 1 < 256 ^ (15 - length nonce) \<Longrightarrow> ctrIncr (ctrBlock nonce k) = ctrBlock nonce (k + 1)"
  by (simp add: ctrIncr_def ctrBlock_def Let_def beBytes_def leIncr_leBytes)

subsection \<open>Counter mode and the CBC-MAC\<close>

lemma blocks_tail: "data \<noteq> [] \<Longrightarrow> (length data + 15) div 16 = Suc ((length (drop 16 data) + 15) div 16)"
proof (cases "length data \<le> 16")
  case True
  assume "data \<noteq> []"
  then have "1 \<le> length data" by (cases data) auto
  with True have "(length data + 15) div 16 = 1" by (intro div_nat_eqI) auto
  with True show ?thesis by simp
next
  case False
  then have "length data + 15 = (length (drop 16 data) + 15) + 16" by simp
  then show ?thesis by simp
qed

lemma ctrXor_ccmCrypt:
  "i + (length data + 15) div 16 \<le> 256 ^ (15 - length nonce) \<Longrightarrow>
   ctrXor E (ctrBlock nonce i) data = ccmCrypt E nonce i data"
proof (induction E nonce i data rule: ccmCrypt.induct)
  case (1 E nonce i data)
  show ?case
  proof (cases "data = []")
    case True
    then show ?thesis by (simp add: ctrXor.simps ccmCrypt.simps)
  next
    case False
    note tail = blocks_tail [OF False]
    have "ctrXor E (ctrIncr (ctrBlock nonce i)) (drop 16 data) = ccmCrypt E nonce (i + 1) (drop 16 data)"
    proof (cases "drop 16 data = []")
      case True
      then show ?thesis by (simp add: ctrXor.simps ccmCrypt.simps)
    next
      case more: False
      then have "1 \<le> (length (drop 16 data) + 15) div 16" using blocks_tail [OF more] by linarith
      with "1.prems" tail have "i + 1 < 256 ^ (15 - length nonce)" by linarith
      then have "ctrIncr (ctrBlock nonce i) = ctrBlock nonce (i + 1)" by (rule ctrIncr_block)
      with "1.IH" [OF False] "1.prems" tail show ?thesis by simp
    qed
    with False show ?thesis
      by (simp add: ctrXor.simps [of E _ data] ccmCrypt.simps [of E nonce i data])
  qed
qed

lemma padBlocks_Nil [simp]: "padBlocks [] = []"
  by (simp add: padBlocks.simps)

lemma length_ccmCrypt:
  "(\<And>b. length b = 16 \<Longrightarrow> length (E b) = 16) \<Longrightarrow> length nonce \<le> 14 \<Longrightarrow>
   length (ccmCrypt E nonce i data) = length data"
proof (induction E nonce i data rule: ccmCrypt.induct)
  case (1 E nonce i data)
  have "length (ctrBlock nonce i) = 16" using "1.prems"(2) by (simp add: ctrBlock_def Let_def)
  then have "length (E (ctrBlock nonce i)) = 16" by (rule "1.prems"(1))
  with 1 show ?case by (simp add: ccmCrypt.simps [of E nonce i data] min_def)
qed

lemma split_block: "length b = 16 \<Longrightarrow> take 16 (b @ r) = b \<and> drop 16 (b @ r) = r"
  by simp

lemma ccmCrypt_involution:
  "(\<And>b. length b = 16 \<Longrightarrow> length (E b) = 16) \<Longrightarrow> length nonce \<le> 14 \<Longrightarrow>
   ccmCrypt E nonce i (ccmCrypt E nonce i data) = data"
proof (induction E nonce i data rule: ccmCrypt.induct)
  case (1 E nonce i data)
  have "length (ctrBlock nonce i) = 16" using "1.prems"(2) by (simp add: ctrBlock_def Let_def)
  then have E: "length (E (ctrBlock nonce i)) = 16" by (rule "1.prems"(1))
  show ?case
  proof (cases "data = []")
    case True
    then show ?thesis by (simp add: ccmCrypt.simps)
  next
    case False
    let ?b = "xorBytes (take 16 data) (E (ctrBlock nonce i))"
    let ?r = "ccmCrypt E nonce (i + 1) (drop 16 data)"
    have b: "take 16 (?b @ ?r) = ?b \<and> drop 16 (?b @ ?r) = ?r"
    proof (cases "length data < 16")
      case True
      then have "drop 16 data = []" by simp
      then have "?r = []" by (simp only: ccmCrypt.simps [of E nonce "i + 1" "[]"] if_True refl)
      moreover have "length ?b \<le> 16" using E by simp
      ultimately show ?thesis by (simp only: append_Nil2 take_all drop_all)
    next
      case False
      then have "length ?b = 16" using E by simp
      then show ?thesis by (rule split_block)
    qed
    have "length ?b \<noteq> 0" using False E by simp
    then have ne: "?b @ ?r \<noteq> []" by (simp only: append_is_Nil_conv length_0_conv) simp
    have "ccmCrypt E nonce i data = ?b @ ?r"
      using False by (simp add: ccmCrypt.simps [of E nonce i data])
    moreover have "ccmCrypt E nonce i (?b @ ?r) =
        xorBytes ?b (E (ctrBlock nonce i)) @ ccmCrypt E nonce (i + 1) ?r"
      by (subst ccmCrypt.simps) (simp only: ne b if_False refl)
    moreover have "ccmCrypt E nonce (i + 1) ?r = drop 16 data"
      by (rule "1.IH" [OF False "1.prems"])
    moreover have "xorBytes ?b (E (ctrBlock nonce i)) = take 16 data"
      using E by simp
    ultimately show ?thesis by simp
  qed
qed

lemma padBlock_write: "length d \<le> 16 \<Longrightarrow> writeAt 0 d (replicate 16 0) = padBlock d"
  by (simp add: writeAt_def overlay_def padBlock_def)

lemma ccmCbcMacUpdate_fold:
  "ccmCbcMacUpdate E x data = fold (\<lambda>b x. E (xorBytes b x)) (padBlocks data) x"
proof (induction data arbitrary: x rule: padBlocks.induct)
  case (1 data)
  show ?case
  proof (cases "data = []")
    case True
    then show ?thesis by (simp add: ccmCbcMacUpdate.simps padBlocks.simps)
  next
    case False
    have "take (if length data < 16 then length data else 16) data = take 16 data" by simp
    then have tmp: "writeAt 0 (take (if length data < 16 then length data else 16) data) (replicate 16 0)
        = padBlock (take 16 data)"
      by (simp add: padBlock_write)
    let ?x = "E (xorBytes (padBlock (take 16 data)) x)"
    have "ccmCbcMacUpdate E x data =
      (if length data \<le> 16 then ?x else ccmCbcMacUpdate E ?x (drop 16 data))"
      using False by (subst ccmCbcMacUpdate.simps) (simp only: tmp Let_def if_False)
    also have "\<dots> = ccmCbcMacUpdate E ?x (drop 16 data)"
      by (simp add: ccmCbcMacUpdate.simps [of E _ "[]"])
    also have "\<dots> = fold (\<lambda>b x. E (xorBytes b x)) (padBlocks (drop 16 data)) ?x"
      by (rule "1.IH" [OF False])
    finally show ?thesis
      using False by (simp add: padBlocks.simps [of data])
  qed
qed

lemma padBlocks_padding:
  "length d mod 16 \<noteq> 0 \<Longrightarrow> padBlocks (d @ replicate (16 - length d mod 16) 0) = padBlocks d"
proof (induction d rule: padBlocks.induct)
  case (1 d)
  then have ne: "d \<noteq> []" by auto
  show ?case
  proof (cases "length d < 16")
    case True
    then have "d @ replicate (16 - length d mod 16) 0 = padBlock d" "length (padBlock d) = 16"
      "padBlock (padBlock d) = padBlock d" "padBlock d \<noteq> []"
      using ne by (simp_all add: padBlock_def)
    then show ?thesis
      using True ne
      by (simp add: padBlocks.simps [of d] padBlocks.simps [of "padBlock d"] padBlocks.simps [of "[]"])
  next
    case False
    then have m: "length (drop 16 d) mod 16 = length d mod 16"
      by (simp add: le_mod_geq)
    with "1.IH" [OF ne] "1.prems"
    have "padBlocks (drop 16 d @ replicate (16 - length d mod 16) 0) = padBlocks (drop 16 d)"
      by simp
    with False ne show ?thesis
      by (simp add: padBlocks.simps [of d] padBlocks.simps [of "d @ _"])
  qed
qed

lemma padBlocks_formatAAD: "padBlocks (formatAAD aad) = padBlocks (beBytes 2 (length aad) @ aad)"
proof -
  have "put16 (word_of_nat (length aad)) = leBytes 2 (length aad)"
    using leBytes_mod [of 2 "length aad"] by (simp add: put16_def unat_of_nat)
  then have "rev (put16 (word_of_nat (length aad))) = beBytes 2 (length aad)"
    by (simp add: beBytes_def)
  then show ?thesis
    using padBlocks_padding [of "beBytes 2 (length aad) @ aad"]
    by (auto simp: formatAAD_def Let_def)
qed

subsection \<open>The tag\<close>

lemma ccmFlags_code:
  assumes "L \<in> set [2..<9]" "t \<in> {4, 6, 8, 10, 12, 14, 16}"
  shows "(if a then word_of_nat (L - 1) OR push_bit 6 1 else word_of_nat (L - 1)) OR
      word_of_nat ((t - 2) div 2 * 8) =
    (word_of_nat (64 * of_bool a + 8 * ((t - 2) div 2) + (L - 1)) :: byte)"
proof -
  have "L \<in> {2, 3, 4, 5, 6, 7, 8}" using assms(1) by auto
  with assms(2) show ?thesis
    by (elim insertE emptyE; cases a; simp)
qed

definition tagLenOk :: "nat \<Rightarrow> bool" where
  "tagLenOk t \<longleftrightarrow> t \<in> {4, 6, 8, 10, 12, 14, 16}"

lemma tagLenOk_cases: "tagLenOk t \<Longrightarrow> t \<in> {4, 6, 8, 10, 12, 14, 16}"
  by (simp add: tagLenOk_def)

lemma tagLenOk_code: "(t \<noteq> 16 \<and> (t < 4 \<or> 16 < t \<or> t mod 2 \<noteq> 0)) \<longleftrightarrow> \<not> tagLenOk t"
  unfolding tagLenOk_def by (simp, presburger)

lemma length_cbcMac:
  assumes "\<And>b. length b = 16 \<Longrightarrow> length (E b) = 16"
    and "\<forall>b \<in> set bs. length b = 16"
  shows "length (cbcMac E bs) = 16"
proof -
  have "length (fold (\<lambda>b x. E (xorBytes b x)) bs x) = 16" if "length x = 16" for x
    using that assms(2)
    by (induction bs arbitrary: x) (simp_all add: assms(1))
  then show ?thesis by (simp add: cbcMac_def)
qed

lemma padBlocks_lengths: "\<forall>b \<in> set (padBlocks d). length b = 16"
proof (induction d rule: padBlocks.induct)
  case (1 d)
  then show ?case
    by (cases "d = []") (auto simp: padBlocks.simps [of d] padBlock_def)
qed

lemma ccmMac_cbcMac:
  assumes E: "\<And>b. length b = 16 \<Longrightarrow> length (E b) = 16"
    and "7 \<le> length nonce" "length nonce \<le> 13" "tagLenOk t" "length p < 2 ^ 64" "length aad < 65280"
  shows "ccmMac E nonce aad p t = cbcMac E (ccmBlocks nonce aad p t)"
    and "length (ccmMac E nonce aad p t) = 16"
proof -
  define L where "L = 15 - length nonce"
  have L: "L \<in> set [2..<9]" "length nonce = 15 - L" "L \<le> 15" using assms by (auto simp: L_def)
  define fl where "fl = (if 0 < length aad then word_of_nat (L - 1) OR push_bit 6 1
      else word_of_nat (L - 1)) OR (word_of_nat ((t - 2) div 2 * 8) :: byte)"
  have fl: "fl = ccmFlags nonce aad t"
    using ccmFlags_code [OF L(1) tagLenOk_cases [OF assms(4)], of "aad \<noteq> []"]
    by (simp add: fl_def ccmFlags_def Let_def L_def)
  have msg: "unat (word_of_nat (length p) :: u64) = length p"
    using assms(5) by (simp add: unat_of_nat)
  have b0: "fold (\<lambda>i o'. o'[16 - L + i := ucast (drop_bit (8 * (L - 1 - i)) (word_of_nat (length p) :: u64))])
      [0..<L] (writeAt 1 nonce (writeAt 0 [fl] (replicate 16 0))) = fl # nonce @ beBytes L (length p)"
    unfolding header_block [OF L(2,3)] tail_update [OF L(2,3)] shift_bytes_be msg ..
  define B0 where "B0 = fl # nonce @ beBytes L (length p)"
  have lenB0: "length B0 = 16" using L by (simp add: B0_def)
  define bs where "bs = (if aad = [] then [] else padBlocks (beBytes 2 (length aad) @ aad)) @ padBlocks p"
  have blocks: "ccmBlocks nonce aad p t = B0 # bs"
    using assms(6) by (simp add: ccmBlocks_def aadHeader_def B0_def bs_def fl L_def)
  have xor0: "xorBytes B0 (replicate 16 0) = B0"
    using lenB0 by (auto intro!: nth_equalityI simp: nth_xorBytes)
  have code: "ccmMac E nonce aad p t = overlay (fold (\<lambda>b x. E (xorBytes b x)) bs (E B0)) (replicate 16 0)"
    unfolding ccmMac_def Let_def L_def [symmetric] fl_def [symmetric] b0 B0_def [symmetric]
    by (simp add: ccmCbcMacUpdate_fold padBlocks_formatAAD bs_def)
  have spec: "cbcMac E (ccmBlocks nonce aad p t) = fold (\<lambda>b x. E (xorBytes b x)) bs (E B0)"
    by (simp add: cbcMac_def blocks xor0)
  have "\<forall>b \<in> set (ccmBlocks nonce aad p t). length b = 16"
    using padBlocks_lengths lenB0 by (auto simp: blocks bs_def)
  note len = length_cbcMac [where E = E, OF E this]
  with code spec show "ccmMac E nonce aad p t = cbcMac E (ccmBlocks nonce aad p t)"
    by simp
  with len show "length (ccmMac E nonce aad p t) = 16" by simp
qed

subsection \<open>Decryption accepts exactly the encryptions\<close>

lemma ccm_size_check:
  assumes "n < 2 ^ 64" "2 \<le> L" "L \<le> 7"
  shows "(push_bit (8 * L) 1 :: u64) \<le> word_of_nat n \<longleftrightarrow> 256 ^ L \<le> n"
proof -
  have lt: "(2::nat) ^ (8 * L) < 2 ^ 64"
    using assms by (intro power_strict_increasing) auto
  have "(push_bit (8 * L) 1 :: u64) = word_of_nat (2 ^ (8 * L))"
    by (simp add: push_bit_eq_mult)
  moreover have "unat (word_of_nat (2 ^ (8 * L)) :: u64) = 2 ^ (8 * L)"
    using lt by (simp only: unat_of_nat) simp
  ultimately have "unat (push_bit (8 * L) 1 :: u64) = 2 ^ (8 * L)"
    by (simp only:)
  moreover have "unat (word_of_nat n :: u64) = n"
    using assms(1) by (simp add: unat_of_nat)
  ultimately show ?thesis
    by (simp only: word_le_nat_alt power_mult) simp
qed

text \<open>What the code computes once its checks have passed.\<close>

lemma ccmDecrypt_unfold:
  assumes "8 \<le> length nonce" "length nonce \<le> 13" "tagLenOk (length tag)"
    and "length ct < 256 ^ (15 - length nonce)" "aes_NewCipher key = Ok k" "length aad < 65280"
  shows "ccmDecrypt key nonce ct tag aad =
    (let p = ccmCrypt (aes_Encrypt k) nonce 1 ct in
     if ccmTag (aes_Encrypt k) nonce aad p (length tag) \<noteq> tag
     then Error (Msg ''ccm: authentication failed'') else Ok p)"
proof -
  let ?E = "aes_Encrypt k"
  define L where "L = 15 - length nonce"
  have L: "2 \<le> L" "L \<le> 7" "\<not> (L < 2 \<or> 8 < L)" "length nonce = 15 - L" using assms by (auto simp: L_def)
  have E: "length b = 16 \<Longrightarrow> length (?E b) = 16" for b
    using aes.length_Encrypt [OF aes_NewCipher_wf [OF assms(5)]] .
  have "(256::nat) ^ L \<le> 256 ^ 7" using L by (intro power_increasing) auto
  then have ct: "length ct < 2 ^ 64" "length ct < 256 ^ L" using assms(4) L_def by auto
  have size: "\<not> (push_bit (8 * L) 1 :: u64) \<le> word_of_nat (length ct)"
    using ccm_size_check [OF ct(1) L(1,2)] ct(2) by simp
  have iv: "makeCCMIV nonce L 1 = ctrBlock nonce 1"
    using ctrBlock_iv [of nonce 1] assms by (simp add: L_def)
  have "1 + (length ct + 15) div 16 \<le> 256 ^ L"
  proof (cases "length ct = 0")
    case False
    then have "(length ct + 15) div 16 \<le> length ct" by simp
    with ct show ?thesis by simp
  qed simp
  then have plain: "ctrXor ?E (makeCCMIV nonce L 1) ct = ccmCrypt ?E nonce 1 ct"
    unfolding iv by (intro ctrXor_ccmCrypt) (simp add: L_def)
  have a0: "writeAt 1 nonce (writeAt 0 [word_of_nat (L - 1)] (replicate 16 0)) = ctrBlock nonce 0"
    using L by (subst header_block) (auto simp: ctrBlock_def Let_def beBytes_def rev_replicate)
  define p where "p = ccmCrypt ?E nonce 1 ct"
  have lp: "length p < 2 ^ 64" using length_ccmCrypt [where E = ?E and nonce = nonce and i = 1 and data = ct, OF E] assms ct by (simp add: p_def)
  note mac = ccmMac_cbcMac [where E = ?E and aad = aad, OF E _ assms(2) assms(3) lp assms(6)]
  have t: "length tag \<le> 16" using assms(3) by (auto simp: tagLenOk_def)
  have s0: "length (?E (ctrBlock nonce 0)) = 16"
    using L by (intro E) (simp add: ctrBlock_def Let_def)
  have "take (length tag) (writeAt 0 (xorBytes (take (length tag) m) s) m) = take (length tag) (xorBytes m s)"
    if "length m = 16" "length s = 16" for m s
    using that t by (simp add: writeAt_def overlay_def xorBytes_def take_zip take_map)
  then have tag: "take (length tag) (writeAt 0 (xorBytes (take (length tag) (ccmMac ?E nonce aad p (length tag)))
      (?E (ctrBlock nonce 0))) (ccmMac ?E nonce aad p (length tag))) = ccmTag ?E nonce aad p (length tag)"
    using mac s0 assms(1) by (simp add: ccmTag_def)
  have chk: "\<not> (length nonce < 7 \<or> 13 < length nonce)"
    "\<not> (length tag \<noteq> 16 \<and> (length tag < 4 \<or> 16 < length tag \<or> length tag mod 2 \<noteq> 0))"
    using assms by (auto simp: tagLenOk_def)
  show ?thesis
    unfolding ccmDecrypt_def Let_def L_def [symmetric]
    by (simp only: chk L(3) size if_False assms(5) result.case a0 plain p_def [symmetric] tag)
qed

lemma ccm_accepts:
  assumes "8 \<le> length nonce" "length nonce \<le> 13" "tagLenOk (length tag)"
    and "length ct < 256 ^ (15 - length nonce)" "aes_NewCipher key = Ok k" "length aad < 65280"
  shows "ccmDecrypt key nonce ct tag aad = Ok p \<longleftrightarrow> ccmEncrypt k nonce aad p (length tag) = (ct, tag)"
proof -
  have E: "length b = 16 \<Longrightarrow> length (aes_Encrypt k b) = 16" for b
    using aes.length_Encrypt [OF aes_NewCipher_wf [OF assms(5)]] .
  have inv: "ccmCrypt (aes_Encrypt k) nonce 1 (ccmCrypt (aes_Encrypt k) nonce 1 d) = d" for d
    by (rule ccmCrypt_involution [where E = "aes_Encrypt k", OF E]) (use assms in auto)
  then show ?thesis
    unfolding ccmDecrypt_unfold [OF assms] ccmEncrypt_def Let_def by (auto simp: inv)
qed

text \<open>What a caller sees in every case that the length checks let through.\<close>

lemma ccm_decides:
  assumes "8 \<le> length nonce" "length nonce \<le> 13" "tagLenOk (length tag)"
    and "length ct < 256 ^ (15 - length nonce)" "aes_NewCipher key = Ok k" "length aad < 65280"
  shows "ccmDecrypt key nonce ct tag aad =
    (let p = ccmCrypt (aes_Encrypt k) nonce 1 ct in
     if ccmEncrypt k nonce aad p (length tag) = (ct, tag) then Ok p
     else Error (Msg ''ccm: authentication failed''))"
  using ccmDecrypt_unfold [OF assms] ccm_accepts [OF assms]
  by (auto simp: Let_def split: if_splits)

lemma ccmBlocks_lengths: "length nonce \<le> 14 \<Longrightarrow> \<forall>b \<in> set (ccmBlocks nonce aad p t). length b = 16"
  using padBlocks_lengths by (auto simp: ccmBlocks_def)

lemma ccmEncrypt_lengths:
  assumes "aes_wf k" "length nonce \<le> 13" "tagLenOk t" "ccmEncrypt k nonce aad p t = (ct, tag)"
  shows "length ct = length p" "length tag = t"
proof -
  have E: "length b = 16 \<Longrightarrow> length (aes_Encrypt k b) = 16" for b
    by (rule aes.length_Encrypt [OF assms(1)])
  then have s0: "length (aes_Encrypt k (ctrBlock nonce 0)) = 16"
    using assms(2) by (intro E) (simp add: ctrBlock_def Let_def)
  note mac = length_cbcMac [where E = "aes_Encrypt k", OF E ccmBlocks_lengths [of nonce aad p t]]
  show "length ct = length p"
    using assms(2,4) length_ccmCrypt [where E = "aes_Encrypt k" and nonce = nonce and i = 1 and data = p, OF E]
    by (auto simp: ccmEncrypt_def)
  show "length tag = t"
    using assms(2-4) mac s0 by (auto simp: ccmEncrypt_def ccmTag_def tagLenOk_def)
qed

text \<open>A nonce of 7 bytes, which the comment of the function admits, is always refused as a message
  that is too large: the bound \<open>1 << 64\<close> wraps to 0.\<close>

theorem ccmDecrypt_nonce7_refused:
  assumes "length nonce = 7" "tagLenOk (length tag)"
  shows "ccmDecrypt key nonce ct tag aad = Error (Msg ''ccm: message too large'')"
proof -
  have zero: "(push_bit 64 1 :: u64) = 0" by simp
  have le: "(push_bit n 1 :: u64) \<le> w" if "n = 64" for n w
    unfolding that zero by (rule word_zero_le)
  have "8 * (15 - length nonce) = 64" using assms(1) by simp
  from le [OF this] assms show ?thesis unfolding ccmDecrypt_def tagLenOk_code Let_def by auto
qed

theorem ccmDecrypt_nonce7_refused_witness:
  "ccmDecrypt [] (replicate 7 0) [] (replicate 16 0) [] = Error (Msg ''ccm: message too large'')"
  using ccmDecrypt_nonce7_refused [of "replicate 7 0" "replicate 16 0"] by (simp add: tagLenOk_def)

text \<open>The length checks, from their outcome.\<close>

lemma ccmDecrypt_checks:
  assumes "ccmDecrypt key nonce ct tag aad = Ok p" "length ct < 2 ^ 64"
  shows "8 \<le> length nonce" "length nonce \<le> 13" "tagLenOk (length tag)"
    "length ct < 256 ^ (15 - length nonce)" "\<exists>k. aes_NewCipher key = Ok k"
proof -
  have c: "7 \<le> length nonce" "length nonce \<le> 13" "tagLenOk (length tag)"
    "\<not> (push_bit (8 * (15 - length nonce)) 1 :: u64) \<le> word_of_nat (length ct)"
    "\<exists>k. aes_NewCipher key = Ok k"
    using assms(1) unfolding ccmDecrypt_def tagLenOk_code Let_def
    by (auto simp del: push_bit_of_1 split: if_splits result.splits)
  then show "length nonce \<le> 13" "tagLenOk (length tag)" "\<exists>k. aes_NewCipher key = Ok k" by simp_all
  have "length nonce \<noteq> 7" using ccmDecrypt_nonce7_refused [OF _ c(3)] assms(1) by auto
  with c(1) show 8: "8 \<le> length nonce" by simp
  with ccm_size_check [OF assms(2), of "15 - length nonce"] c(2,4)
  show "length ct < 256 ^ (15 - length nonce)" by simp
qed

lemma if_flip: "(if x \<noteq> y then a else b) = (if y = x then b else a)"
  by auto

text \<open>For each admissible length the code compares with one tag, whatever the associated data.\<close>

lemma ccmDecrypt_tags:
  assumes "8 \<le> length nonce" "length nonce \<le> 13" "length ct < 256 ^ (15 - length nonce)" "aes_NewCipher key = Ok k"
  shows "\<exists>plain T. (\<forall>n. tagLenOk n \<longrightarrow> length (T n) = n) \<and>
    (\<forall>tag. ccmDecrypt key nonce ct tag aad =
       (if \<not> tagLenOk (length tag) then Error (Msg ''ccm: invalid tag length'')
        else if tag = T (length tag) then Ok plain
        else Error (Msg ''ccm: authentication failed'')))"
proof -
  define L where "L = 15 - length nonce"
  have L: "2 \<le> L" "L \<le> 7" "\<not> (L < 2 \<or> 8 < L)" using assms by (auto simp: L_def)
  have nonce: "\<not> (length nonce < 7 \<or> 13 < length nonce)" using assms by simp
  have "(256::nat) ^ L \<le> 256 ^ 7" using L by (intro power_increasing) auto
  then have ct: "length ct < 2 ^ 64" "length ct < 256 ^ L" using assms(3) L_def by auto
  have size: "\<not> (push_bit (8 * L) 1 :: u64) \<le> word_of_nat (length ct)"
    using ccm_size_check [OF ct(1) L(1,2)] ct(2) by simp
  let ?E = "aes_Encrypt k"
  let ?plain = "ctrXor ?E (makeCCMIV nonce L 1) ct"
  let ?s0 = "?E (writeAt 1 nonce (writeAt 0 [word_of_nat (L - 1)] (replicate 16 0)))"
  let ?mac = "\<lambda>n. ccmMac ?E nonce aad ?plain n"
  let ?T = "\<lambda>n. take n (writeAt 0 (xorBytes (take n (?mac n)) ?s0) (?mac n))"
  have mac: "length (?mac n) = 16" for n by (simp add: ccmMac_def Let_def)
  have "length (?T n) = n" if "tagLenOk n" for n
  proof -
    have "n \<le> 16" using tagLenOk_cases [OF that] by auto
    then show ?thesis by (simp add: mac)
  qed
  then have "\<forall>n. tagLenOk n \<longrightarrow> length (?T n) = n" by blast
  moreover have "\<forall>tag. ccmDecrypt key nonce ct tag aad =
      (if \<not> tagLenOk (length tag) then Error (Msg ''ccm: invalid tag length'')
       else if tag = ?T (length tag) then Ok ?plain
       else Error (Msg ''ccm: authentication failed''))"
    unfolding ccmDecrypt_def Let_def L_def [symmetric] tagLenOk_code
    by (simp only: nonce L(3) size if_False assms(4) result.case if_flip) simp
  ultimately show ?thesis by (intro exI [of _ ?plain] exI [of _ ?T]) (rule conjI)
qed

subsection \<open>Properties\<close>

text \<open>C12: \<open>ccmDecrypt\<close> accepts exactly the AES-CCM encryptions. For associated data of less than 65280
  bytes (the code writes only the two-byte length, as its comment says; the package passes none)
  it returns a plaintext if and only if the key is an AES key, the nonce has 8 to 13 bytes, the tag an
  admissible length, the message fits its length field, and ciphertext and tag are the encryption
  of that plaintext under RFC 3610. Nonces of 7 bytes are among what it never accepts.\<close>

theorem ccmDecrypt_iff_ccmEncrypt:
  assumes "length aad < 65280" "length ct < 2 ^ 63"
  shows "ccmDecrypt key nonce ct tag aad = Ok p \<longleftrightarrow>
    8 \<le> length nonce \<and> length nonce \<le> 13 \<and> length tag \<in> {4, 6, 8, 10, 12, 14, 16} \<and>
    length ct < 256 ^ (15 - length nonce) \<and>
    (\<exists>k. aes_NewCipher key = Ok k \<and> ccmEncrypt k nonce aad p (length tag) = (ct, tag))"
proof -
  have "length ct < 2 ^ 64" using assms(2) by simp
  from ccmDecrypt_checks [OF _ this] ccm_accepts [OF _ _ _ _ _ assms(1)] show ?thesis
    unfolding tagLenOk_def by metis
qed

theorem ccmDecrypt_iff_ccmEncrypt_witness:
  "\<exists>k ct tag. aes_NewCipher (replicate 16 3) = Ok k \<and>
     ccmEncrypt k (replicate 12 1) [5, 6] (replicate 20 2) 16 = (ct, tag) \<and>
     ccmDecrypt (replicate 16 3) (replicate 12 1) ct tag [5, 6] = Ok (replicate 20 2)"
proof -
  obtain k where k: "aes_NewCipher (replicate 16 3) = Ok k"
    using aes_NewCipher_Ok [of "replicate 16 3"] by auto
  obtain ct tag where e: "ccmEncrypt k (replicate 12 1) [5, 6] (replicate 20 2) 16 = (ct, tag)" by fastforce
  then have "length ct = 20" "length tag = 16"
    using ccmEncrypt_lengths [OF aes_NewCipher_wf [OF k] _ _ e] by (simp_all add: tagLenOk_def)
  with e k ccmDecrypt_iff_ccmEncrypt [of "[5, 6]" ct "replicate 16 3" "replicate 12 1" tag "replicate 20 2"]
  show ?thesis by auto
qed

text \<open>C28: A forged tag never yields plaintext. Under an AES key, a nonce of 8 to 13 bytes, a ciphertext that
  fits the length field and associated data of any length there is exactly one accepted tag of each
  admissible length; every other tag of such a length gets the authentication error, and a tag of
  another length the length error.\<close>

theorem ccmDecrypt_one_tag:
  assumes "8 \<le> length nonce" "length nonce \<le> 13" "length ct < 256 ^ (15 - length nonce)" "aes_NewCipher key = Ok k"
  shows "\<exists>plain T. (\<forall>n \<in> {4, 6, 8, 10, 12, 14, 16}. length (T n) = n) \<and>
    (\<forall>tag. ccmDecrypt key nonce ct tag aad =
       (if length tag \<notin> {4, 6, 8, 10, 12, 14, 16} then Error (Msg ''ccm: invalid tag length'')
        else if tag = T (length tag) then Ok plain
        else Error (Msg ''ccm: authentication failed'')))"
  using ccmDecrypt_tags [OF assms, of aad, unfolded tagLenOk_def] by (simp only: Ball_def)

theorem ccmDecrypt_one_tag_witness:
  "\<exists>ct tag. ccmDecrypt (replicate 16 3) (replicate 12 1) ct tag [] = Ok (replicate 20 2) \<and>
     (\<forall>tag'. length tag' = 16 \<and> tag' \<noteq> tag \<longrightarrow>
        ccmDecrypt (replicate 16 3) (replicate 12 1) ct tag' [] = Error (Msg ''ccm: authentication failed'')) \<and>
     ccmDecrypt (replicate 16 3) (replicate 12 1) ct (tl tag) [] = Error (Msg ''ccm: invalid tag length'')"
proof -
  obtain k where k: "aes_NewCipher (replicate 16 3) = Ok k"
    using aes_NewCipher_Ok [of "replicate 16 3"] by auto
  obtain ct tag where e: "ccmEncrypt k (replicate 12 1) [] (replicate 20 2) 16 = (ct, tag)" by fastforce
  then have len: "length ct = 20" "length tag = 16"
    using ccmEncrypt_lengths [OF aes_NewCipher_wf [OF k] _ _ e] by (simp_all add: tagLenOk_def)
  with e k ccm_accepts [of "replicate 12 1" tag ct "replicate 16 3" k "[]" "replicate 20 2"]
  have ok: "ccmDecrypt (replicate 16 3) (replicate 12 1) ct tag [] = Ok (replicate 20 2)"
    by (simp add: tagLenOk_def)
  obtain plain T where t: "ccmDecrypt (replicate 16 3) (replicate 12 1) ct x [] =
       (if length x \<notin> {4, 6, 8, 10, 12, 14, 16} then Error (Msg ''ccm: invalid tag length'')
        else if x = T (length x) then Ok plain else Error (Msg ''ccm: authentication failed''))" for x
    using ccmDecrypt_one_tag [of "replicate 12 1" ct "replicate 16 3" k "[]"] k len by auto
  have "tag = T 16" using ok t [of tag] len by (simp split: if_splits)
  then show ?thesis using ok len t by (intro exI [of _ ct] exI [of _ tag]) auto
qed

end
