(* ===== verification/GoIO.thy ===== *)
theory GoIO
  imports Prelude
begin

section \<open>Random-access sources and section readers (\<open>readerat.go\<close>, \<open>scan.go\<close>)\<close>

text \<open>
  The volume is read through \<open>io.ReaderAt\<close>, an interface the caller implements: a reader is
  a parameter of the model, a record of its \<open>ReadAt\<close> behaviour and of the optional \<open>Size\<close>
  method \<open>scan.go\<close> asks for. \<open>ReadAt\<close> below is that behaviour with the documented contract
  of \<open>io.ReaderAt\<close> built in: at most \<open>len(p)\<close> bytes, and a non-nil error whenever fewer.
  A reader that keeps the contract is left as it is (\<open>ReadAt_conforming\<close>).

  \<open>bytesReader\<close> is the standard library's \<open>bytes.Reader\<close>, \<open>sectionReader\<close> its
  \<open>io.SectionReader\<close>, \<open>readFull\<close> is \<open>io.ReadFull\<close> on a section reader, which is also how
  \<open>encoding/binary.Read\<close> fetches a struct. \<open>takeFull\<close> is \<open>io.ReadFull\<close> on a \<open>bytes.Reader\<close>
  used as a stream.
\<close>

subsection \<open>\<open>io.ReaderAt\<close>\<close>

record reader =
  rd_at :: "int \<Rightarrow> nat \<Rightarrow> bytes \<times> goerr option"
  rd_size :: "int option"

definition ReadAt :: "reader \<Rightarrow> int \<Rightarrow> nat \<Rightarrow> bytes \<times> goerr option" where
  "ReadAt r off n =
     (let (d, e) = rd_at r off n in
      if length d < n \<and> e = None then (d, Some (ReadErr ''short read without an error''))
      else (take n d, e))"

text \<open>The contract as an interface: what the client code relies on of a source.\<close>

locale readerAt =
  fixes readAt :: "int \<Rightarrow> nat \<Rightarrow> bytes \<times> goerr option"
  assumes at_most: "length (fst (readAt off n)) \<le> n"
    and short_has_error: "snd (readAt off n) = None \<Longrightarrow> length (fst (readAt off n)) = n"

interpretation rd: readerAt "ReadAt r" for r
  by unfold_locales (auto simp: ReadAt_def Let_def split: prod.splits if_splits)

lemma ReadAt_length: "ReadAt r off n = (d, None) \<Longrightarrow> length d = n"
  using rd.short_has_error [of r off n] by simp

lemma ReadAt_at_most: "ReadAt r off n = (d, e) \<Longrightarrow> length d \<le> n"
  using rd.at_most [of r off n] by simp

lemma ReadAt_conforming:
  "readerAt (rd_at r) \<Longrightarrow> ReadAt r off n = rd_at r off n"
  using readerAt.at_most [of "rd_at r" off n] readerAt.short_has_error [of "rd_at r" off n]
  by (auto simp: ReadAt_def split: prod.splits)

text \<open>\<open>scan.go\<close>: the size, for a reader that has a \<open>Size\<close> method.\<close>

definition readerSize :: "reader \<Rightarrow> int \<times> bool" where
  "readerSize r = (case rd_size r of Some n \<Rightarrow> (n, True) | None \<Rightarrow> (0, False))"

subsection \<open>Readers over a byte string\<close>

definition bytesReader :: "bytes \<Rightarrow> reader" where
  "bytesReader data =
     \<lparr>rd_at = (\<lambda>off n.
        if off < 0 then ([], Some (ReadErr ''bytes.Reader.ReadAt: negative offset''))
        else if int (length data) \<le> off then ([], Some EOF)
        else (let d = take n (drop (nat off) data) in
              (d, if length d < n then Some EOF else None))),
      rd_size = Some (int (length data))\<rparr>"

text \<open>
  \<open>serves r data\<close>: reads that stay inside \<open>data\<close> return its bytes and no error. It is what
  \<open>bytes.Reader\<close>, \<open>os.File\<close> and every other \<open>ReaderAt\<close> over an intact image do.
\<close>

definition serves :: "reader \<Rightarrow> bytes \<Rightarrow> bool" where
  "serves r data \<longleftrightarrow>
     (\<forall>off n. 0 \<le> off \<and> 0 < n \<and> off + int n \<le> int (length data) \<longrightarrow>
        ReadAt r off n = (take n (drop (nat off) data), None))"

lemma servesD:
  "serves r data \<Longrightarrow> 0 \<le> off \<Longrightarrow> 0 < n \<Longrightarrow> off + int n \<le> int (length data) \<Longrightarrow>
   ReadAt r off n = (take n (drop (nat off) data), None)"
  by (simp add: serves_def)

lemma ReadAt_bytesReader:
  "ReadAt (bytesReader data) off n =
     (if off < 0 then ([], Some (ReadErr ''bytes.Reader.ReadAt: negative offset''))
      else if int (length data) \<le> off then ([], Some EOF)
      else (take n (drop (nat off) data),
            if length data < nat off + n then Some EOF else None))"
  by (auto simp: ReadAt_def bytesReader_def Let_def min_def)

lemma serves_bytesReader: "serves (bytesReader data) data"
  by (auto simp: serves_def ReadAt_bytesReader)

text \<open>An image is a source that serves a byte string: the interface of the volume's clients.\<close>

locale image = readerAt +
  fixes data :: bytes
  assumes inside: "0 \<le> off \<Longrightarrow> 0 < n \<Longrightarrow> off + int n \<le> int (length data) \<Longrightarrow>
    readAt off n = (take n (drop (nat off) data), None)"
begin

lemma byte_at:
  assumes "0 \<le> off" "0 < n" "off + int n \<le> int (length data)" "k < n"
  shows "fst (readAt off n) ! k = data ! (nat off + k)"
  using assms by (simp add: inside)

lemma read_split:
  assumes "0 \<le> off" "0 < m" "0 < n" "off + int m + int n \<le> int (length data)"
  shows "fst (readAt off (m + n)) = fst (readAt off m) @ fst (readAt (off + int m) n)"
  using assms by (simp add: inside take_add nat_add_distrib add.commute)

end

interpretation br: image "ReadAt (bytesReader d)" d for d
  by unfold_locales (auto intro: servesD serves_bytesReader)

subsection \<open>\<open>io.SectionReader\<close>\<close>

record sectionReader =
  sr_r :: reader
  sr_base :: int
  sr_off :: int
  sr_limit :: int

definition NewSectionReader :: "reader \<Rightarrow> int \<Rightarrow> int \<Rightarrow> sectionReader" where
  "NewSectionReader r off n =
     \<lparr>sr_r = r, sr_base = off, sr_off = off,
      sr_limit = (if off \<le> i64 (maxInt64 - n) then i64 (n + off) else maxInt64)\<rparr>"

definition maxSectionSize :: int where
  "maxSectionSize = maxInt64"

definition sectionReader_of :: "reader \<Rightarrow> int \<Rightarrow> sectionReader" where
  "sectionReader_of r off =
     (let n = (if 0 \<le> off \<and> off < maxSectionSize then maxSectionSize - off else maxSectionSize)
      in NewSectionReader r off n)"

definition sr_Read :: "sectionReader \<Rightarrow> nat \<Rightarrow> sectionReader \<times> bytes \<times> goerr option" where
  "sr_Read s n =
     (if sr_limit s \<le> sr_off s then (s, [], Some EOF)
      else let m = (if sr_limit s - sr_off s < int n then nat (sr_limit s - sr_off s) else n);
               (d, e) = ReadAt (sr_r s) (sr_off s) m
           in (s\<lparr>sr_off := i64 (sr_off s + int (length d))\<rparr>, d, e))"

definition sr_Size :: "sectionReader \<Rightarrow> int" where
  "sr_Size s = sr_limit s - sr_base s"

definition sr_ReadAt :: "sectionReader \<Rightarrow> int \<Rightarrow> nat \<Rightarrow> bytes \<times> goerr option" where
  "sr_ReadAt s off n =
     (if off < 0 \<or> sr_Size s \<le> off then ([], Some EOF)
      else let off' = off + sr_base s; m = sr_limit s - off' in
           if m < int n then
             (case ReadAt (sr_r s) off' (nat m) of (d, e) \<Rightarrow>
                (d, if e = None then Some EOF else e))
           else ReadAt (sr_r s) off' n)"

text \<open>A section reader is itself an \<open>io.ReaderAt\<close> with a \<open>Size\<close> method.\<close>

definition sr_reader :: "sectionReader \<Rightarrow> reader" where
  "sr_reader s = \<lparr>rd_at = sr_ReadAt s, rd_size = Some (sr_Size s)\<rparr>"

interpretation sr: readerAt "sr_ReadAt s" for s
proof unfold_locales
  fix off n
  show "length (fst (sr_ReadAt s off n)) \<le> n"
  proof (cases "sr_limit s - (off + sr_base s) < int n")
    case True
    have "length (fst (ReadAt (sr_r s) (off + sr_base s) (nat (sr_limit s - (off + sr_base s)))))
      \<le> nat (sr_limit s - (off + sr_base s))" by (rule rd.at_most)
    with True show ?thesis by (auto simp: sr_ReadAt_def Let_def split: prod.splits)
  next
    case False
    then show ?thesis by (auto simp: sr_ReadAt_def Let_def rd.at_most split: prod.splits)
  qed
  show "snd (sr_ReadAt s off n) = None \<Longrightarrow> length (fst (sr_ReadAt s off n)) = n"
    by (auto simp: sr_ReadAt_def Let_def rd.short_has_error split: if_splits prod.splits)
qed

lemma ReadAt_sr_reader [simp]: "ReadAt (sr_reader s) = sr_ReadAt s"
proof (intro ext)
  fix off n
  have "readerAt (rd_at (sr_reader s))"
    by (simp add: sr_reader_def sr.readerAt_axioms)
  then show "ReadAt (sr_reader s) off n = sr_ReadAt s off n"
    by (simp add: ReadAt_conforming) (simp add: sr_reader_def)
qed

text \<open>\<open>Seek\<close> with \<open>io.SeekStart\<close> = 0 and \<open>io.SeekCurrent\<close> = 1 (the uses of the package).\<close>

definition sr_Seek :: "sectionReader \<Rightarrow> int \<Rightarrow> nat \<Rightarrow> sectionReader \<times> int result" where
  "sr_Seek s offset whence =
     (if 2 < whence then (s, Error (Msg ''Seek: invalid whence''))
      else let off = i64 (offset + (if whence = 0 then sr_base s
                                    else if whence = 1 then sr_off s else sr_limit s))
           in if off < sr_base s then (s, Error (Msg ''Seek: invalid offset''))
              else (s\<lparr>sr_off := off\<rparr>, Ok (i64 (off - sr_base s))))"

subsection \<open>\<open>io.ReadFull\<close>\<close>

text \<open>
  \<open>io.ReadFull\<close> reads until the buffer is full. A successful \<open>Read\<close> of a section reader
  returns at least one byte, so the loop ends: the number of bytes still wanted decreases.
\<close>

lemma sr_Read_progress:
  "sr_Read s n = (s', d, None) \<Longrightarrow> 0 < n \<Longrightarrow> 0 < length d"
  by (auto simp: sr_Read_def Let_def split: if_splits prod.splits dest!: ReadAt_length)

function readFull_loop ::
    "sectionReader \<Rightarrow> nat \<Rightarrow> bytes \<Rightarrow> sectionReader \<times> bytes result" where
  "readFull_loop s n acc =
     (if n \<le> length acc then (s, Ok acc)
      else case sr_Read s (n - length acc) of (s', d, e) \<Rightarrow>
        (case e of
           None \<Rightarrow> readFull_loop s' n (acc @ d)
         | Some err \<Rightarrow>
             if n \<le> length (acc @ d) then (s', Ok (acc @ d))
             else if acc @ d \<noteq> [] \<and> err = EOF then (s', Error UnexpectedEOF)
             else (s', Error err)))"
  by pat_completeness auto
termination
  by (relation "measure (\<lambda>(s, n, acc). n - length acc)") 
    (auto dest!: sr_Read_progress [OF sym] simp flip: length_greater_0_conv)

declare readFull_loop.simps [simp del]

definition readFull :: "sectionReader \<Rightarrow> nat \<Rightarrow> sectionReader \<times> bytes result" where
  "readFull s n = readFull_loop s n []"

lemma readFull_loop_length:
  "readFull_loop s n acc = (s', Ok d) \<Longrightarrow> length acc \<le> n \<Longrightarrow> length d = n"
proof (induction s n acc rule: readFull_loop.induct)
  case (1 s n acc)
  show ?case
  proof (cases "n \<le> length acc")
    case True
    with 1 show ?thesis by (simp add: readFull_loop.simps [of s n acc])
  next
    case False
    obtain t d1 e where rd: "sr_Read s (n - length acc) = (t, d1, e)"
      by (cases "sr_Read s (n - length acc)")
    have "length d1 \<le> n - length acc"
      using rd by (auto simp: sr_Read_def Let_def split: if_splits prod.splits dest!: ReadAt_at_most)
    with False have le: "length (acc @ d1) \<le> n" by simp
    show ?thesis
    proof (cases e)
      case None
      with "1.prems"(1) False rd have "readFull_loop t n (acc @ d1) = (s', Ok d)"
        by (simp add: readFull_loop.simps [of s n acc])
      with "1.IH" [OF False rd [symmetric] refl None] le show ?thesis by simp
    next
      case (Some err)
      with "1.prems"(1) False rd le show ?thesis
        by (auto simp: readFull_loop.simps [of s n acc] split: if_splits)
    qed
  qed
qed

lemma readFull_length: "readFull s n = (s', Ok d) \<Longrightarrow> length d = n"
  using readFull_loop_length [of s n "[]"] by (simp add: readFull_def)

lemma sr_Read_fields:
  "sr_Read s n = (s', d, e) \<Longrightarrow> sr_r s' = sr_r s \<and> sr_base s' = sr_base s \<and> sr_limit s' = sr_limit s"
  by (auto simp: sr_Read_def Let_def split: if_splits prod.splits)

lemma readFull_loop_invariant:
  "readFull_loop s n acc = (s', x) \<Longrightarrow>
   sr_r s' = sr_r s \<and> sr_base s' = sr_base s \<and> sr_limit s' = sr_limit s \<and> (\<forall>m. x \<noteq> Panic m)"
proof (induction s n acc rule: readFull_loop.induct)
  case (1 s n acc)
  show ?case
  proof (cases "n \<le> length acc")
    case True
    with 1 show ?thesis by (auto simp: readFull_loop.simps [of s n acc])
  next
    case False
    obtain t d e where rd: "sr_Read s (n - length acc) = (t, d, e)"
      by (cases "sr_Read s (n - length acc)")
    note f = sr_Read_fields [OF rd]
    show ?thesis
    proof (cases e)
      case None
      with "1.prems" False rd have "readFull_loop t n (acc @ d) = (s', x)"
        by (simp add: readFull_loop.simps [of s n acc])
      with "1.IH" [OF False rd [symmetric] refl None] f show ?thesis by simp
    next
      case (Some err)
      with "1.prems" False rd f show ?thesis
        by (auto simp: readFull_loop.simps [of s n acc] split: if_splits)
    qed
  qed
qed

lemma readFull_fields:
  "readFull s n = (s', x) \<Longrightarrow> sr_r s' = sr_r s \<and> sr_base s' = sr_base s \<and> sr_limit s' = sr_limit s"
  using readFull_loop_invariant [of s n "[]"] by (simp add: readFull_def)

lemma readFull_not_Panic [simp]: "readFull s n \<noteq> (s', Panic m)"
  using readFull_loop_invariant [of s n "[]"] by (auto simp: readFull_def)

text \<open>Reading a prefix of a section that lies inside the data.\<close>

definition sr_inside :: "sectionReader \<Rightarrow> bytes \<Rightarrow> nat \<Rightarrow> bool" where
  "sr_inside s data n \<longleftrightarrow> serves (sr_r s) data \<and> 0 \<le> sr_off s \<and>
     sr_off s + int n \<le> int (length data) \<and> sr_off s + int n \<le> sr_limit s \<and>
     sr_off s + int n < 2 ^ 63"

lemma readFull_inside:
  assumes "sr_inside s data n" "0 < n"
  shows "readFull s n =
    (s\<lparr>sr_off := sr_off s + int n\<rparr>, Ok (take n (drop (nat (sr_off s)) data)))"
proof -
  from assms have rd: "ReadAt (sr_r s) (sr_off s) n = (take n (drop (nat (sr_off s)) data), None)"
    by (auto simp: sr_inside_def intro: servesD)
  have len: "length (take n (drop (nat (sr_off s)) data)) = n"
    using assms by (auto simp: sr_inside_def)
  have "sr_Read s n =
    (s\<lparr>sr_off := sr_off s + int n\<rparr>, take n (drop (nat (sr_off s)) data), None)"
    using assms rd len by (simp add: sr_Read_def sr_inside_def)
  then show ?thesis
    using assms(2) len by (simp add: readFull_def readFull_loop.simps)
qed

text \<open>The sections of \<open>readerat.go\<close> start at the offset asked for and reach to the end.\<close>

lemma sectionReader_of_simps [simp]:
  "sr_r (sectionReader_of r off) = r"
  "sr_base (sectionReader_of r off) = off"
  "sr_off (sectionReader_of r off) = off"
  by (simp_all add: sectionReader_of_def NewSectionReader_def Let_def)

lemma sectionReader_of_limit:
  "0 \<le> off \<Longrightarrow> off < 2 ^ 63 \<Longrightarrow> sr_limit (sectionReader_of r off) = maxInt64"
  by (auto simp: sectionReader_of_def NewSectionReader_def maxSectionSize_def maxInt64_def Let_def)

lemma readFull_section:
  assumes "serves r data" "0 \<le> off" "0 < n" "off + int n \<le> int (length data)"
    and "off + int n < 2 ^ 63"
  shows "readFull (sectionReader_of r off) n =
    ((sectionReader_of r off)\<lparr>sr_off := off + int n\<rparr>, Ok (take n (drop (nat off) data)))"
proof -
  have "sr_inside (sectionReader_of r off) data n"
    using assms by (simp add: sr_inside_def sectionReader_of_limit maxInt64_def)
  from readFull_inside [OF this assms(3)] show ?thesis by simp
qed

subsection \<open>Streams over a byte string\<close>

text \<open>
  \<open>io.ReadFull\<close> on a \<open>bytes.Reader\<close>: the bytes and the remaining stream. A short stream is
  consumed to its end.
\<close>

definition takeFull :: "nat \<Rightarrow> bytes \<Rightarrow> bytes result \<times> bytes" where
  "takeFull n bs =
     (if n = 0 then (Ok [], bs)
      else if bs = [] then (Error EOF, [])
      else if length bs < n then (Error UnexpectedEOF, [])
      else (Ok (take n bs), drop n bs))"

lemma takeFull_append [simp]: "length a = n \<Longrightarrow> takeFull n (a @ rest) = (Ok a, rest)"
  by (auto simp: takeFull_def)

lemma takeFull_Ok:
  "takeFull n bs = (Ok d, rest) \<Longrightarrow> bs = d @ rest \<and> length d = n"
  by (auto simp: takeFull_def split: if_splits)

lemma takeFull_Error:
  "takeFull n bs = (Error e, rest) \<Longrightarrow> rest = [] \<and> length bs < n \<and> is_eof e"
  by (auto simp: takeFull_def split: if_splits)

lemma takeFull_not_Panic [simp]: "takeFull n bs \<noteq> (Panic s, rest)"
  by (auto simp: takeFull_def split: if_splits)

end
