(* ===== verification/Types.thy ===== *)
theory Types
  imports Prelude
begin

section \<open>On-disk structures and constants (\<open>types.go\<close>)\<close>

text \<open>
  The signature and the two GUIDs, the enumerations (each value of the source as a 16-bit
  word; the on-disk fields may hold any other value too), the cipher map and the structs.
  A struct is a record; \<open>read_S\<close> is \<open>binary.Read\<close> with \<open>binary.LittleEndian\<close> on the
  \<open>size_S\<close> bytes of the struct, and \<open>write_S\<close> its inverse, \<open>binary.Write\<close>, which the package
  does not use. Fixed byte arrays are byte lists. For every struct \<open>write_S\<close> undoes \<open>read_S\<close>:
  the fields cover the bytes without gap or overlap.
\<close>

subsection \<open>Signature and GUIDs\<close>

definition BITLOCKER_SIGNATURE :: bytes where
  "BITLOCKER_SIGNATURE = [0x2d, 0x46, 0x56, 0x45, 0x2d, 0x46, 0x53, 0x2d]"

definition INFORMATION_OFFSET_GUID :: bytes where
  "INFORMATION_OFFSET_GUID =
    [0x3B, 0xD6, 0x67, 0x49, 0x29, 0x2E, 0xD8, 0x4A,
     0x83, 0x99, 0xF6, 0xA3, 0x39, 0xE3, 0xD0, 0x01]"

definition EOW_INFORMATION_OFFSET_GUID :: bytes where
  "EOW_INFORMATION_OFFSET_GUID =
    [0x3B, 0x4D, 0xA8, 0x92, 0x80, 0xDD, 0x0E, 0x4D,
     0x9E, 0x4E, 0xB1, 0xE3, 0x28, 0x4E, 0xAE, 0xD8]"

lemma length_signature [simp]: "length BITLOCKER_SIGNATURE = 8"
  by (simp add: BITLOCKER_SIGNATURE_def)

lemma length_guids [simp]:
  "length INFORMATION_OFFSET_GUID = 16" "length EOW_INFORMATION_OFFSET_GUID = 16"
  by (simp_all add: INFORMATION_OFFSET_GUID_def EOW_INFORMATION_OFFSET_GUID_def)

subsection \<open>Volume states and key types\<close>

definition FveStateDecrypted :: u16 where
  "FveStateDecrypted = 1"

definition FveStateSwitchingDirty :: u16 where
  "FveStateSwitchingDirty = 2"

definition FveStatePaused :: u16 where
  "FveStatePaused = 3"

definition FveStateEncrypted :: u16 where
  "FveStateEncrypted = 4"

definition FveStateSwitching :: u16 where
  "FveStateSwitching = 5"

definition FveKeyTypeNone :: u16 where
  "FveKeyTypeNone = 0x0"

definition FveKeyTypeExternal :: u16 where
  "FveKeyTypeExternal = 0x5"

definition FveKeyTypeStretchKey :: u16 where
  "FveKeyTypeStretchKey = 0x1000"

definition FveKeyTypeStretchKey1 :: u16 where
  "FveKeyTypeStretchKey1 = 0x1001"

definition FveKeyTypeAesCcm256_0 :: u16 where
  "FveKeyTypeAesCcm256_0 = 0x2000"

definition FveKeyTypeAesCcm256_1 :: u16 where
  "FveKeyTypeAesCcm256_1 = 0x2001"

definition FveKeyTypeExternKey :: u16 where
  "FveKeyTypeExternKey = 0x2002"

definition FveKeyTypeVmk :: u16 where
  "FveKeyTypeVmk = 0x2003"

definition FveKeyTypeAesCcm256_2 :: u16 where
  "FveKeyTypeAesCcm256_2 = 0x2004"

definition FveKeyTypeHash256 :: u16 where
  "FveKeyTypeHash256 = 0x2005"

definition FveKeyTypeAes128Diffuser :: u16 where
  "FveKeyTypeAes128Diffuser = 0x8000"

definition FveKeyTypeAes256Diffuser :: u16 where
  "FveKeyTypeAes256Diffuser = 0x8001"

definition FveKeyTypeAes128 :: u16 where
  "FveKeyTypeAes128 = 0x8002"

definition FveKeyTypeAes256 :: u16 where
  "FveKeyTypeAes256 = 0x8003"

definition FveKeyTypeAesXts128 :: u16 where
  "FveKeyTypeAesXts128 = 0x8004"

definition FveKeyTypeAesXts256 :: u16 where
  "FveKeyTypeAesXts256 = 0x8005"

subsection \<open>Key protectors and flags\<close>

definition FveKeyProtectorClear :: u16 where
  "FveKeyProtectorClear = 0x0"

definition FveKeyProtectorTpm :: u16 where
  "FveKeyProtectorTpm = 0x100"

definition FveKeyProtectorExternal :: u16 where
  "FveKeyProtectorExternal = 0x200"

definition FveKeyProtectorTpmPin :: u16 where
  "FveKeyProtectorTpmPin = 0x400"

definition FveKeyProtectorRecoveryPassword :: u16 where
  "FveKeyProtectorRecoveryPassword = 0x800"

definition FveKeyProtectorPassphrase :: u16 where
  "FveKeyProtectorPassphrase = 0x2000"

definition FveKeyFlagNone :: u16 where
  "FveKeyFlagNone = 0x0"

definition FveKeyFlagEnhancedPin :: u16 where
  "FveKeyFlagEnhancedPin = 0x4"

definition FveKeyFlagEnhancedCrypto :: u16 where
  "FveKeyFlagEnhancedCrypto = 0x10"

definition FveKeyFlagPbkdf2 :: u16 where
  "FveKeyFlagPbkdf2 = 0x40"

subsection \<open>Datum roles and types\<close>

definition FveDatumRoleProperty :: u16 where
  "FveDatumRoleProperty = 0x0"

definition FveDatumRoleUnknown1 :: u16 where
  "FveDatumRoleUnknown1 = 0x1"

definition FveDatumRoleVolumeMasterKeyInfo :: u16 where
  "FveDatumRoleVolumeMasterKeyInfo = 0x2"

definition FveDatumRoleFullVolumeEncryptionKey :: u16 where
  "FveDatumRoleFullVolumeEncryptionKey = 0x3"

definition FveDatumRoleValidation :: u16 where
  "FveDatumRoleValidation = 0x4"

definition FveDatumRoleUnknown5 :: u16 where
  "FveDatumRoleUnknown5 = 0x5"

definition FveDatumRoleStartupKey :: u16 where
  "FveDatumRoleStartupKey = 0x6"

definition FveDatumRoleDescription :: u16 where
  "FveDatumRoleDescription = 0x7"

definition FveDatumRoleUnknown8 :: u16 where
  "FveDatumRoleUnknown8 = 0x8"

definition FveDatumRoleUnknown9 :: u16 where
  "FveDatumRoleUnknown9 = 0x9"

definition FveDatumRoleUnknownA :: u16 where
  "FveDatumRoleUnknownA = 0xA"

definition FveDatumRoleAutoUnlock :: u16 where
  "FveDatumRoleAutoUnlock = 0xB"

definition FveDatumRoleFullVolumeEncryptionKey2 :: u16 where
  "FveDatumRoleFullVolumeEncryptionKey2 = 0xC"

definition FveDatumRoleUnknownD :: u16 where
  "FveDatumRoleUnknownD = 0xD"

definition FveDatumRoleUnknownE :: u16 where
  "FveDatumRoleUnknownE = 0xE"

definition FveDatumRoleVirtualizationInfo :: u16 where
  "FveDatumRoleVirtualizationInfo = 0xF"

definition FveDatumRoleValidationHash :: u16 where
  "FveDatumRoleValidationHash = 0x11"

definition FveDatumTypeErased :: u16 where
  "FveDatumTypeErased = 0x0"

definition FveDatumTypeKey :: u16 where
  "FveDatumTypeKey = 0x1"

definition FveDatumTypeUnicode :: u16 where
  "FveDatumTypeUnicode = 0x2"

definition FveDatumTypeStretchKey :: u16 where
  "FveDatumTypeStretchKey = 0x3"

definition FveDatumTypeUseKey :: u16 where
  "FveDatumTypeUseKey = 0x4"

definition FveDatumTypeAesCcmEncryptedKey :: u16 where
  "FveDatumTypeAesCcmEncryptedKey = 0x5"

definition FveDatumTypeTpmEncryptedBlob :: u16 where
  "FveDatumTypeTpmEncryptedBlob = 0x6"

definition FveDatumTypeValidationInfo :: u16 where
  "FveDatumTypeValidationInfo = 0x7"

definition FveDatumTypeVolumeMasterKeyInfo :: u16 where
  "FveDatumTypeVolumeMasterKeyInfo = 0x8"

definition FveDatumTypeExternalInfo :: u16 where
  "FveDatumTypeExternalInfo = 0x9"

definition FveDatumTypeUpdate :: u16 where
  "FveDatumTypeUpdate = 0xA"

definition FveDatumTypeErrorLog :: u16 where
  "FveDatumTypeErrorLog = 0xB"

definition FveDatumTypeAsymmetricEncryptedKey :: u16 where
  "FveDatumTypeAsymmetricEncryptedKey = 0xC"

definition FveDatumTypeExportedKey :: u16 where
  "FveDatumTypeExportedKey = 0xD"

definition FveDatumTypePublicKeyInfo :: u16 where
  "FveDatumTypePublicKeyInfo = 0xE"

definition FveDatumTypeVirtualizationInfo :: u16 where
  "FveDatumTypeVirtualizationInfo = 0xF"

definition FveDatumTypeSimple1 :: u16 where
  "FveDatumTypeSimple1 = 0x10"

definition FveDatumTypeSimple2 :: u16 where
  "FveDatumTypeSimple2 = 0x11"

definition FveDatumTypeConcatHashKey :: u16 where
  "FveDatumTypeConcatHashKey = 0x12"

definition FveDatumTypeSimple3 :: u16 where
  "FveDatumTypeSimple3 = 0x13"

definition FveDatumTypeSimpleLarge :: u16 where
  "FveDatumTypeSimpleLarge = 0x14"

definition FveDatumTypeBackupInfo :: u16 where
  "FveDatumTypeBackupInfo = 0x15"

lemmas state_consts =
  FveStateDecrypted_def
  FveStateSwitchingDirty_def
  FveStatePaused_def
  FveStateEncrypted_def
  FveStateSwitching_def

lemmas keyType_consts =
  FveKeyTypeNone_def
  FveKeyTypeExternal_def
  FveKeyTypeStretchKey_def
  FveKeyTypeStretchKey1_def
  FveKeyTypeAesCcm256_0_def
  FveKeyTypeAesCcm256_1_def
  FveKeyTypeExternKey_def
  FveKeyTypeVmk_def
  FveKeyTypeAesCcm256_2_def
  FveKeyTypeHash256_def
  FveKeyTypeAes128Diffuser_def
  FveKeyTypeAes256Diffuser_def
  FveKeyTypeAes128_def
  FveKeyTypeAes256_def
  FveKeyTypeAesXts128_def
  FveKeyTypeAesXts256_def

lemmas protector_consts =
  FveKeyProtectorClear_def
  FveKeyProtectorTpm_def
  FveKeyProtectorExternal_def
  FveKeyProtectorTpmPin_def
  FveKeyProtectorRecoveryPassword_def
  FveKeyProtectorPassphrase_def

lemmas flag_consts =
  FveKeyFlagNone_def
  FveKeyFlagEnhancedPin_def
  FveKeyFlagEnhancedCrypto_def
  FveKeyFlagPbkdf2_def

lemmas role_consts =
  FveDatumRoleProperty_def
  FveDatumRoleUnknown1_def
  FveDatumRoleVolumeMasterKeyInfo_def
  FveDatumRoleFullVolumeEncryptionKey_def
  FveDatumRoleValidation_def
  FveDatumRoleUnknown5_def
  FveDatumRoleStartupKey_def
  FveDatumRoleDescription_def
  FveDatumRoleUnknown8_def
  FveDatumRoleUnknown9_def
  FveDatumRoleUnknownA_def
  FveDatumRoleAutoUnlock_def
  FveDatumRoleFullVolumeEncryptionKey2_def
  FveDatumRoleUnknownD_def
  FveDatumRoleUnknownE_def
  FveDatumRoleVirtualizationInfo_def
  FveDatumRoleValidationHash_def

lemmas type_consts =
  FveDatumTypeErased_def
  FveDatumTypeKey_def
  FveDatumTypeUnicode_def
  FveDatumTypeStretchKey_def
  FveDatumTypeUseKey_def
  FveDatumTypeAesCcmEncryptedKey_def
  FveDatumTypeTpmEncryptedBlob_def
  FveDatumTypeValidationInfo_def
  FveDatumTypeVolumeMasterKeyInfo_def
  FveDatumTypeExternalInfo_def
  FveDatumTypeUpdate_def
  FveDatumTypeErrorLog_def
  FveDatumTypeAsymmetricEncryptedKey_def
  FveDatumTypeExportedKey_def
  FveDatumTypePublicKeyInfo_def
  FveDatumTypeVirtualizationInfo_def
  FveDatumTypeSimple1_def
  FveDatumTypeSimple2_def
  FveDatumTypeConcatHashKey_def
  FveDatumTypeSimple3_def
  FveDatumTypeSimpleLarge_def
  FveDatumTypeBackupInfo_def

subsection \<open>Cipher map\<close>

definition CipherMap :: "u16 \<rightharpoonup> string" where
  "CipherMap =
    [FveKeyTypeAes128Diffuser \<mapsto> ''aes-128-diffuser'',
     FveKeyTypeAes256Diffuser \<mapsto> ''aes-256-diffuser'',
     FveKeyTypeAes128 \<mapsto> ''aes-128'',
     FveKeyTypeAes256 \<mapsto> ''aes-256'',
     FveKeyTypeAesXts128 \<mapsto> ''aes-xts-128'',
     FveKeyTypeAesXts256 \<mapsto> ''aes-xts-256'']"

lemma CipherMap_dom:
  "dom CipherMap = {FveKeyTypeAes128Diffuser, FveKeyTypeAes256Diffuser, FveKeyTypeAes128,
     FveKeyTypeAes256, FveKeyTypeAesXts128, FveKeyTypeAesXts256}"
  by (auto simp: CipherMap_def)

subsection \<open>Layout\<close>

definition le8 :: "bytes \<Rightarrow> nat \<Rightarrow> u8" where
  "le8 b off = b ! off"

definition put8 :: "u8 \<Rightarrow> bytes" where
  "put8 w = [w]"

lemma length_put8 [simp, len_simps]: "length (put8 a) = 1"
  by (simp add: put8_def)

lemma put_le8: "off + 1 \<le> length b \<Longrightarrow> put8 (le8 b off) = slice b off 1"
  by (simp add: put8_def le8_def slice_def) (metis Cons_nth_drop_Suc One_nat_def Suc_le_lessD
      take_Suc_Cons take_0)

lemma slice_join: "j = i + n \<Longrightarrow> slice b i n @ slice b j m = slice b i (n + m)"
  by (simp add: slice_def take_add) (simp add: add.commute)

lemma slice_all: "length b = n \<Longrightarrow> slice b 0 n = b"
  by (simp add: slice_def)

lemma slice_front: "length a = n \<Longrightarrow> slice (a @ b) 0 n = a"
  by (simp add: slice_def)

lemmas layout_simps = put_le put_le8 slice_join slice_all length_slice

subsection \<open>Structs\<close>

record BiosParameterBlock =
  bpb_BytesPerSector :: u16
  bpb_SectorsPerCluster :: u8
  bpb_ReservedSectors :: u16
  bpb_Fats :: u8
  bpb_RootEntries :: u16
  bpb_Sectors :: u16
  bpb_Media :: u8
  bpb_SectorsPerFat :: u16
  bpb_SectorsPerTrack :: u16
  bpb_Heads :: u16
  bpb_HiddenSectors :: u32
  bpb_LargeSectors :: u32

definition size_BiosParameterBlock :: nat where
  "size_BiosParameterBlock = 25"

definition read_BiosParameterBlock :: "bytes \<Rightarrow> BiosParameterBlock" where
  "read_BiosParameterBlock b =
    \<lparr>bpb_BytesPerSector = le16 b 0,
     bpb_SectorsPerCluster = le8 b 2,
     bpb_ReservedSectors = le16 b 3,
     bpb_Fats = le8 b 5,
     bpb_RootEntries = le16 b 6,
     bpb_Sectors = le16 b 8,
     bpb_Media = le8 b 10,
     bpb_SectorsPerFat = le16 b 11,
     bpb_SectorsPerTrack = le16 b 13,
     bpb_Heads = le16 b 15,
     bpb_HiddenSectors = le32 b 17,
     bpb_LargeSectors = le32 b 21\<rparr>"

definition write_BiosParameterBlock :: "BiosParameterBlock \<Rightarrow> bytes" where
  "write_BiosParameterBlock x =
    put16 (bpb_BytesPerSector x) @
    put8 (bpb_SectorsPerCluster x) @
    put16 (bpb_ReservedSectors x) @
    put8 (bpb_Fats x) @
    put16 (bpb_RootEntries x) @
    put16 (bpb_Sectors x) @
    put8 (bpb_Media x) @
    put16 (bpb_SectorsPerFat x) @
    put16 (bpb_SectorsPerTrack x) @
    put16 (bpb_Heads x) @
    put32 (bpb_HiddenSectors x) @
    put32 (bpb_LargeSectors x)"

lemma write_read_BiosParameterBlock: "length b = 25 \<Longrightarrow> write_BiosParameterBlock (read_BiosParameterBlock b) = b"
  by (simp add: write_BiosParameterBlock_def read_BiosParameterBlock_def layout_simps)

lemma length_write_BiosParameterBlock [simp, len_simps]: "length (write_BiosParameterBlock x) = 25"
  by (simp add: write_BiosParameterBlock_def)

record BootSector =
  boot_Jump :: bytes
  boot_Oem :: bytes
  boot_Bpb :: BiosParameterBlock
  boot_Unused0 :: bytes
  boot_InformationLcn :: u64
  boot_Unused1 :: bytes
  boot_PartitionLength :: u64
  boot_Unused2 :: bytes
  boot_BytesPerSectorShift :: u8
  boot_SectorsPerClusterShift :: u8
  boot_Unused3 :: bytes

definition size_BootSector :: nat where
  "size_BootSector = 512"

definition read_BootSector :: "bytes \<Rightarrow> BootSector" where
  "read_BootSector b =
    \<lparr>boot_Jump = slice b 0 3,
     boot_Oem = slice b 3 8,
     boot_Bpb = read_BiosParameterBlock (slice b 11 25),
     boot_Unused0 = slice b 36 20,
     boot_InformationLcn = le64 b 56,
     boot_Unused1 = slice b 64 8,
     boot_PartitionLength = le64 b 72,
     boot_Unused2 = slice b 80 28,
     boot_BytesPerSectorShift = le8 b 108,
     boot_SectorsPerClusterShift = le8 b 109,
     boot_Unused3 = slice b 110 402\<rparr>"

definition write_BootSector :: "BootSector \<Rightarrow> bytes" where
  "write_BootSector x =
    boot_Jump x @
    boot_Oem x @
    write_BiosParameterBlock (boot_Bpb x) @
    boot_Unused0 x @
    put64 (boot_InformationLcn x) @
    boot_Unused1 x @
    put64 (boot_PartitionLength x) @
    boot_Unused2 x @
    put8 (boot_BytesPerSectorShift x) @
    put8 (boot_SectorsPerClusterShift x) @
    boot_Unused3 x"

lemma write_read_BootSector: "length b = 512 \<Longrightarrow> write_BootSector (read_BootSector b) = b"
  by (simp add: write_BootSector_def read_BootSector_def layout_simps write_read_BiosParameterBlock)

lemma length_write_BootSector [simp, len_simps]: "length (boot_Jump x) = 3 \<Longrightarrow> length (boot_Oem x) = 8 \<Longrightarrow> length (boot_Unused0 x) = 20 \<Longrightarrow> length (boot_Unused1 x) = 8 \<Longrightarrow> length (boot_Unused2 x) = 28 \<Longrightarrow> length (boot_Unused3 x) = 402 \<Longrightarrow> length (write_BootSector x) = 512"
  by (simp add: write_BootSector_def)

record FveMetadataBlockHeaderV2 =
  bh_Signature :: bytes
  bh_Size :: u16
  bh_Version :: u16
  bh_Unknown1 :: u16
  bh_Unknown2 :: u16
  bh_EncryptedVolumeSize :: u64
  bh_Unknown3 :: u32
  bh_VolumeHeaderSectors :: u32
  bh_MetadataOffset1 :: u64
  bh_MetadataOffset2 :: u64
  bh_MetadataOffset3 :: u64
  bh_VolumeHeaderOff :: u64

definition size_FveMetadataBlockHeaderV2 :: nat where
  "size_FveMetadataBlockHeaderV2 = 64"

definition read_FveMetadataBlockHeaderV2 :: "bytes \<Rightarrow> FveMetadataBlockHeaderV2" where
  "read_FveMetadataBlockHeaderV2 b =
    \<lparr>bh_Signature = slice b 0 8,
     bh_Size = le16 b 8,
     bh_Version = le16 b 10,
     bh_Unknown1 = le16 b 12,
     bh_Unknown2 = le16 b 14,
     bh_EncryptedVolumeSize = le64 b 16,
     bh_Unknown3 = le32 b 24,
     bh_VolumeHeaderSectors = le32 b 28,
     bh_MetadataOffset1 = le64 b 32,
     bh_MetadataOffset2 = le64 b 40,
     bh_MetadataOffset3 = le64 b 48,
     bh_VolumeHeaderOff = le64 b 56\<rparr>"

definition write_FveMetadataBlockHeaderV2 :: "FveMetadataBlockHeaderV2 \<Rightarrow> bytes" where
  "write_FveMetadataBlockHeaderV2 x =
    bh_Signature x @
    put16 (bh_Size x) @
    put16 (bh_Version x) @
    put16 (bh_Unknown1 x) @
    put16 (bh_Unknown2 x) @
    put64 (bh_EncryptedVolumeSize x) @
    put32 (bh_Unknown3 x) @
    put32 (bh_VolumeHeaderSectors x) @
    put64 (bh_MetadataOffset1 x) @
    put64 (bh_MetadataOffset2 x) @
    put64 (bh_MetadataOffset3 x) @
    put64 (bh_VolumeHeaderOff x)"

lemma write_read_FveMetadataBlockHeaderV2: "length b = 64 \<Longrightarrow> write_FveMetadataBlockHeaderV2 (read_FveMetadataBlockHeaderV2 b) = b"
  by (simp add: write_FveMetadataBlockHeaderV2_def read_FveMetadataBlockHeaderV2_def layout_simps)

lemma length_write_FveMetadataBlockHeaderV2 [simp, len_simps]: "length (bh_Signature x) = 8 \<Longrightarrow> length (write_FveMetadataBlockHeaderV2 x) = 64"
  by (simp add: write_FveMetadataBlockHeaderV2_def)

record FveMetadataHeader =
  mh_MetadataSize :: u32
  mh_Version :: u32
  mh_HeaderSize :: u32
  mh_MetadataSizeCopy :: u32
  mh_VolumeIdentifier :: bytes
  mh_NextNonceCounter :: u32
  mh_EncryptionMethod :: u32
  mh_CreationTime :: u64

definition size_FveMetadataHeader :: nat where
  "size_FveMetadataHeader = 48"

definition read_FveMetadataHeader :: "bytes \<Rightarrow> FveMetadataHeader" where
  "read_FveMetadataHeader b =
    \<lparr>mh_MetadataSize = le32 b 0,
     mh_Version = le32 b 4,
     mh_HeaderSize = le32 b 8,
     mh_MetadataSizeCopy = le32 b 12,
     mh_VolumeIdentifier = slice b 16 16,
     mh_NextNonceCounter = le32 b 32,
     mh_EncryptionMethod = le32 b 36,
     mh_CreationTime = le64 b 40\<rparr>"

definition write_FveMetadataHeader :: "FveMetadataHeader \<Rightarrow> bytes" where
  "write_FveMetadataHeader x =
    put32 (mh_MetadataSize x) @
    put32 (mh_Version x) @
    put32 (mh_HeaderSize x) @
    put32 (mh_MetadataSizeCopy x) @
    mh_VolumeIdentifier x @
    put32 (mh_NextNonceCounter x) @
    put32 (mh_EncryptionMethod x) @
    put64 (mh_CreationTime x)"

lemma write_read_FveMetadataHeader: "length b = 48 \<Longrightarrow> write_FveMetadataHeader (read_FveMetadataHeader b) = b"
  by (simp add: write_FveMetadataHeader_def read_FveMetadataHeader_def layout_simps)

lemma length_write_FveMetadataHeader [simp, len_simps]: "length (mh_VolumeIdentifier x) = 16 \<Longrightarrow> length (write_FveMetadataHeader x) = 48"
  by (simp add: write_FveMetadataHeader_def)

lemma read_write_FveMetadataHeader [simp, cancel_simps]: "length (mh_VolumeIdentifier x) = 16 \<Longrightarrow> read_FveMetadataHeader (write_FveMetadataHeader x @ rest) = x"
  by (simp add: write_FveMetadataHeader_def read_FveMetadataHeader_def le_skip slice_skip slice_front)

record FveDatum =
  fd_Size :: u16
  fd_Role :: u16
  fd_Type :: u16
  fd_Flags :: u16

definition size_FveDatum :: nat where
  "size_FveDatum = 8"

definition read_FveDatum :: "bytes \<Rightarrow> FveDatum" where
  "read_FveDatum b =
    \<lparr>fd_Size = le16 b 0,
     fd_Role = le16 b 2,
     fd_Type = le16 b 4,
     fd_Flags = le16 b 6\<rparr>"

definition write_FveDatum :: "FveDatum \<Rightarrow> bytes" where
  "write_FveDatum x =
    put16 (fd_Size x) @
    put16 (fd_Role x) @
    put16 (fd_Type x) @
    put16 (fd_Flags x)"

lemma write_read_FveDatum: "length b = 8 \<Longrightarrow> write_FveDatum (read_FveDatum b) = b"
  by (simp add: write_FveDatum_def read_FveDatum_def layout_simps)

lemma length_write_FveDatum [simp, len_simps]: "length (write_FveDatum x) = 8"
  by (simp add: write_FveDatum_def)

lemma read_write_FveDatum [simp, cancel_simps]: "read_FveDatum (write_FveDatum x @ rest) = x"
  by (simp add: write_FveDatum_def read_FveDatum_def le_skip slice_skip slice_front)

record FveValidation =
  val_Size :: u16
  val_Version :: u16
  val_Crc32 :: u32

definition size_FveValidation :: nat where
  "size_FveValidation = 8"

definition read_FveValidation :: "bytes \<Rightarrow> FveValidation" where
  "read_FveValidation b =
    \<lparr>val_Size = le16 b 0,
     val_Version = le16 b 2,
     val_Crc32 = le32 b 4\<rparr>"

definition write_FveValidation :: "FveValidation \<Rightarrow> bytes" where
  "write_FveValidation x =
    put16 (val_Size x) @
    put16 (val_Version x) @
    put32 (val_Crc32 x)"

lemma write_read_FveValidation: "length b = 8 \<Longrightarrow> write_FveValidation (read_FveValidation b) = b"
  by (simp add: write_FveValidation_def read_FveValidation_def layout_simps)

lemma length_write_FveValidation [simp, len_simps]: "length (write_FveValidation x) = 8"
  by (simp add: write_FveValidation_def)

lemma read_write_FveValidation [simp, cancel_simps]: "read_FveValidation (write_FveValidation x @ rest) = x"
  by (simp add: write_FveValidation_def read_FveValidation_def le_skip slice_skip slice_front)

record FveStretchKeyDatum =
  sk_KeyType :: u16
  sk_KeyFlags :: u16
  sk_Salt :: bytes

definition size_FveStretchKeyDatum :: nat where
  "size_FveStretchKeyDatum = 20"

definition read_FveStretchKeyDatum :: "bytes \<Rightarrow> FveStretchKeyDatum" where
  "read_FveStretchKeyDatum b =
    \<lparr>sk_KeyType = le16 b 0,
     sk_KeyFlags = le16 b 2,
     sk_Salt = slice b 4 16\<rparr>"

definition write_FveStretchKeyDatum :: "FveStretchKeyDatum \<Rightarrow> bytes" where
  "write_FveStretchKeyDatum x =
    put16 (sk_KeyType x) @
    put16 (sk_KeyFlags x) @
    sk_Salt x"

lemma write_read_FveStretchKeyDatum: "length b = 20 \<Longrightarrow> write_FveStretchKeyDatum (read_FveStretchKeyDatum b) = b"
  by (simp add: write_FveStretchKeyDatum_def read_FveStretchKeyDatum_def layout_simps)

lemma length_write_FveStretchKeyDatum [simp, len_simps]: "length (sk_Salt x) = 16 \<Longrightarrow> length (write_FveStretchKeyDatum x) = 20"
  by (simp add: write_FveStretchKeyDatum_def)

lemma read_write_FveStretchKeyDatum [simp, cancel_simps]: "length (sk_Salt x) = 16 \<Longrightarrow> read_FveStretchKeyDatum (write_FveStretchKeyDatum x @ rest) = x"
  by (simp add: write_FveStretchKeyDatum_def read_FveStretchKeyDatum_def le_skip slice_skip slice_front)

record FveUseKeyDatum =
  uk_KeyType :: u16
  uk_KeyFlags :: u16

definition size_FveUseKeyDatum :: nat where
  "size_FveUseKeyDatum = 4"

definition read_FveUseKeyDatum :: "bytes \<Rightarrow> FveUseKeyDatum" where
  "read_FveUseKeyDatum b =
    \<lparr>uk_KeyType = le16 b 0,
     uk_KeyFlags = le16 b 2\<rparr>"

definition write_FveUseKeyDatum :: "FveUseKeyDatum \<Rightarrow> bytes" where
  "write_FveUseKeyDatum x =
    put16 (uk_KeyType x) @
    put16 (uk_KeyFlags x)"

lemma write_read_FveUseKeyDatum: "length b = 4 \<Longrightarrow> write_FveUseKeyDatum (read_FveUseKeyDatum b) = b"
  by (simp add: write_FveUseKeyDatum_def read_FveUseKeyDatum_def layout_simps)

lemma length_write_FveUseKeyDatum [simp, len_simps]: "length (write_FveUseKeyDatum x) = 4"
  by (simp add: write_FveUseKeyDatum_def)

lemma read_write_FveUseKeyDatum [simp, cancel_simps]: "read_FveUseKeyDatum (write_FveUseKeyDatum x @ rest) = x"
  by (simp add: write_FveUseKeyDatum_def read_FveUseKeyDatum_def le_skip slice_skip slice_front)

record FveNonce =
  nonce_DateTime :: u64
  nonce_Counter :: u32

definition size_FveNonce :: nat where
  "size_FveNonce = 12"

definition read_FveNonce :: "bytes \<Rightarrow> FveNonce" where
  "read_FveNonce b =
    \<lparr>nonce_DateTime = le64 b 0,
     nonce_Counter = le32 b 8\<rparr>"

definition write_FveNonce :: "FveNonce \<Rightarrow> bytes" where
  "write_FveNonce x =
    put64 (nonce_DateTime x) @
    put32 (nonce_Counter x)"

lemma write_read_FveNonce: "length b = 12 \<Longrightarrow> write_FveNonce (read_FveNonce b) = b"
  by (simp add: write_FveNonce_def read_FveNonce_def layout_simps)

lemma length_write_FveNonce [simp, len_simps]: "length (write_FveNonce x) = 12"
  by (simp add: write_FveNonce_def)

lemma read_write_FveNonce [simp, cancel_simps]: "read_FveNonce (write_FveNonce x @ rest) = x"
  by (simp add: write_FveNonce_def read_FveNonce_def le_skip slice_skip slice_front)

record FveAesCcmEncryptedDatum =
  aes_Nonce :: FveNonce
  aes_Mac :: bytes

definition size_FveAesCcmEncryptedDatum :: nat where
  "size_FveAesCcmEncryptedDatum = 28"

definition read_FveAesCcmEncryptedDatum :: "bytes \<Rightarrow> FveAesCcmEncryptedDatum" where
  "read_FveAesCcmEncryptedDatum b =
    \<lparr>aes_Nonce = read_FveNonce (slice b 0 12),
     aes_Mac = slice b 12 16\<rparr>"

definition write_FveAesCcmEncryptedDatum :: "FveAesCcmEncryptedDatum \<Rightarrow> bytes" where
  "write_FveAesCcmEncryptedDatum x =
    write_FveNonce (aes_Nonce x) @
    aes_Mac x"

lemma write_read_FveAesCcmEncryptedDatum: "length b = 28 \<Longrightarrow> write_FveAesCcmEncryptedDatum (read_FveAesCcmEncryptedDatum b) = b"
  by (simp add: write_FveAesCcmEncryptedDatum_def read_FveAesCcmEncryptedDatum_def layout_simps write_read_FveNonce)

lemma length_write_FveAesCcmEncryptedDatum [simp, len_simps]: "length (aes_Mac x) = 16 \<Longrightarrow> length (write_FveAesCcmEncryptedDatum x) = 28"
  by (simp add: write_FveAesCcmEncryptedDatum_def)

lemma read_write_FveAesCcmEncryptedDatum [simp, cancel_simps]: "length (aes_Mac x) = 16 \<Longrightarrow> read_FveAesCcmEncryptedDatum (write_FveAesCcmEncryptedDatum x @ rest) = x"
  by (simp add: write_FveAesCcmEncryptedDatum_def read_FveAesCcmEncryptedDatum_def le_skip slice_skip slice_front read_write_FveNonce [of _ "[]", simplified])

record FveVmkInfo =
  vmk_GuidIdentifier :: bytes
  vmk_DateTime :: u64
  vmk_Unknown :: u16
  vmk_ProtectorType :: u16

definition size_FveVmkInfo :: nat where
  "size_FveVmkInfo = 28"

definition read_FveVmkInfo :: "bytes \<Rightarrow> FveVmkInfo" where
  "read_FveVmkInfo b =
    \<lparr>vmk_GuidIdentifier = slice b 0 16,
     vmk_DateTime = le64 b 16,
     vmk_Unknown = le16 b 24,
     vmk_ProtectorType = le16 b 26\<rparr>"

definition write_FveVmkInfo :: "FveVmkInfo \<Rightarrow> bytes" where
  "write_FveVmkInfo x =
    vmk_GuidIdentifier x @
    put64 (vmk_DateTime x) @
    put16 (vmk_Unknown x) @
    put16 (vmk_ProtectorType x)"

lemma write_read_FveVmkInfo: "length b = 28 \<Longrightarrow> write_FveVmkInfo (read_FveVmkInfo b) = b"
  by (simp add: write_FveVmkInfo_def read_FveVmkInfo_def layout_simps)

lemma length_write_FveVmkInfo [simp, len_simps]: "length (vmk_GuidIdentifier x) = 16 \<Longrightarrow> length (write_FveVmkInfo x) = 28"
  by (simp add: write_FveVmkInfo_def)

lemma read_write_FveVmkInfo [simp, cancel_simps]: "length (vmk_GuidIdentifier x) = 16 \<Longrightarrow> read_FveVmkInfo (write_FveVmkInfo x @ rest) = x"
  by (simp add: write_FveVmkInfo_def read_FveVmkInfo_def le_skip slice_skip slice_front)

record FveExternalInfo =
  ext_GuidIdentifier :: bytes
  ext_DateTime :: u64

definition size_FveExternalInfo :: nat where
  "size_FveExternalInfo = 24"

definition read_FveExternalInfo :: "bytes \<Rightarrow> FveExternalInfo" where
  "read_FveExternalInfo b =
    \<lparr>ext_GuidIdentifier = slice b 0 16,
     ext_DateTime = le64 b 16\<rparr>"

definition write_FveExternalInfo :: "FveExternalInfo \<Rightarrow> bytes" where
  "write_FveExternalInfo x =
    ext_GuidIdentifier x @
    put64 (ext_DateTime x)"

lemma write_read_FveExternalInfo: "length b = 24 \<Longrightarrow> write_FveExternalInfo (read_FveExternalInfo b) = b"
  by (simp add: write_FveExternalInfo_def read_FveExternalInfo_def layout_simps)

lemma length_write_FveExternalInfo [simp, len_simps]: "length (ext_GuidIdentifier x) = 16 \<Longrightarrow> length (write_FveExternalInfo x) = 24"
  by (simp add: write_FveExternalInfo_def)

lemma read_write_FveExternalInfo [simp, cancel_simps]: "length (ext_GuidIdentifier x) = 16 \<Longrightarrow> read_FveExternalInfo (write_FveExternalInfo x @ rest) = x"
  by (simp add: write_FveExternalInfo_def read_FveExternalInfo_def le_skip slice_skip slice_front)

record FveVirtualizationInfo =
  virt_VirtualizedBlockOffset :: u64
  virt_VirtualizedBlockSize :: u64

definition size_FveVirtualizationInfo :: nat where
  "size_FveVirtualizationInfo = 16"

definition read_FveVirtualizationInfo :: "bytes \<Rightarrow> FveVirtualizationInfo" where
  "read_FveVirtualizationInfo b =
    \<lparr>virt_VirtualizedBlockOffset = le64 b 0,
     virt_VirtualizedBlockSize = le64 b 8\<rparr>"

definition write_FveVirtualizationInfo :: "FveVirtualizationInfo \<Rightarrow> bytes" where
  "write_FveVirtualizationInfo x =
    put64 (virt_VirtualizedBlockOffset x) @
    put64 (virt_VirtualizedBlockSize x)"

lemma write_read_FveVirtualizationInfo: "length b = 16 \<Longrightarrow> write_FveVirtualizationInfo (read_FveVirtualizationInfo b) = b"
  by (simp add: write_FveVirtualizationInfo_def read_FveVirtualizationInfo_def layout_simps)

lemma length_write_FveVirtualizationInfo [simp, len_simps]: "length (write_FveVirtualizationInfo x) = 16"
  by (simp add: write_FveVirtualizationInfo_def)

lemma read_write_FveVirtualizationInfo [simp, cancel_simps]: "read_FveVirtualizationInfo (write_FveVirtualizationInfo x @ rest) = x"
  by (simp add: write_FveVirtualizationInfo_def read_FveVirtualizationInfo_def le_skip slice_skip slice_front)

end
