(* ===== verification/Datum.thy ===== *)
theory Datum
  imports Types GoIO Ccm Unicode
begin

section \<open>Datums (\<open>information.go\<close>)\<close>

text \<open>
  A datum is a header, an optional payload, a type-specific structure and nested datums
  (properties). \<open>ReadDatum\<close> and \<open>readProperties\<close> call each other on the same stream; the
  stream is the byte string still to be read, and every read is \<open>io.ReadFull\<close> (\<open>takeFull\<close>). So the
  \<open>io.Reader\<close> is the reader of a byte string, as the package has it: it reads datums from a \<open>bytes.Reader\<close>,
  and only \<open>NewValidation\<close>, which it never calls, would pass on its caller's reader.

  The recursion is bounded by the stream: each \<open>ReadDatum\<close> that returns a datum consumes at
  least its 8-byte header, also when the size field says 0. The definitions carry fuel, which
  \<open>ReadDatum\<close> sets to twice the stream length plus one; \<open>ReadDatum_unfold\<close> and
  \<open>readProperties_unfold\<close> are the recursion of the code without fuel, and
  \<open>readDatum_no_panic\<close> says that the fuel never runs out.
\<close>

datatype datumStruct =
    NoStruct
  | KeyStruct u16 u16
  | StretchStruct FveStretchKeyDatum
  | UseKeyStruct FveUseKeyDatum
  | AesCcmStruct FveAesCcmEncryptedDatum
  | VmkStruct FveVmkInfo
  | ExternalStruct FveExternalInfo
  | VirtStruct FveVirtualizationInfo

text \<open>\<open>d_data\<close> is \<open>None\<close> for a nil slice.\<close>

datatype Datum =
  Datum (d_header: FveDatum) (d_data: "bytes option") (d_size: u16)
    (d_structure: datumStruct) (d_properties: "Datum list")

definition Role :: "Datum \<Rightarrow> u16" where
  "Role d = fd_Role (d_header d)"

definition Type :: "Datum \<Rightarrow> u16" where
  "Type d = fd_Type (d_header d)"

definition Size :: "Datum \<Rightarrow> int" where
  "Size d = int (unat (d_size d))"

definition dataBytes :: "Datum \<Rightarrow> bytes" where
  "dataBytes d = (case d_data d of Some b \<Rightarrow> b | None \<Rightarrow> [])"

subsection \<open>Reading\<close>

text \<open>Sequencing of reads: the first error ends the function with the stream where it is.\<close>

definition andThen :: "'a result \<times> bytes \<Rightarrow> ('a \<Rightarrow> bytes \<Rightarrow> 'b result \<times> bytes) \<Rightarrow> 'b result \<times> bytes" where
  "andThen m k =
     (case m of
        (Ok x, bs) \<Rightarrow> k x bs
      | (Error e, bs) \<Rightarrow> (Error e, bs)
      | (Panic s, bs) \<Rightarrow> (Panic s, bs))"

lemma andThen_simps [simp]:
  "andThen (Ok x, bs) k = k x bs"
  "andThen (Error e, bs) k = (Error e, bs)"
  "andThen (Panic s, bs) k = (Panic s, bs)"
  by (simp_all add: andThen_def)

text \<open>The payload branch: \<open>dataSize\<close> bytes when positive, otherwise the field stays nil.\<close>

definition readPayload :: "FveDatum \<Rightarrow> datumStruct \<Rightarrow> int \<Rightarrow> bytes \<Rightarrow> Datum result \<times> bytes" where
  "readPayload h st dataSize bs =
     (if 0 < dataSize then
        andThen (takeFull (nat dataSize) bs) (\<lambda>b bs. (Ok (Datum h (Some b) (fd_Size h) st []), bs))
      else (Ok (Datum h None (fd_Size h) st []), bs))"

text \<open>The struct size \<open>readProperties\<close> subtracts, by datum type.\<close>

definition structSize :: "u16 \<Rightarrow> int" where
  "structSize t =
     (if t = FveDatumTypeStretchKey then int size_FveStretchKeyDatum
      else if t = FveDatumTypeUseKey then int size_FveUseKeyDatum
      else if t = FveDatumTypeVolumeMasterKeyInfo then int size_FveVmkInfo
      else if t = FveDatumTypeExternalInfo then int size_FveExternalInfo
      else 0)"

text \<open>The branch of the complex datums: the struct, then the nested datums.\<close>

definition readComplex ::
    "(int \<Rightarrow> bytes \<Rightarrow> Datum list result \<times> bytes) \<Rightarrow> FveDatum \<Rightarrow> nat \<Rightarrow> (bytes \<Rightarrow> datumStruct) \<Rightarrow>
     bytes \<Rightarrow> Datum result \<times> bytes" where
  "readComplex props h n mk bs =
     andThen (takeFull n bs) (\<lambda>b bs.
       andThen (props (int (unat (fd_Size h)) - 8 - structSize (fd_Type h)) bs) (\<lambda>ps bs.
         (Ok (Datum h None (fd_Size h) (mk b) ps), bs)))"

text \<open>The body of \<open>ReadDatum\<close> after the header, over the function that reads properties.\<close>

definition readBody ::
    "(int \<Rightarrow> bytes \<Rightarrow> Datum list result \<times> bytes) \<Rightarrow> FveDatum \<Rightarrow> bytes \<Rightarrow> Datum result \<times> bytes" where
  "readBody props h bs =
     (let t = fd_Type h; size = int (unat (fd_Size h)) in
      if t = FveDatumTypeKey then
        andThen (takeFull 4 bs) (\<lambda>b.
          readPayload h (KeyStruct (le16 b 0) (le16 b 2)) (size - 8 - 4))
      else if t = FveDatumTypeStretchKey then
        readComplex props h size_FveStretchKeyDatum (\<lambda>b. StretchStruct (read_FveStretchKeyDatum b)) bs
      else if t = FveDatumTypeUseKey then
        readComplex props h size_FveUseKeyDatum (\<lambda>b. UseKeyStruct (read_FveUseKeyDatum b)) bs
      else if t = FveDatumTypeAesCcmEncryptedKey then
        andThen (takeFull size_FveAesCcmEncryptedDatum bs) (\<lambda>b.
          readPayload h (AesCcmStruct (read_FveAesCcmEncryptedDatum b))
            (size - 8 - int size_FveAesCcmEncryptedDatum))
      else if t = FveDatumTypeUnicode then readPayload h NoStruct (size - 8) bs
      else if t = FveDatumTypeVolumeMasterKeyInfo then
        readComplex props h size_FveVmkInfo (\<lambda>b. VmkStruct (read_FveVmkInfo b)) bs
      else if t = FveDatumTypeExternalInfo then
        readComplex props h size_FveExternalInfo (\<lambda>b. ExternalStruct (read_FveExternalInfo b)) bs
      else if t = FveDatumTypeVirtualizationInfo then
        andThen (takeFull size_FveVirtualizationInfo bs) (\<lambda>b bs.
          (Ok (Datum h None (fd_Size h) (VirtStruct (read_FveVirtualizationInfo b)) []), bs))
      else readPayload h NoStruct (size - 8) bs)"

fun readDatum_f :: "nat \<Rightarrow> bytes \<Rightarrow> Datum result \<times> bytes"
  and readProps_f :: "nat \<Rightarrow> Datum list \<Rightarrow> int \<Rightarrow> bytes \<Rightarrow> Datum list result \<times> bytes" where
  "readDatum_f 0 bs = (Panic ''out of fuel'', bs)"
| "readDatum_f (Suc f) bs =
     andThen (takeFull size_FveDatum bs) (\<lambda>hb bs. readBody (readProps_f f []) (read_FveDatum hb) bs)"
| "readProps_f 0 acc dataSize bs = (Panic ''out of fuel'', bs)"
| "readProps_f (Suc f) acc dataSize bs =
     (if dataSize \<le> 0 then (Ok acc, bs)
      else if dataSize < 8 then (Ok acc, bs)
      else case readDatum_f f bs of
             (Ok p, bs') \<Rightarrow> readProps_f f (acc @ [p]) (dataSize - Size p) bs'
           | (Error e, bs') \<Rightarrow> if is_eof e then (Ok acc, bs') else (Error e, bs')
           | (Panic s, bs') \<Rightarrow> (Panic s, bs'))"

definition ReadDatum :: "bytes \<Rightarrow> Datum result \<times> bytes" where
  "ReadDatum bs = readDatum_f (2 * length bs + 1) bs"

definition readProperties :: "Datum list \<Rightarrow> int \<Rightarrow> bytes \<Rightarrow> Datum list result \<times> bytes" where
  "readProperties acc dataSize bs = readProps_f (2 * length bs + 2) acc dataSize bs"

subsection \<open>Consumption and fuel\<close>

lemma andThen_Ok_iff:
  "andThen m k = (Ok y, bs') \<longleftrightarrow> (\<exists>x bs. m = (Ok x, bs) \<and> k x bs = (Ok y, bs'))"
  by (cases m; cases "fst m") auto

lemma andThen_cong:
  assumes "\<And>x r. m = (Ok x, r) \<Longrightarrow> f x r = g x r"
  shows "andThen m f = andThen m g"
  using assms by (cases m; cases "fst m") auto

text \<open>
  What every reader of the package does with its stream: a result leaves at least \<open>k\<close> bytes
  fewer, an error is an end of file and leaves nothing, and there is no panic.
\<close>

definition consumes :: "nat \<Rightarrow> bytes \<Rightarrow> 'a result \<times> bytes \<Rightarrow> bool" where
  "consumes k bs m =
     (case m of
        (Ok x, r) \<Rightarrow> length r + k \<le> length bs
      | (Error e, r) \<Rightarrow> is_eof e \<and> r = []
      | (Panic s, r) \<Rightarrow> False)"

lemma consumes_simps [simp]:
  "consumes k bs (Ok x, r) \<longleftrightarrow> length r + k \<le> length bs"
  "consumes k bs (Error e, r) \<longleftrightarrow> is_eof e \<and> r = []"
  "\<not> consumes k bs (Panic s, r)"
  by (simp_all add: consumes_def)

lemma consumes_takeFull: "consumes n bs (takeFull n bs)"
  by (auto simp: takeFull_def)

lemma consumes_andThen:
  assumes "consumes j bs m" and "\<And>x r. m = (Ok x, r) \<Longrightarrow> length r + j \<le> length bs \<Longrightarrow> consumes k r (f x r)"
  shows "consumes (j + k) bs (andThen m f)"
proof -
  obtain x r where m: "m = (x, r)" by fastforce
  show ?thesis
  proof (cases x)
    case (Ok y)
    with assms(1) m have le: "length r + j \<le> length bs" by simp
    with assms(2) [of y r] m Ok have "consumes k r (f y r)" by simp
    with le m Ok show ?thesis by (auto simp: consumes_def split: result.splits)
  qed (use assms(1) m in simp_all)
qed

lemma consumes_weaken: "consumes j bs m \<Longrightarrow> k \<le> j \<Longrightarrow> consumes k bs m"
  by (auto simp: consumes_def split: prod.splits result.splits)

lemma readPayload_consumes: "consumes 0 bs (readPayload h st sz bs)"
proof (cases "0 < sz")
  case True
  have "consumes (nat sz + 0) bs (readPayload h st sz bs)"
    unfolding readPayload_def using True
    by (simp only: if_True) (rule consumes_andThen [OF consumes_takeFull], simp)
  then show ?thesis by (rule consumes_weaken) simp
qed (simp add: readPayload_def)

text \<open>Whatever the type, the body is a struct followed by a payload, by properties or by nothing.\<close>

lemma readBody_form:
  obtains (payload) n mk sz where "\<And>props bs. readBody props h bs =
        andThen (takeFull n bs) (\<lambda>b. readPayload h (mk b) sz)"
  | (complex) n mk where "\<And>props bs. readBody props h bs = readComplex props h n mk bs"
  | (struct) n mk where "\<And>props bs. readBody props h bs =
        andThen (takeFull n bs) (\<lambda>b bs. (Ok (Datum h None (fd_Size h) (mk b) []), bs))"
proof -
  have bare: "readPayload h NoStruct sz bs = andThen (takeFull 0 bs) (\<lambda>b. readPayload h NoStruct sz)"
    for sz bs by (simp add: takeFull_def)
  show ?thesis
    apply (cases "fd_Type h = FveDatumTypeKey")
     apply (rule payload, simp add: readBody_def Let_def)
    apply (cases "fd_Type h = FveDatumTypeStretchKey")
     apply (rule complex, simp add: readBody_def Let_def)
    apply (cases "fd_Type h = FveDatumTypeUseKey")
     apply (rule complex, simp add: readBody_def Let_def)
    apply (cases "fd_Type h = FveDatumTypeAesCcmEncryptedKey")
     apply (rule payload, simp add: readBody_def Let_def)
    apply (cases "fd_Type h = FveDatumTypeUnicode")
     apply (rule payload, simp add: readBody_def Let_def, rule bare)
    apply (cases "fd_Type h = FveDatumTypeVolumeMasterKeyInfo")
     apply (rule complex, simp add: readBody_def Let_def)
    apply (cases "fd_Type h = FveDatumTypeExternalInfo")
     apply (rule complex, simp add: readBody_def Let_def)
    apply (cases "fd_Type h = FveDatumTypeVirtualizationInfo")
     apply (rule struct, simp add: readBody_def Let_def)
    apply (rule payload, simp add: readBody_def Let_def, rule bare)
    done
qed

lemma readBody_consumes:
  assumes P: "\<And>n r. length r \<le> length bs \<Longrightarrow> consumes 0 r (props n r)"
  shows "consumes 0 bs (readBody props h bs)"
proof (cases rule: readBody_form [of h])
  case (payload n mk sz)
  have "consumes (n + 0) bs (readBody props h bs)"
    unfolding payload by (intro consumes_andThen consumes_takeFull readPayload_consumes)
  then show ?thesis by (rule consumes_weaken) simp
next
  case (complex n mk)
  have "consumes (n + (0 + 0)) bs (readBody props h bs)"
    unfolding complex readComplex_def
    by (intro consumes_andThen consumes_takeFull P) (auto intro: P)
  then show ?thesis by (rule consumes_weaken) simp
next
  case (struct n mk)
  have "consumes (n + 0) bs (readBody props h bs)"
    unfolding struct by (intro consumes_andThen consumes_takeFull) simp
  then show ?thesis by (rule consumes_weaken) simp
qed

lemma readDatum_f_consumes:
  "2 * length bs + 1 \<le> f \<Longrightarrow> consumes 8 bs (readDatum_f f bs)"
  "2 * length bs + 2 \<le> f \<Longrightarrow> \<exists>ps r. readProps_f f acc n bs = (Ok ps, r) \<and> length r \<le> length bs"
proof (induction f bs and f acc n bs rule: readDatum_f_readProps_f.induct)
  case (2 f bs)
  have body: "consumes 0 r (readBody (readProps_f f []) (read_FveDatum hb) r)"
    if "length r + size_FveDatum \<le> length bs" for hb r
  proof (rule readBody_consumes)
    fix n q assume "length (q::bytes) \<le> length r"
    with that "2.prems" have "2 * length q + 2 \<le> f" by (simp add: size_FveDatum_def)
    from "2.IH" [OF this, of n] show "consumes 0 q (readProps_f f [] n q)" by auto
  qed
  have "consumes (size_FveDatum + 0) bs (readDatum_f (Suc f) bs)"
    unfolding readDatum_f.simps by (intro consumes_andThen consumes_takeFull body)
  then show ?case by (simp add: size_FveDatum_def)
next
  case (4 f acc n bs)
  show ?case
  proof (cases "n < 8")
    case False
    obtain x r where x: "readDatum_f f bs = (x, r)" by fastforce
    from "4.IH"(1) False "4.prems" x have c: "consumes 8 bs (x, r)" by simp
    show ?thesis
    proof (cases x)
      case (Ok p)
      from c Ok "4.prems" have "2 * length r + 2 \<le> f" and le: "length r \<le> length bs" by auto
      with "4.IH"(2) [OF _ _ x [symmetric] Ok] False
      obtain ps r' where "readProps_f f (acc @ [p]) (n - Size p) r = (Ok ps, r')" "length r' \<le> length r"
        by auto
      with x Ok False le show ?thesis by simp
    qed (use c x False in auto)
  qed auto
qed simp_all

lemma readBody_cong:
  assumes P: "\<And>n r. length r \<le> length bs \<Longrightarrow> props n r = props' n r"
  shows "readBody props h bs = readBody props' h bs"
proof (cases rule: readBody_form [of h])
  case (complex n mk)
  show ?thesis unfolding complex readComplex_def
    by (cases "takeFull n bs"; cases "fst (takeFull n bs)") (auto simp: P dest: takeFull_Ok)
qed simp_all

lemma fuel_irrelevant:
  "2 * length bs + 1 \<le> f \<Longrightarrow> 2 * length bs + 1 \<le> g \<Longrightarrow> readDatum_f f bs = readDatum_f g bs"
  "2 * length bs + 2 \<le> f \<Longrightarrow> 2 * length bs + 2 \<le> g \<Longrightarrow> readProps_f f acc n bs = readProps_f g acc n bs"
proof (induction f bs and f acc n bs arbitrary: g and g rule: readDatum_f_readProps_f.induct)
  case (2 f bs)
  from "2.prems" obtain g' where g: "g = Suc g'" by (cases g) auto
  have body: "readBody (readProps_f f []) (read_FveDatum hb) r = readBody (readProps_f g' []) (read_FveDatum hb) r"
    if "takeFull size_FveDatum bs = (Ok hb, r)" for hb r
  proof (rule readBody_cong)
    fix n :: int and q :: bytes assume "length q \<le> length r"
    with takeFull_Ok [OF that] "2.prems" g have "2 * length q + 2 \<le> f" "2 * length q + 2 \<le> g'"
      by (auto simp: size_FveDatum_def)
    from "2.IH" [OF this, of n] show "readProps_f f [] n q = readProps_f g' [] n q" by auto
  qed
  show ?case
    unfolding g readDatum_f.simps(2) by (rule andThen_cong) (erule body)
next
  case (4 f acc n bs)
  from "4.prems" obtain g' where g: "g = Suc g'" by (cases g) auto
  show ?case
  proof (cases "n < 8")
    case False
    obtain x r where x: "readDatum_f f bs = (x, r)" by fastforce
    from "4.IH"(1) [of g'] False "4.prems" x g have x': "readDatum_f g' bs = (x, r)" by simp
    from readDatum_f_consumes(1) [of bs f] "4.prems" x have c: "consumes 8 bs (x, r)" by simp
    show ?thesis
    proof (cases x)
      case (Ok p)
      from c Ok "4.prems" g have "2 * length r + 2 \<le> f" "2 * length r + 2 \<le> g'" by auto
      then have "readProps_f f (acc @ [p]) (n - Size p) r = readProps_f g' (acc @ [p]) (n - Size p) r"
        using "4.IH"(2) [OF _ _ x [symmetric] Ok, of g'] False by simp
      with x x' Ok False show ?thesis by (simp add: g)
    qed (use x x' False g in auto)
  qed (simp add: g)
qed simp_all

declare readDatum_f.simps [simp del] readProps_f.simps [simp del]

text \<open>The recursion of the code, without fuel.\<close>

lemma ReadDatum_unfold:
  "ReadDatum bs =
     andThen (takeFull size_FveDatum bs) (\<lambda>hb. readBody (readProperties []) (read_FveDatum hb))"
proof -
  have body: "readBody (readProps_f (2 * length bs) []) (read_FveDatum hb) r
      = readBody (readProperties []) (read_FveDatum hb) r"
    if "takeFull size_FveDatum bs = (Ok hb, r)" for hb r
  proof (rule readBody_cong)
    fix n :: int and q :: bytes assume "length q \<le> length r"
    with takeFull_Ok [OF that] have "2 * length q + 2 \<le> 2 * length bs" by (auto simp: size_FveDatum_def)
    then show "readProps_f (2 * length bs) [] n q = readProperties [] n q"
      unfolding readProperties_def by (rule fuel_irrelevant(2)) simp
  qed
  have "readDatum_f (Suc (2 * length bs)) bs
      = andThen (takeFull size_FveDatum bs) (\<lambda>hb. readBody (readProperties []) (read_FveDatum hb))"
    unfolding readDatum_f.simps(2) by (rule andThen_cong) (erule body)
  then show ?thesis by (simp add: ReadDatum_def)
qed

lemma ReadDatum_consumes: "consumes 8 bs (ReadDatum bs)"
  by (simp add: ReadDatum_def readDatum_f_consumes)

lemma ReadDatum_cases:
  obtains (ok) d r where "ReadDatum bs = (Ok d, r)" "length r + 8 \<le> length bs"
  | (eof) e where "ReadDatum bs = (Error e, [])" "is_eof e"
proof (cases "ReadDatum bs")
  case (Pair x r)
  with ReadDatum_consumes [of bs] ok eof show thesis by (cases x) auto
qed

lemma readProperties_unfold:
  "readProperties acc n bs =
     (if n < 8 then (Ok acc, bs)
      else case ReadDatum bs of
             (Ok p, bs') \<Rightarrow> readProperties (acc @ [p]) (n - Size p) bs'
           | (_, bs') \<Rightarrow> (Ok acc, bs'))"
proof (cases "n < 8")
  case False
  have d: "readDatum_f (2 * length bs + 1) bs = ReadDatum bs" by (simp add: ReadDatum_def)
  have u: "readProperties acc n bs = readProps_f (Suc (2 * length bs + 1)) acc n bs"
    by (simp add: readProperties_def)
  show ?thesis
  proof (cases bs rule: ReadDatum_cases)
    case (ok d r)
    then have "readProps_f (2 * length bs + 1) (acc @ [d]) (n - Size d) r
        = readProperties (acc @ [d]) (n - Size d) r"
      unfolding readProperties_def by (intro fuel_irrelevant(2)) auto
    with ok False d show ?thesis
      unfolding u readProps_f.simps(2) by simp
  next
    case (eof e)
    with False d show ?thesis
      unfolding u readProps_f.simps(2) by simp
  qed
qed (simp add: readProperties_def readProps_f.simps)

lemma readProperties_total: "\<exists>ps r. readProperties acc n bs = (Ok ps, r) \<and> length r \<le> length bs"
  unfolding readProperties_def by (rule readDatum_f_consumes) simp

subsection \<open>Accessors\<close>

text \<open>
  The functions whose last result is \<open>ok\<close> return an option: \<open>None\<close> is \<open>ok = false\<close> with every
  other result its zero value. A time is the number of nanoseconds since 1970 (\<open>time.Unix(0, n)\<close>).
\<close>

definition Text :: "Datum \<Rightarrow> string" where
  "Text d =
     (if Type d \<noteq> FveDatumTypeUnicode \<or> dataBytes d = [] then []
      else utf16leText (dataBytes d))"

definition GetKey :: "Datum \<Rightarrow> (u16 \<times> u16 \<times> bytes) option" where
  "GetKey d =
     (if Type d \<noteq> FveDatumTypeKey then None
      else case d_structure d of
             KeyStruct t f \<Rightarrow> Some (t, f, dataBytes d)
           | _ \<Rightarrow> None)"

definition GetStretchKey :: "Datum \<Rightarrow> (u16 \<times> u16 \<times> bytes) option" where
  "GetStretchKey d =
     (if Type d \<noteq> FveDatumTypeStretchKey then None
      else case d_structure d of
             StretchStruct s \<Rightarrow> Some (sk_KeyType s, sk_KeyFlags s, sk_Salt s)
           | _ \<Rightarrow> None)"

definition GetUseKey :: "Datum \<Rightarrow> (u16 \<times> u16) option" where
  "GetUseKey d =
     (if Type d \<noteq> FveDatumTypeUseKey then None
      else case d_structure d of
             UseKeyStruct s \<Rightarrow> Some (uk_KeyType s, uk_KeyFlags s)
           | _ \<Rightarrow> None)"

definition filetimeToUnix :: "u64 \<Rightarrow> int" where
  "filetimeToUnix t = sint ((t - 116444736000000000) * 100)"

definition GetAesCcmEncrypted :: "Datum \<Rightarrow> (int \<times> u32 \<times> bytes \<times> bytes) option" where
  "GetAesCcmEncrypted d =
     (if Type d \<noteq> FveDatumTypeAesCcmEncryptedKey then None
      else case d_structure d of
             AesCcmStruct a \<Rightarrow>
               Some (filetimeToUnix (nonce_DateTime (aes_Nonce a)), nonce_Counter (aes_Nonce a),
                     aes_Mac a, dataBytes d)
           | _ \<Rightarrow> None)"

definition GetVmkInfo :: "Datum \<Rightarrow> FveVmkInfo option" where
  "GetVmkInfo d =
     (if Type d \<noteq> FveDatumTypeVolumeMasterKeyInfo then None
      else case d_structure d of VmkStruct v \<Rightarrow> Some v | _ \<Rightarrow> None)"

definition GetExternalInfo :: "Datum \<Rightarrow> FveExternalInfo option" where
  "GetExternalInfo d =
     (if Type d \<noteq> FveDatumTypeExternalInfo then None
      else case d_structure d of ExternalStruct v \<Rightarrow> Some v | _ \<Rightarrow> None)"

definition FindProperty :: "Datum \<Rightarrow> u16 \<Rightarrow> Datum list" where
  "FindProperty d typ =
     filter (\<lambda>p. Role p = FveDatumRoleProperty \<and> (typ = 0 \<or> Type p = typ)) (d_properties d)"

subsection \<open>Unboxing\<close>

definition unboxNonce :: "FveNonce \<Rightarrow> bytes" where
  "unboxNonce n = put64 (nonce_DateTime n) @ put32 (nonce_Counter n)"

text \<open>The datum built from a decrypted key container: a 12-byte header, then the key.\<close>

definition containerKey :: "bytes \<Rightarrow> Datum" where
  "containerKey plaintext =
     (let encMethod = le32 plaintext 8;
          keyData = drop 12 plaintext;
          size = word_of_nat (8 + 4 + length keyData) in
      Datum \<lparr>fd_Size = size, fd_Role = FveDatumRoleProperty, fd_Type = FveDatumTypeKey, fd_Flags = 0\<rparr>
        (Some keyData) size (KeyStruct (ucast (encMethod AND 0xffff)) 0) [])"

definition Unbox :: "Datum \<Rightarrow> bytes \<Rightarrow> Datum result" where
  "Unbox d key =
     (if Type d \<noteq> FveDatumTypeAesCcmEncryptedKey then
        Error (Msg ''only AES-CCM encrypted datums can be unboxed'')
      else case d_structure d of
        AesCcmStruct a \<Rightarrow>
          if dataBytes d = [] then Error (Msg ''empty AES-CCM ciphertext'')
          else bindR (ccmDecrypt key (unboxNonce (aes_Nonce a)) (dataBytes d) (aes_Mac a) [])
            (\<lambda>plaintext.
               if length plaintext < 12 then Error (Msg ''invalid key container plaintext'')
               else Ok (containerKey plaintext))
      | _ \<Rightarrow> Error (Msg ''invalid AES-CCM encrypted datum structure''))"

subsection \<open>The byte format\<close>

text \<open>
  The reference encoding: header, struct, payload and nested datums one after the other. A
  datum is well-formed when its size field is the length of its encoding, its struct is the
  one of its type, and payload and nested datums occur where its type has them.
\<close>

definition encodeStruct :: "datumStruct \<Rightarrow> bytes" where
  "encodeStruct st =
     (case st of
        NoStruct \<Rightarrow> []
      | KeyStruct t f \<Rightarrow> put16 t @ put16 f
      | StretchStruct s \<Rightarrow> write_FveStretchKeyDatum s
      | UseKeyStruct s \<Rightarrow> write_FveUseKeyDatum s
      | AesCcmStruct s \<Rightarrow> write_FveAesCcmEncryptedDatum s
      | VmkStruct s \<Rightarrow> write_FveVmkInfo s
      | ExternalStruct s \<Rightarrow> write_FveExternalInfo s
      | VirtStruct s \<Rightarrow> write_FveVirtualizationInfo s)"

fun encodeDatum :: "Datum \<Rightarrow> bytes" where
  "encodeDatum (Datum h b sz st ps) =
     write_FveDatum h @ encodeStruct st @ (case b of Some p \<Rightarrow> p | None \<Rightarrow> []) @
     concat (map encodeDatum ps)"

definition complexTypes :: "u16 list" where
  "complexTypes = [FveDatumTypeStretchKey, FveDatumTypeUseKey, FveDatumTypeVolumeMasterKeyInfo,
     FveDatumTypeExternalInfo]"

definition structOk :: "u16 \<Rightarrow> datumStruct \<Rightarrow> bool" where
  "structOk t st \<longleftrightarrow>
     (case st of
        NoStruct \<Rightarrow> t \<notin> set complexTypes \<and> t \<noteq> FveDatumTypeKey \<and>
          t \<noteq> FveDatumTypeAesCcmEncryptedKey \<and> t \<noteq> FveDatumTypeVirtualizationInfo
      | KeyStruct _ _ \<Rightarrow> t = FveDatumTypeKey
      | StretchStruct s \<Rightarrow> t = FveDatumTypeStretchKey \<and> length (sk_Salt s) = 16
      | UseKeyStruct s \<Rightarrow> t = FveDatumTypeUseKey
      | AesCcmStruct s \<Rightarrow> t = FveDatumTypeAesCcmEncryptedKey \<and> length (aes_Mac s) = 16
      | VmkStruct s \<Rightarrow> t = FveDatumTypeVolumeMasterKeyInfo \<and> length (vmk_GuidIdentifier s) = 16
      | ExternalStruct s \<Rightarrow> t = FveDatumTypeExternalInfo \<and> length (ext_GuidIdentifier s) = 16
      | VirtStruct s \<Rightarrow> t = FveDatumTypeVirtualizationInfo)"

fun wfDatum :: "Datum \<Rightarrow> bool" where
  "wfDatum (Datum h b sz st ps) \<longleftrightarrow>
     sz = fd_Size h \<and> unat sz = length (encodeDatum (Datum h b sz st ps)) \<and>
     structOk (fd_Type h) st \<and>
     (if fd_Type h \<in> set complexTypes then b = None \<and> (\<forall>p \<in> set ps. wfDatum p)
      else ps = [] \<and> b \<noteq> Some [] \<and> (fd_Type h = FveDatumTypeVirtualizationInfo \<longrightarrow> b = None))"

declare encodeDatum.simps [simp del] wfDatum.simps [simp del]

lemma wfDatum_size: "wfDatum d \<Longrightarrow> Size d = int (length (encodeDatum d))"
  by (cases d) (simp add: wfDatum.simps Size_def del: of_nat_unat)

lemma encodeDatum_min: "8 \<le> length (encodeDatum d)"
  by (cases d) (simp add: encodeDatum.simps)

lemma readPayload_encode:
  assumes "n = int (length p)"
  shows "readPayload h st n (p @ rest) =
    (Ok (Datum h (if p = [] then None else Some p) (fd_Size h) st []), rest)"
  using assms by (auto simp: readPayload_def)

lemma readProperties_encode:
  assumes "\<And>p rest. p \<in> set ps \<Longrightarrow> ReadDatum (encodeDatum p @ rest) = (Ok p, rest)"
    and "\<forall>p \<in> set ps. wfDatum p"
  shows "readProperties acc (int (length (concat (map encodeDatum ps)))) (concat (map encodeDatum ps) @ rest)
    = (Ok (acc @ ps), rest)"
  using assms
proof (induction ps arbitrary: acc)
  case Nil
  then show ?case by (subst readProperties_unfold) simp
next
  case (Cons p ps)
  have s: "Size p = int (length (encodeDatum p))" using Cons.prems(2) by (simp add: wfDatum_size)
  have "readProperties (acc @ [p]) (int (length (concat (map encodeDatum ps)))) (concat (map encodeDatum ps) @ rest)
      = (Ok ((acc @ [p]) @ ps), rest)"
    using Cons.prems by (intro Cons.IH) auto
  with s Cons.prems(1) [of p] encodeDatum_min [of p] show ?case
    by (subst readProperties_unfold) simp
qed

lemma readComplex_encode:
  assumes "length s = n" "mk s = st"
    and "unat (fd_Size h) = 8 + n + length (concat (map encodeDatum ps))" "structSize (fd_Type h) = int n"
    and "\<And>p rest. p \<in> set ps \<Longrightarrow> ReadDatum (encodeDatum p @ rest) = (Ok p, rest)"
    and "\<forall>p \<in> set ps. wfDatum p"
  shows "readComplex (readProperties []) h n mk (s @ concat (map encodeDatum ps) @ rest)
    = (Ok (Datum h None (fd_Size h) st ps), rest)"
  using readProperties_encode [OF assms(5,6), where acc = "[]" and rest = rest] assms(1-4)
  by (simp add: readComplex_def del: of_nat_unat)

lemma structSize_simps [simp]:
  "structSize FveDatumTypeStretchKey = 20" "structSize FveDatumTypeUseKey = 4"
  "structSize FveDatumTypeVolumeMasterKeyInfo = 28" "structSize FveDatumTypeExternalInfo = 24"
  by (simp_all add: structSize_def type_consts size_FveStretchKeyDatum_def size_FveUseKeyDatum_def
      size_FveVmkInfo_def size_FveExternalInfo_def)

lemmas struct_sizes = size_FveDatum_def size_FveStretchKeyDatum_def size_FveUseKeyDatum_def
  size_FveAesCcmEncryptedDatum_def size_FveVmkInfo_def size_FveExternalInfo_def
  size_FveVirtualizationInfo_def

lemma read_write_exact:
  "length (sk_Salt s) = 16 \<Longrightarrow> read_FveStretchKeyDatum (write_FveStretchKeyDatum s) = s"
  "read_FveUseKeyDatum (write_FveUseKeyDatum u) = u"
  "length (aes_Mac a) = 16 \<Longrightarrow> read_FveAesCcmEncryptedDatum (write_FveAesCcmEncryptedDatum a) = a"
  "length (vmk_GuidIdentifier v) = 16 \<Longrightarrow> read_FveVmkInfo (write_FveVmkInfo v) = v"
  "length (ext_GuidIdentifier e) = 16 \<Longrightarrow> read_FveExternalInfo (write_FveExternalInfo e) = e"
  "read_FveVirtualizationInfo (write_FveVirtualizationInfo i) = i"
  "read_FveDatum (write_FveDatum h) = h"
  using read_write_FveStretchKeyDatum [of s "[]"] read_write_FveUseKeyDatum [of u "[]"]
    read_write_FveAesCcmEncryptedDatum [of a "[]"] read_write_FveVmkInfo [of v "[]"]
    read_write_FveExternalInfo [of e "[]"] read_write_FveVirtualizationInfo [of i "[]"]
    read_write_FveDatum [of h "[]"]
  by simp_all

text \<open>One lemma per branch of \<open>ReadDatum\<close>.\<close>

lemma readBody_key:
  assumes "fd_Type h = FveDatumTypeKey" "unat (fd_Size h) = 12 + length p"
  shows "readBody props h (put16 t @ put16 f @ p @ rest) =
    (Ok (Datum h (if p = [] then None else Some p) (fd_Size h) (KeyStruct t f) []), rest)"
proof -
  have "takeFull 4 (put16 t @ put16 f @ p @ rest) = (Ok (put16 t @ put16 f), p @ rest)"
    using takeFull_append [of "put16 t @ put16 f" 4] by simp
  moreover have "le16 (put16 t @ put16 f) 0 = t" "le16 (put16 t @ put16 f) 2 = f"
    using le_put_append(1) [of f "[]"] by (simp_all add: le_skip)
  ultimately show ?thesis
    using assms(2) readPayload_encode [where p = p and n = "int (unat (fd_Size h)) - 8 - 4"]
    unfolding readBody_def Let_def assms(1) by simp
qed

lemma readBody_aesCcm:
  assumes "fd_Type h = FveDatumTypeAesCcmEncryptedKey" "unat (fd_Size h) = 36 + length p"
    and "length (aes_Mac a) = 16"
  shows "readBody props h (write_FveAesCcmEncryptedDatum a @ p @ rest) =
    (Ok (Datum h (if p = [] then None else Some p) (fd_Size h) (AesCcmStruct a) []), rest)"
proof -
  have "readPayload h (AesCcmStruct a) (int (unat (fd_Size h)) - 8 - 28) (p @ rest) =
      (Ok (Datum h (if p = [] then None else Some p) (fd_Size h) (AesCcmStruct a) []), rest)"
    using assms(2) by (intro readPayload_encode) simp
  with assms(3) show ?thesis
    unfolding readBody_def Let_def assms(1)
    by (simp add: type_consts struct_sizes read_write_exact)
qed

lemma readBody_plain:
  assumes "structOk (fd_Type h) NoStruct" "unat (fd_Size h) = 8 + length p"
  shows "readBody props h (p @ rest) =
    (Ok (Datum h (if p = [] then None else Some p) (fd_Size h) NoStruct []), rest)"
proof -
  have "readPayload h NoStruct (int (unat (fd_Size h)) - 8) (p @ rest) =
      (Ok (Datum h (if p = [] then None else Some p) (fd_Size h) NoStruct []), rest)"
    using assms(2) by (intro readPayload_encode) simp
  with assms(1) show ?thesis
    unfolding readBody_def Let_def by (simp add: structOk_def complexTypes_def)
qed

lemma readBody_virt:
  assumes "fd_Type h = FveDatumTypeVirtualizationInfo"
  shows "readBody props h (write_FveVirtualizationInfo v @ rest) =
    (Ok (Datum h None (fd_Size h) (VirtStruct v) []), rest)"
  unfolding readBody_def Let_def assms
  by (simp add: type_consts struct_sizes read_write_exact)

text \<open>The four complex types share one lemma.\<close>

lemma readBody_complex:
  assumes "fd_Type h \<in> set complexTypes" "structOk (fd_Type h) st"
    and "unat (fd_Size h) = 8 + length (encodeStruct st) + length (concat (map encodeDatum ps))"
    and "\<And>p rest. p \<in> set ps \<Longrightarrow> ReadDatum (encodeDatum p @ rest) = (Ok p, rest)"
    and "\<forall>p \<in> set ps. wfDatum p"
  shows "readBody (readProperties []) h (encodeStruct st @ concat (map encodeDatum ps) @ rest)
    = (Ok (Datum h None (fd_Size h) st ps), rest)"
  using assms
  by (cases st) (auto simp: readBody_def Let_def structOk_def encodeStruct_def type_consts
      read_write_exact complexTypes_def struct_sizes structSize_def intro!: readComplex_encode)

lemma encodeStruct_length:
  "structOk t st \<Longrightarrow> length (encodeStruct st) =
     (case st of NoStruct \<Rightarrow> 0 | KeyStruct _ _ \<Rightarrow> 4 | StretchStruct _ \<Rightarrow> 20 | UseKeyStruct _ \<Rightarrow> 4
      | AesCcmStruct _ \<Rightarrow> 28 | VmkStruct _ \<Rightarrow> 28 | ExternalStruct _ \<Rightarrow> 24 | VirtStruct _ \<Rightarrow> 16)"
  by (auto simp: encodeStruct_def structOk_def split: datumStruct.splits)

lemma structOk_complex:
  "structOk t st \<Longrightarrow> t \<in> set complexTypes \<longleftrightarrow>
     (case st of StretchStruct _ \<Rightarrow> True | UseKeyStruct _ \<Rightarrow> True | VmkStruct _ \<Rightarrow> True
      | ExternalStruct _ \<Rightarrow> True | _ \<Rightarrow> False)"
  by (auto simp: structOk_def complexTypes_def type_consts split: datumStruct.splits)

lemma ReadDatum_encode: "wfDatum d \<Longrightarrow> ReadDatum (encodeDatum d @ rest) = (Ok d, rest)"
proof (induction d arbitrary: rest)
  case (Datum h b sz st ps)
  let ?p = "case b of Some p \<Rightarrow> p | None \<Rightarrow> []"
  from Datum.prems have w: "sz = fd_Size h" "structOk (fd_Type h) st"
    "unat (fd_Size h) = 8 + length (encodeStruct st) + length ?p + length (concat (map encodeDatum ps))"
    by (auto simp: wfDatum.simps encodeDatum.simps)
  have "readBody (readProperties []) h (encodeStruct st @ ?p @ concat (map encodeDatum ps) @ rest)
    = (Ok (Datum h b (fd_Size h) st ps), rest)"
  proof (cases "fd_Type h \<in> set complexTypes")
    case True
    with Datum.prems have "b = None" "\<forall>p \<in> set ps. wfDatum p" by (auto simp: wfDatum.simps)
    with True w Datum.IH show ?thesis by (simp add: readBody_complex)
  next
    case False
    with Datum.prems have n: "ps = []" "(if ?p = [] then None else Some ?p) = b"
      by (auto simp: wfDatum.simps split: option.splits)
    with False w structOk_complex [OF w(2)] encodeStruct_length [OF w(2)] Datum.prems show ?thesis
    proof (cases st)
      case NoStruct
      with w n show ?thesis using readBody_plain [of h ?p] by (simp add: encodeStruct_def)
    next
      case (KeyStruct t f)
      with w n show ?thesis using readBody_key [of h ?p] by (simp add: encodeStruct_def structOk_def)
    next
      case (AesCcmStruct a)
      with w n show ?thesis using readBody_aesCcm [of h ?p a] by (simp add: encodeStruct_def structOk_def)
    next
      case (VirtStruct v)
      with w False Datum.prems have "b = None" by (auto simp: wfDatum.simps structOk_def)
      with VirtStruct w n show ?thesis
        using readBody_virt [of h] by (simp add: encodeStruct_def structOk_def)
    qed simp_all
  qed
  with w show ?case
    unfolding ReadDatum_unfold encodeDatum.simps
    by (simp add: struct_sizes read_write_exact)
qed

subsection \<open>Key containers\<close>

text \<open>The encrypted datum that holds the plaintext \<open>p\<close> under the cipher \<open>k\<close> and the nonce \<open>n\<close>.\<close>

definition sealDatum :: "aesCipher \<Rightarrow> FveNonce \<Rightarrow> u16 \<Rightarrow> bytes \<Rightarrow> Datum" where
  "sealDatum k n role p =
     (case ccmEncrypt k (write_FveNonce n) [] p 16 of (ct, mac) \<Rightarrow>
        let size = word_of_nat (8 + 28 + length ct) in
        Datum \<lparr>fd_Size = size, fd_Role = role, fd_Type = FveDatumTypeAesCcmEncryptedKey, fd_Flags = 0\<rparr>
          (Some ct) size (AesCcmStruct \<lparr>aes_Nonce = n, aes_Mac = mac\<rparr>) [])"

text \<open>The nonce \<open>Unbox\<close> assembles is the one stored in the datum, byte for byte.\<close>

lemma unboxNonce_stored: "unboxNonce n = write_FveNonce n"
  by (simp add: unboxNonce_def write_FveNonce_def)

lemma Unbox_iff:
  assumes "d_structure d = AesCcmStruct a" "Type d = FveDatumTypeAesCcmEncryptedKey"
    and "length (aes_Mac a) = 16" "dataBytes d \<noteq> []" "length (dataBytes d) < 2 ^ 24"
    and "aes_NewCipher key = Ok k"
  shows "Unbox d key = Ok u \<longleftrightarrow>
    (\<exists>p. ccmEncrypt k (write_FveNonce (aes_Nonce a)) [] p 16 = (dataBytes d, aes_Mac a) \<and>
       12 \<le> length p \<and> u = containerKey p)"
proof -
  have "ccmDecrypt key (write_FveNonce (aes_Nonce a)) (dataBytes d) (aes_Mac a) [] = Ok p \<longleftrightarrow>
      ccmEncrypt k (write_FveNonce (aes_Nonce a)) [] p 16 = (dataBytes d, aes_Mac a)" for p
    using assms ccm_accepts [of "write_FveNonce (aes_Nonce a)" "aes_Mac a" "dataBytes d" key k "[]" p]
    by (simp add: tagLenOk_def)
  then show ?thesis
    using assms(1,2,4) unfolding Unbox_def unboxNonce_stored by (simp add: bindR_Ok_iff) (auto simp: not_less)
qed

lemma Unbox_sealDatum:
  assumes "aes_NewCipher key = Ok k" "12 \<le> length p" "length p < 2 ^ 24"
  shows "Unbox (sealDatum k n role p) key = Ok (containerKey p)"
proof -
  obtain ct mac where e: "ccmEncrypt k (write_FveNonce n) [] p 16 = (ct, mac)" by fastforce
  have ct: "length ct = length p" "length mac = 16"
    using ccmEncrypt_lengths [OF aes_NewCipher_wf [OF assms(1)] _ _ e]
    by (simp_all add: tagLenOk_def)
  have "Unbox (sealDatum k n role p) key = Ok (containerKey p) \<longleftrightarrow>
      (\<exists>q. ccmEncrypt k (write_FveNonce n) [] q 16 = (ct, mac) \<and> 12 \<le> length q \<and> containerKey p = containerKey q)"
    using assms ct e
    by (subst Unbox_iff [where a = "\<lparr>aes_Nonce = n, aes_Mac = mac\<rparr>" and k = k])
      (auto simp: sealDatum_def Type_def dataBytes_def Let_def)
  with e assms(2) show ?thesis by auto
qed

subsection \<open>Properties\<close>

text \<open>C10: A well-formed datum, nested datums included, is read back from its encoding, wherever
  the stream goes on; so no other well-formed datum starts with the same bytes.\<close>

theorem datum_roundtrip:
  assumes "wfDatum d"
  shows "ReadDatum (encodeDatum d @ rest) = (Ok d, rest) \<and>
    (\<forall>d' rest'. wfDatum d' \<and> encodeDatum d' @ rest' = encodeDatum d @ rest \<longrightarrow> d' = d \<and> rest' = rest)"
  using ReadDatum_encode [OF assms, of rest] ReadDatum_encode by (metis Pair_inject result.inject(1))

definition demoDatum :: Datum where
  "demoDatum = Datum \<lparr>fd_Size = 22, fd_Role = 0, fd_Type = FveDatumTypeUseKey, fd_Flags = 0\<rparr> None 22
     (UseKeyStruct \<lparr>uk_KeyType = 0x2003, uk_KeyFlags = 0\<rparr>)
     [Datum \<lparr>fd_Size = 10, fd_Role = 0, fd_Type = FveDatumTypeUnicode, fd_Flags = 1\<rparr> (Some [65, 0]) 10
       NoStruct []]"

theorem datum_roundtrip_witness:
  "ReadDatum (encodeDatum demoDatum @ [1, 2]) = (Ok demoDatum, [1, 2]) \<and> length (encodeDatum demoDatum) = 22"
proof -
  have "wfDatum demoDatum"
    by (simp add: demoDatum_def wfDatum.simps encodeDatum.simps encodeStruct_def structOk_def
        complexTypes_def type_consts)
  from datum_roundtrip [OF this, of "[1, 2]"] show ?thesis
    by (simp add: demoDatum_def encodeDatum.simps encodeStruct_def)
qed

text \<open>C24: \<open>ReadDatum\<close> ends on every input, whatever sizes the headers claim: it returns a datum and
  has used at least eight bytes, or it fails at the end of the stream. It never panics, and more
  fuel than the model gives it changes nothing.\<close>

theorem readDatum_terminates:
  "((\<exists>d r. ReadDatum bs = (Ok d, r) \<and> length r + 8 \<le> length bs) \<or>
    (\<exists>e. ReadDatum bs = (Error e, []) \<and> is_eof e)) \<and>
   readDatum_f (2 * length bs + 1 + k) bs = ReadDatum bs"
proof -
  have "readDatum_f (2 * length bs + 1 + k) bs = ReadDatum bs"
    unfolding ReadDatum_def by (rule fuel_irrelevant(1)) simp_all
  then show ?thesis by (cases bs rule: ReadDatum_cases) auto
qed

text \<open>C11: \<open>Unbox\<close> with a valid AES key succeeds exactly on the AES-CCM sealings of key containers
  of at least 12 bytes under that key, and returns the key of the container.\<close>

theorem unbox_exact:
  assumes "d_structure d = AesCcmStruct a" "Type d = FveDatumTypeAesCcmEncryptedKey"
    and "length (aes_Mac a) = 16" "dataBytes d \<noteq> []" "length (dataBytes d) < 2 ^ 24"
    and "aes_NewCipher key = Ok k"
  shows "Unbox d key = Ok u \<longleftrightarrow>
    (\<exists>p. ccmEncrypt k (write_FveNonce (aes_Nonce a)) [] p 16 = (dataBytes d, aes_Mac a) \<and>
       12 \<le> length p \<and> u = containerKey p)"
  using assms by (rule Unbox_iff)

theorem unbox_exact_witness:
  "\<exists>k. aes_NewCipher (replicate 32 7) = Ok k \<and>
     Unbox (sealDatum k \<lparr>nonce_DateTime = 1, nonce_Counter = 2\<rparr> 3 (replicate 44 5)) (replicate 32 7)
       = Ok (containerKey (replicate 44 5))"
proof -
  obtain k where k: "aes_NewCipher (replicate 32 7) = Ok k"
    using aes_NewCipher_Ok [of "replicate 32 7"] by auto
  let ?n = "\<lparr>nonce_DateTime = 1, nonce_Counter = 2\<rparr>" and ?p = "replicate 44 5 :: bytes"
  obtain ct mac where e: "ccmEncrypt k (write_FveNonce ?n) [] ?p 16 = (ct, mac)" by fastforce
  then have len: "length ct = 44" "length mac = 16"
    using ccmEncrypt_lengths [OF aes_NewCipher_wf [OF k] _ _ e] by (simp_all add: tagLenOk_def)
  have d: "d_structure (sealDatum k ?n 3 ?p) = AesCcmStruct \<lparr>aes_Nonce = ?n, aes_Mac = mac\<rparr>"
    "Type (sealDatum k ?n 3 ?p) = FveDatumTypeAesCcmEncryptedKey" "dataBytes (sealDatum k ?n 3 ?p) = ct"
    using e by (simp_all add: sealDatum_def Type_def dataBytes_def Let_def)
  have "Unbox (sealDatum k ?n 3 ?p) (replicate 32 7) = Ok (containerKey ?p)"
    by (subst unbox_exact [OF d(1,2) _ _ _ k, unfolded d(3)]) (use len e in auto)
  with k show ?thesis by blast
qed

text \<open>The payload of a virtualization-info datum beyond its 16-byte struct is not skipped, whatever
  the size field says: the next datum is read from inside it.\<close>

theorem virtualizationInfo_rest_not_skipped:
  "ReadDatum (write_FveDatum \<lparr>fd_Size = word_of_nat (24 + length extra), fd_Role = r,
       fd_Type = FveDatumTypeVirtualizationInfo, fd_Flags = f\<rparr> @
     write_FveVirtualizationInfo v @ extra @ rest) =
   (Ok (Datum \<lparr>fd_Size = word_of_nat (24 + length extra), fd_Role = r,
       fd_Type = FveDatumTypeVirtualizationInfo, fd_Flags = f\<rparr> None (word_of_nat (24 + length extra))
       (VirtStruct v) []), extra @ rest)"
  unfolding ReadDatum_unfold
  by (simp add: struct_sizes read_write_exact readBody_virt)

end
