(* ===== verification/Information.thy ===== *)
theory Information
  imports Datum Sha256
begin

section \<open>Information blocks and datasets (\<open>information.go\<close>)\<close>

text \<open>
  \<open>NewDataset\<close> reads the metadata header and the entries that follow it, \<open>NewInformation\<close> the
  block header and its dataset; the \<open>Find\<close> functions select entries. The datum loop of
  \<open>readData\<close> ends because every datum shortens the stream. The \<open>io.ReadSeeker\<close> of \<open>NewDataset\<close> is an
  \<open>io.SectionReader\<close> over any source, which is what \<open>NewInformation\<close> passes.

  \<open>encodeInfoBlock\<close> is the reference layout of a metadata block: \<open>newInformation_encoded\<close> says that
  \<open>NewInformation\<close> reads back from an image what the layout holds.
\<close>

record Dataset =
  ds_header :: FveMetadataHeader
  ds_buf :: bytes
  ds_data :: "Datum list"

record Validation =
  v_validation :: FveValidation
  v_integrityCheck :: "Datum option"
  v_crc32 :: u32

record Information =
  info_offset :: int
  info_blockHeader :: FveMetadataBlockHeaderV2
  info_metadataHeader :: FveMetadataHeader
  info_dataset :: Dataset
  info_buf :: "bytes option"
  info_validation :: "Validation option"
  info_validChecksum :: bool

subsection \<open>Datasets\<close>

function readData_loop :: "Datum list \<Rightarrow> int \<Rightarrow> bytes \<Rightarrow> Datum list result" where
  "readData_loop acc remaining bs =
     (if remaining < 8 then Ok acc
      else case ReadDatum bs of
             (Error e, _) \<Rightarrow> if is_eof e then Ok acc else Error e
           | (Panic s, _) \<Rightarrow> Panic s
           | (Ok d, bs') \<Rightarrow>
               if unat (d_size d) < 8 then Ok acc
               else readData_loop (acc @ [d]) (remaining - Size d) bs')"
  by pat_completeness auto
termination
proof (relation "measure (\<lambda>(acc, remaining, bs). length bs)")
  fix acc :: "Datum list" and remaining :: int and bs x bs' d
  assume "(x, bs') = ReadDatum bs" "x = Ok d"
  then show "((acc @ [d], remaining - Size d, bs'), acc, remaining, bs)
      \<in> measure (\<lambda>(acc, remaining, bs). length bs)"
    by (cases bs rule: ReadDatum_cases) auto
qed simp

declare readData_loop.simps [simp del]

definition readData :: "FveMetadataHeader \<Rightarrow> bytes \<Rightarrow> Datum list result" where
  "readData h buf =
     (let start = unat (mh_HeaderSize h); end = length buf in
      if end < start then Error (InvalidHeader ''invalid metadata header bounds'')
      else readData_loop [] (int (end - start)) (drop start buf))"

definition NewDataset :: "sectionReader \<Rightarrow> Dataset result" where
  "NewDataset fh =
     (case sr_Seek fh 0 1 of
        (_, Error e) \<Rightarrow> Error e
      | (_, Panic s) \<Rightarrow> Panic s
      | (fh1, Ok offset) \<Rightarrow>
     (case readFull fh1 size_FveMetadataHeader of
        (_, Error e) \<Rightarrow> Error e
      | (_, Panic s) \<Rightarrow> Panic s
      | (fh2, Ok hb) \<Rightarrow>
     (let h = read_FveMetadataHeader hb in
      if mh_MetadataSize h < word_of_nat size_FveMetadataHeader \<or> 0x4000000 < mh_MetadataSize h
      then Error (InvalidHeader ''invalid metadata size'')
      else if mh_HeaderSize h < word_of_nat size_FveMetadataHeader \<or> mh_MetadataSize h < mh_HeaderSize h
      then Error (InvalidHeader ''invalid metadata header size'')
      else case sr_Seek fh2 offset 0 of
        (_, Error e) \<Rightarrow> Error e
      | (_, Panic s) \<Rightarrow> Panic s
      | (fh3, Ok _) \<Rightarrow>
     (case readFull fh3 (unat (mh_MetadataSize h)) of
        (_, Error e) \<Rightarrow> Error e
      | (_, Panic s) \<Rightarrow> Panic s
      | (_, Ok buf) \<Rightarrow>
          bindR (readData h buf) (\<lambda>data. Ok \<lparr>ds_header = h, ds_buf = buf, ds_data = data\<rparr>)))))"

definition FvekType :: "Dataset \<Rightarrow> u16" where
  "FvekType ds = ucast (mh_EncryptionMethod (ds_header ds) AND 0xffff)"

definition FindDatum :: "Dataset \<Rightarrow> u16 \<Rightarrow> u16 \<Rightarrow> Datum list" where
  "FindDatum ds role typ =
     filter (\<lambda>d. (role = 0 \<or> Role d = role) \<and> (typ = 0 \<or> Type d = typ)) (ds_data ds)"

definition FindDescription :: "Dataset \<Rightarrow> string" where
  "FindDescription ds =
     (case FindDatum ds FveDatumRoleDescription FveDatumTypeUnicode of
        d # _ \<Rightarrow> Text d | [] \<Rightarrow> [])"

definition FindFvek :: "Dataset \<Rightarrow> Datum option" where
  "FindFvek ds =
     (case FindDatum ds FveDatumRoleFullVolumeEncryptionKey FveDatumTypeAesCcmEncryptedKey of
        d # _ \<Rightarrow> Some d | [] \<Rightarrow> None)"

definition FindVmk :: "Dataset \<Rightarrow> u16 \<Rightarrow> u16 \<Rightarrow> u16 \<Rightarrow> u16 \<Rightarrow> Datum list" where
  "FindVmk ds protectorType minPriority maxPriority mask' =
     filter (\<lambda>d. case GetVmkInfo d of
                   None \<Rightarrow> False
                 | Some v \<Rightarrow>
                     let priority = vmk_ProtectorType v in
                     \<not> (priority < minPriority \<or> maxPriority < priority) \<and>
                     (protectorType = 0 \<or> priority AND mask' = protectorType))
       (FindDatum ds FveDatumRoleVolumeMasterKeyInfo FveDatumTypeVolumeMasterKeyInfo)"

definition FindClearVmk :: "Dataset \<Rightarrow> Datum option" where
  "FindClearVmk ds = (case FindVmk ds FveKeyProtectorClear 0 0xFF 0 of d # _ \<Rightarrow> Some d | [] \<Rightarrow> None)"

definition FindExternalVmk :: "Dataset \<Rightarrow> Datum list" where
  "FindExternalVmk ds = FindVmk ds FveKeyProtectorExternal 0 0x7FFF 0xFF00"

definition FindRecoveryVmk :: "Dataset \<Rightarrow> Datum list" where
  "FindRecoveryVmk ds = FindVmk ds FveKeyProtectorRecoveryPassword 0 0x7FFF 0xFF00"

definition FindPassphraseVmk :: "Dataset \<Rightarrow> Datum list" where
  "FindPassphraseVmk ds = FindVmk ds FveKeyProtectorPassphrase 0 0x7FFF 0xFF00"

subsection \<open>Validation\<close>

definition Validation_Version :: "FveValidation \<Rightarrow> int" where
  "Validation_Version v = int (unat (val_Version v))"

definition NewValidation :: "bytes \<Rightarrow> Validation result \<times> bytes" where
  "NewValidation fh =
     andThen (takeFull size_FveValidation fh) (\<lambda>vb fh.
       let v = read_FveValidation vb in
       if 2 \<le> Validation_Version v then
         andThen (ReadDatum fh) (\<lambda>d fh.
           (Ok \<lparr>v_validation = v, v_integrityCheck = Some d, v_crc32 = val_Crc32 v\<rparr>, fh))
       else (Ok \<lparr>v_validation = v, v_integrityCheck = None, v_crc32 = val_Crc32 v\<rparr>, fh))"

subsection \<open>Information blocks\<close>

text \<open>The version check of the code has an empty body and no effect.\<close>

definition NewInformation :: "reader \<Rightarrow> int \<Rightarrow> Information result" where
  "NewInformation r offset =
     (case readFull (sectionReader_of r offset) size_FveMetadataBlockHeaderV2 of
        (_, Error e) \<Rightarrow> Error e
      | (_, Panic s) \<Rightarrow> Panic s
      | (_, Ok bb) \<Rightarrow>
     (let bh = read_FveMetadataBlockHeaderV2 bb in
      if bh_Signature bh \<noteq> BITLOCKER_SIGNATURE
      then Error (InvalidHeader ''invalid BitLocker metadata block signature'')
      else case readFull (sectionReader_of r (i64 (offset + 64))) size_FveMetadataHeader of
        (_, Error e) \<Rightarrow> Error e
      | (_, Panic s) \<Rightarrow> Panic s
      | (_, Ok hb) \<Rightarrow>
     (let mh = read_FveMetadataHeader hb in
      if mh_HeaderSize mh < 48 \<or> 4096 < mh_HeaderSize mh
      then Error (InvalidHeader ''invalid metadata header size'')
      else if mh_MetadataSize mh < mh_HeaderSize mh \<or> 0x10000 < mh_MetadataSize mh
      then Error (InvalidHeader ''invalid metadata size'')
      else bindR (NewDataset (sectionReader_of r (i64 (offset + 64)))) (\<lambda>ds.
        Ok \<lparr>info_offset = offset, info_blockHeader = bh, info_metadataHeader = mh,
            info_dataset = ds, info_buf = None, info_validation = None,
            info_validChecksum = True\<rparr>))))"

definition Information_IsValid :: "Information \<Rightarrow> bool" where
  "Information_IsValid i = info_validChecksum i"

definition CheckIntegrity :: "Information \<Rightarrow> bytes \<Rightarrow> bool" where
  "CheckIntegrity i key =
     (case (info_validation i, info_buf i) of
        (Some v, Some buf) \<Rightarrow>
          (case v_integrityCheck v of
             Some d \<Rightarrow>
               (case Unbox d key of
                  Ok u \<Rightarrow> sha256_Sum256 buf = dataBytes u
                | _ \<Rightarrow> False)
           | None \<Rightarrow> Information_IsValid i)
      | _ \<Rightarrow> Information_IsValid i)"

definition Information_Version :: "Information \<Rightarrow> int" where
  "Information_Version i = int (unat (mh_Version (info_metadataHeader i)))"

definition InformationOffsets :: "Information \<Rightarrow> int list" where
  "InformationOffsets i =
     map sint (filter (\<lambda>off. off \<noteq> 0)
       [bh_MetadataOffset1 (info_blockHeader i), bh_MetadataOffset2 (info_blockHeader i),
        bh_MetadataOffset3 (info_blockHeader i)])"

subsection \<open>What \<open>NewInformation\<close> accepts\<close>

lemma readData_loop_total: "\<exists>ds. readData_loop acc n bs = Ok ds"
proof (induction acc n bs rule: readData_loop.induct)
  case (1 acc n bs)
  show ?case
  proof (cases bs rule: ReadDatum_cases)
    case (ok d r)
    with 1 [OF _ ok(1) [symmetric] refl] show ?thesis
      by (cases "n < 8"; cases "unat (d_size d) < 8") (auto simp: readData_loop.simps [of acc n bs])
  next
    case (eof e)
    then show ?thesis by (auto simp: readData_loop.simps [of acc n bs])
  qed
qed

lemma readData_total: "unat (mh_HeaderSize h) \<le> length buf \<Longrightarrow> \<exists>ds. readData h buf = Ok ds"
  using readData_loop_total by (simp add: readData_def Let_def)

lemma sr_Seek_section [simp]:
  "sr_Seek (sectionReader_of r off) 0 (Suc 0) = (sectionReader_of r off, Ok 0)" if "- (2 ^ 63) \<le> off" "off < 2 ^ 63"
  using that by (simp add: sr_Seek_def Let_def)

text \<open>The block and its dataset carry the same metadata header.\<close>

lemma NewInformation_Ok:
  assumes "NewInformation r off = Ok i"
  shows "info_offset i = off" "bh_Signature (info_blockHeader i) = BITLOCKER_SIGNATURE"
    "info_validation i = None" "info_buf i = None" "info_validChecksum i"
    "48 \<le> mh_HeaderSize (info_metadataHeader i)" "mh_HeaderSize (info_metadataHeader i) \<le> 4096"
    "mh_HeaderSize (info_metadataHeader i) \<le> mh_MetadataSize (info_metadataHeader i)"
    "mh_MetadataSize (info_metadataHeader i) \<le> 0x10000"
  using assms
  by (auto simp: NewInformation_def Let_def bindR_Ok_iff not_less split: prod.splits result.splits if_splits)

lemma sr_Seek_start:
  "- (2 ^ 63) \<le> sr_base s \<Longrightarrow> sr_base s < 2 ^ 63 \<Longrightarrow> sr_Seek s 0 0 = (s\<lparr>sr_off := sr_base s\<rparr>, Ok 0)"
  by (simp add: sr_Seek_def Let_def)

lemma sectionReader_eqI:
  fixes s t :: sectionReader
  shows "sr_r s = sr_r t \<Longrightarrow> sr_base s = sr_base t \<Longrightarrow> sr_off s = sr_off t \<Longrightarrow> sr_limit s = sr_limit t \<Longrightarrow> s = t"
  by simp

text \<open>On a fresh section \<open>NewDataset\<close> reads the header and the whole dataset from its start.\<close>

lemma NewDataset_section:
  assumes "- (2 ^ 63) \<le> off" "off < 2 ^ 63" "readFull (sectionReader_of r off) 48 = (s', Ok hb)"
    and "h = read_FveMetadataHeader hb" "48 \<le> mh_MetadataSize h" "mh_MetadataSize h \<le> 0x4000000"
    and "48 \<le> mh_HeaderSize h" "mh_HeaderSize h \<le> mh_MetadataSize h"
  shows "NewDataset (sectionReader_of r off) =
    (case readFull (sectionReader_of r off) (unat (mh_MetadataSize h)) of
       (_, Error e) \<Rightarrow> Error e
     | (_, Panic s) \<Rightarrow> Panic s
     | (_, Ok buf) \<Rightarrow> bindR (readData h buf) (\<lambda>data. Ok \<lparr>ds_header = h, ds_buf = buf, ds_data = data\<rparr>))"
proof -
  have "s'\<lparr>sr_off := off\<rparr> = sectionReader_of r off"
    using readFull_fields [OF assms(3)] by simp
  then have "sr_Seek s' 0 0 = (sectionReader_of r off, Ok 0)"
    using readFull_fields [OF assms(3)] assms(1,2) by (simp add: sr_Seek_start)
  then show ?thesis
    using assms(1-3,5-8) unfolding assms(4)
    by (simp add: NewDataset_def size_FveMetadataHeader_def Let_def not_less [symmetric])
qed

lemma NewInformation_dataset:
  assumes "NewInformation r off = Ok i"
  shows "ds_header (info_dataset i) = info_metadataHeader i"
    and "length (ds_buf (info_dataset i)) = unat (mh_MetadataSize (info_metadataHeader i))"
    and "readData (info_metadataHeader i) (ds_buf (info_dataset i)) = Ok (ds_data (info_dataset i))"
proof -
  note ok = NewInformation_Ok [OF assms]
  let ?s = "sectionReader_of r (i64 (off + 64))" and ?h = "info_metadataHeader i"
  from assms obtain s' hb where hb: "readFull ?s 48 = (s', Ok hb)" "?h = read_FveMetadataHeader hb"
    and ds: "NewDataset ?s = Ok (info_dataset i)"
    by (auto simp: NewInformation_def Let_def bindR_Ok_iff size_FveMetadataHeader_def
        split: prod.splits result.splits if_splits)
  have "48 \<le> mh_MetadataSize ?h" "mh_MetadataSize ?h \<le> 0x4000000"
    using ok(6,8,9) by (auto intro: order_trans)
  with ok NewDataset_section [OF _ _ hb] i64_range [of "off + 64"] ds
  obtain s'' buf data where "readFull ?s (unat (mh_MetadataSize ?h)) = (s'', Ok buf)"
    "readData ?h buf = Ok data" "info_dataset i = \<lparr>ds_header = ?h, ds_buf = buf, ds_data = data\<rparr>"
    by (auto simp: bindR_Ok_iff split: prod.splits result.splits)
  then show "ds_header (info_dataset i) = ?h"
    "length (ds_buf (info_dataset i)) = unat (mh_MetadataSize ?h)"
    "readData ?h (ds_buf (info_dataset i)) = Ok (ds_data (info_dataset i))"
    by (auto dest: readFull_length)
qed

subsection \<open>Reading an encoded block\<close>

definition encodeInfoBlock ::
    "FveMetadataBlockHeaderV2 \<Rightarrow> FveMetadataHeader \<Rightarrow> bytes \<Rightarrow> Datum list \<Rightarrow> bytes \<Rightarrow> bytes" where
  "encodeInfoBlock bh mh ext ds pad =
     write_FveMetadataBlockHeaderV2 bh @ write_FveMetadataHeader mh @ ext @
     concat (map encodeDatum ds) @ pad"

definition wfBlock ::
    "FveMetadataBlockHeaderV2 \<Rightarrow> FveMetadataHeader \<Rightarrow> bytes \<Rightarrow> Datum list \<Rightarrow> bytes \<Rightarrow> bool" where
  "wfBlock bh mh ext ds pad \<longleftrightarrow>
     bh_Signature bh = BITLOCKER_SIGNATURE \<and> length (mh_VolumeIdentifier mh) = 16 \<and>
     unat (mh_HeaderSize mh) = 48 + length ext \<and> length ext \<le> 4048 \<and>
     unat (mh_MetadataSize mh) = 48 + length ext + length (concat (map encodeDatum ds)) + length pad \<and>
     unat (mh_MetadataSize mh) \<le> 0x10000 \<and> length pad < 8 \<and> (\<forall>d \<in> set ds. wfDatum d)"

lemma readData_loop_encoded:
  assumes "\<forall>d \<in> set ds. wfDatum d" "length pad < 8"
  shows "readData_loop acc (int (length (concat (map encodeDatum ds) @ pad)))
    (concat (map encodeDatum ds) @ pad) = Ok (acc @ ds)"
  using assms(1)
proof (induction ds arbitrary: acc)
  case Nil
  with assms(2) show ?case by (simp add: readData_loop.simps)
next
  case (Cons d ds)
  let ?r = "concat (map encodeDatum ds) @ pad"
  from Cons.prems have d: "ReadDatum (encodeDatum d @ ?r) = (Ok d, ?r)"
    "Size d = int (length (encodeDatum d))" by (simp_all add: ReadDatum_encode wfDatum_size)
  then have "\<not> unat (d_size d) < 8"
    using encodeDatum_min [of d] by (simp add: Size_def del: of_nat_unat)
  then show ?case
    using Cons d encodeDatum_min [of d] by (subst readData_loop.simps) simp
qed

lemma slice_prefix:
  "slice b off n = x @ y \<Longrightarrow> length x + length y = n \<Longrightarrow> slice b off (length x) = x"
  "slice b off n = x @ y \<Longrightarrow> length x + length y = n \<Longrightarrow> slice b (off + length x) (length y) = y"
proof -
  assume a: "slice b off n = x @ y" "length x + length y = n"
  then have "slice b off (length x) @ slice b (off + length x) (length y) = x @ y"
    by (subst slice_join) auto
  moreover have "length (slice b off (length x)) = length x"
  proof -
    have "length (slice b off n) = n" using a by simp
    then have "n \<le> length (drop off b)" by (simp add: slice_def)
    with a(2) show ?thesis by (simp add: slice_def)
  qed
  ultimately show "slice b off (length x) = x" "slice b (off + length x) (length y) = y"
    by simp_all
qed

lemma readFull_prefix:
  assumes "serves r data" "0 \<le> off" "off + int n \<le> int (length data)" "0 < n" "off + int n < 2 ^ 63"
    and "slice data (nat off) n = b"
  shows "\<exists>s'. readFull (sectionReader_of r off) n = (s', Ok b)"
  using readFull_section [OF assms(1,2,4,3,5)] assms(6) by (simp add: slice_def)

definition blockInfo ::
    "int \<Rightarrow> FveMetadataBlockHeaderV2 \<Rightarrow> FveMetadataHeader \<Rightarrow> bytes \<Rightarrow> Datum list \<Rightarrow> bytes \<Rightarrow> Information" where
  "blockInfo off bh mh ext ds pad =
     \<lparr>info_offset = off, info_blockHeader = bh, info_metadataHeader = mh,
      info_dataset = \<lparr>ds_header = mh,
        ds_buf = write_FveMetadataHeader mh @ ext @ concat (map encodeDatum ds) @ pad, ds_data = ds\<rparr>,
      info_buf = None, info_validation = None, info_validChecksum = True\<rparr>"

lemma read_write_blockHeader:
  "length (bh_Signature x) = 8 \<Longrightarrow>
   read_FveMetadataBlockHeaderV2 (write_FveMetadataBlockHeaderV2 x @ rest) = x"
  by (simp add: write_FveMetadataBlockHeaderV2_def read_FveMetadataBlockHeaderV2_def le_skip slice_front)

lemma NewInformation_encoded:
  assumes r: "serves r data" "0 \<le> off" "length data < 2 ^ 63"
    and img: "off + int (length (encodeInfoBlock bh mh ext ds pad)) \<le> int (length data)"
      "slice data (nat off) (length (encodeInfoBlock bh mh ext ds pad)) = encodeInfoBlock bh mh ext ds pad"
    and wf: "wfBlock bh mh ext ds pad"
  shows "NewInformation r off = Ok (blockInfo off bh mh ext ds pad)"
proof -
  let ?wb = "write_FveMetadataBlockHeaderV2 bh" and ?wm = "write_FveMetadataHeader mh"
  let ?buf = "?wm @ ext @ concat (map encodeDatum ds) @ pad"
  let ?n = "length ?buf"
  from wf have len: "length ?wb = 64" "length ?wm = 48" "?n = unat (mh_MetadataSize mh)"
    "length (encodeInfoBlock bh mh ext ds pad) = 64 + ?n"
    by (simp_all add: wfBlock_def encodeInfoBlock_def)
  have "slice data (nat off) 64 = ?wb" "slice data (nat off + 64) ?n = ?buf"
    using slice_prefix [of data "nat off" "64 + ?n" ?wb ?buf] img(2) len
    by (simp_all add: encodeInfoBlock_def)
  moreover from this have "slice data (nat off + 64) 48 = ?wm"
    using slice_prefix(1) [of data "nat off + 64" ?n ?wm "ext @ concat (map encodeDatum ds) @ pad"] len
    by simp
  moreover have "nat (off + 64) = nat off + 64" using r(2) by (simp add: nat_add_distrib)
  moreover have o: "i64 (off + 64) = off + 64" using r img len by (intro i64_id) auto
  ultimately have
    "\<exists>s. readFull (sectionReader_of r off) 64 = (s, Ok ?wb)"
    "\<exists>s. readFull (sectionReader_of r (off + 64)) 48 = (s, Ok ?wm)"
    "\<exists>s. readFull (sectionReader_of r (off + 64)) ?n = (s, Ok ?buf)"
    using r img(1) len by (intro readFull_prefix [where data = data]; simp)+
  then obtain s1 s2 s3 where rd: "readFull (sectionReader_of r off) 64 = (s1, Ok ?wb)"
    "readFull (sectionReader_of r (off + 64)) 48 = (s2, Ok ?wm)"
    "readFull (sectionReader_of r (off + 64)) ?n = (s3, Ok ?buf)" by blast
  have mh: "read_FveMetadataHeader ?wm = mh"
    using read_write_FveMetadataHeader [of mh "[]"] wf by (simp add: wfBlock_def)
  have bh: "read_FveMetadataBlockHeaderV2 ?wb = bh"
    using wf read_write_blockHeader [of bh "[]"] by (simp add: wfBlock_def)
  have sz: "48 \<le> mh_MetadataSize mh" "mh_MetadataSize mh \<le> 0x4000000" "48 \<le> mh_HeaderSize mh"
    "mh_HeaderSize mh \<le> mh_MetadataSize mh" "mh_HeaderSize mh \<le> 4096" "mh_MetadataSize mh \<le> 0x10000"
    using wf by (auto simp: wfBlock_def word_le_nat_alt)
  have data: "readData mh ?buf = Ok ds"
    using wf readData_loop_encoded [of ds pad "[]"] by (simp add: readData_def wfBlock_def)
  have "NewDataset (sectionReader_of r (off + 64)) = Ok \<lparr>ds_header = mh, ds_buf = ?buf, ds_data = ds\<rparr>"
    using NewDataset_section [OF _ _ rd(2) mh [symmetric] sz(1-4)] r img len rd(3) data o by simp
  then show ?thesis
    using wf rd sz o bh mh
    by (simp add: NewInformation_def Let_def size_FveMetadataBlockHeaderV2_def size_FveMetadataHeader_def
        wfBlock_def blockInfo_def not_less [symmetric])
qed

subsection \<open>A small block, for the witnesses\<close>

definition demoBlockHeader :: FveMetadataBlockHeaderV2 where
  "demoBlockHeader = (read_FveMetadataBlockHeaderV2 (replicate 64 0))\<lparr>bh_Signature := BITLOCKER_SIGNATURE\<rparr>"

definition demoMetaHeader :: FveMetadataHeader where
  "demoMetaHeader = (read_FveMetadataHeader (replicate 48 0))\<lparr>mh_HeaderSize := 48, mh_MetadataSize := 72\<rparr>"

lemma demoDatum_wf: "wfDatum demoDatum" "length (encodeDatum demoDatum) = 22"
  by (simp_all add: demoDatum_def wfDatum.simps encodeDatum.simps encodeStruct_def structOk_def
      complexTypes_def type_consts)

lemma demoBlock_wf: "wfBlock demoBlockHeader demoMetaHeader [] [demoDatum] [0, 0]"
  using demoDatum_wf
  by (simp add: wfBlock_def demoBlockHeader_def demoMetaHeader_def read_FveMetadataHeader_def slice_def)

definition demoImage :: bytes where
  "demoImage = encodeInfoBlock demoBlockHeader demoMetaHeader [] [demoDatum] [0, 0]"

lemma length_demoImage: "length demoImage = 136"
  using demoDatum_wf demoBlock_wf by (simp add: demoImage_def encodeInfoBlock_def wfBlock_def)

lemma NewInformation_demo:
  "NewInformation (bytesReader demoImage) 0 = Ok (blockInfo 0 demoBlockHeader demoMetaHeader [] [demoDatum] [0, 0])"
  using NewInformation_encoded [OF serves_bytesReader, where off = 0, OF _ _ _ _ demoBlock_wf] length_demoImage
  by (simp add: demoImage_def slice_def)

subsection \<open>Properties\<close>

text \<open>C9: A metadata block laid out anywhere in an image is read back: \<open>NewInformation\<close> at its offset
  returns its two headers and its entries in order, up to seven bytes of padding ignored, and
  \<open>FindDatum\<close> then selects among exactly these entries.\<close>

theorem newInformation_reads_block:
  assumes "serves r (pre @ encodeInfoBlock bh mh ext ds pad @ post)" "wfBlock bh mh ext ds pad"
    and "length (pre @ encodeInfoBlock bh mh ext ds pad @ post) < 2 ^ 63"
  shows "\<exists>i. NewInformation r (int (length pre)) = Ok i \<and>
    info_blockHeader i = bh \<and> info_metadataHeader i = mh \<and> ds_data (info_dataset i) = ds \<and>
    FindDatum (info_dataset i) role typ =
      filter (\<lambda>d. (role = 0 \<or> Role d = role) \<and> (typ = 0 \<or> Type d = typ)) ds"
proof -
  have "NewInformation r (int (length pre)) = Ok (blockInfo (int (length pre)) bh mh ext ds pad)"
    using assms by (intro NewInformation_encoded) (auto simp: slice_def)
  then show ?thesis by (simp add: blockInfo_def FindDatum_def)
qed

theorem newInformation_reads_block_witness:
  "\<exists>i. NewInformation (bytesReader ([9] @ demoImage @ [8])) 1 = Ok i \<and> ds_data (info_dataset i) = [demoDatum]"
  using newInformation_reads_block [OF serves_bytesReader demoBlock_wf, where pre = "[9]" and post = "[8]"]
    length_demoImage
  by (fastforce simp: demoImage_def)

text \<open>C25: What a parsed block satisfies, whatever the source returned: signature present, header size
  between 48 and 4096, metadata size between the header size and 64 KiB, a dataset with the same
  header whose buffer has the metadata size and whose entries are those of the buffer.\<close>

theorem newInformation_sound:
  assumes "NewInformation r off = Ok i"
  shows "bh_Signature (info_blockHeader i) = BITLOCKER_SIGNATURE \<and>
    48 \<le> mh_HeaderSize (info_metadataHeader i) \<and> mh_HeaderSize (info_metadataHeader i) \<le> 4096 \<and>
    mh_HeaderSize (info_metadataHeader i) \<le> mh_MetadataSize (info_metadataHeader i) \<and>
    mh_MetadataSize (info_metadataHeader i) \<le> 0x10000 \<and>
    ds_header (info_dataset i) = info_metadataHeader i \<and>
    length (ds_buf (info_dataset i)) = unat (mh_MetadataSize (info_metadataHeader i)) \<and>
    readData (info_metadataHeader i) (ds_buf (info_dataset i)) = Ok (ds_data (info_dataset i))"
  using NewInformation_Ok [OF assms] NewInformation_dataset [OF assms] by blast

theorem newInformation_sound_witness:
  "\<exists>i. NewInformation (bytesReader demoImage) 0 = Ok i \<and>
     bh_Signature (info_blockHeader i) = BITLOCKER_SIGNATURE \<and>
     ds_header (info_dataset i) = info_metadataHeader i"
  using NewInformation_demo newInformation_sound [OF NewInformation_demo] by blast

text \<open>C40: \<open>CheckIntegrity\<close> accepts every key on every block that \<open>NewInformation\<close> returns: the
  integrity check and the buffer it compares are never filled in.\<close>

theorem checkIntegrity_accepts_any_key:
  assumes "NewInformation r off = Ok i"
  shows "CheckIntegrity i key \<and> Information_IsValid i"
  using NewInformation_Ok [OF assms] by (simp add: CheckIntegrity_def Information_IsValid_def)

theorem checkIntegrity_accepts_any_key_witness:
  "\<exists>i. NewInformation (bytesReader demoImage) 0 = Ok i \<and> CheckIntegrity i [1, 2, 3]"
  using NewInformation_demo checkIntegrity_accepts_any_key [OF NewInformation_demo] by blast

end
