(* ===== verification/Eow.thy ===== *)
theory Eow
  imports Types GoIO
begin

section \<open>EOW information (\<open>eow.go\<close>)\<close>

text \<open>
  \<open>NewEowInformation\<close> reads signature, header size and version through a section reader and then
  the whole header through the source itself. The checksum is not verified by the code.
\<close>

record EowInformation =
  eow_offset :: int
  eow_size :: int
  eow_header :: bytes
  eow_validChecksum :: bool

definition eowTotalSize :: "u16 \<Rightarrow> u16 \<Rightarrow> int" where
  "eowTotalSize headerSize version =
     (if 2 \<le> version then push_bit 4 (int (unat headerSize)) else int (unat headerSize))"

definition NewEowInformation :: "reader \<Rightarrow> int \<Rightarrow> EowInformation result" where
  "NewEowInformation r offset =
     (case readFull (sectionReader_of r offset) 8 of
        (_, Error e) \<Rightarrow> Error e
      | (_, Panic s) \<Rightarrow> Panic s
      | (sr1, Ok headerBuf) \<Rightarrow>
      if headerBuf \<noteq> BITLOCKER_SIGNATURE then Error (InvalidHeader ''invalid EOW information signature'')
      else case readFull sr1 2 of
        (_, Error e) \<Rightarrow> Error e
      | (_, Panic s) \<Rightarrow> Panic s
      | (sr2, Ok hs) \<Rightarrow>
     (case readFull sr2 2 of
        (_, Error e) \<Rightarrow> Error e
      | (_, Panic s) \<Rightarrow> Panic s
      | (_, Ok vs) \<Rightarrow>
     (let totalSize = eowTotalSize (le16 hs 0) (le16 vs 0) in
      case ReadAt r offset (nat totalSize) of
        (_, Some e) \<Rightarrow> Error e
      | (header, None) \<Rightarrow>
          Ok \<lparr>eow_offset = offset, eow_size = totalSize, eow_header = header, eow_validChecksum = True\<rparr>)))"

definition Eow_IsValid :: "EowInformation \<Rightarrow> bool" where
  "Eow_IsValid e = eow_validChecksum e"

definition Eow_Offset :: "EowInformation \<Rightarrow> int" where
  "Eow_Offset e = eow_offset e"

definition Eow_Size :: "EowInformation \<Rightarrow> int" where
  "Eow_Size e = eow_size e"

definition Eow_Header :: "EowInformation \<Rightarrow> bytes" where
  "Eow_Header e = eow_header e"

lemma eowTotalSize_bound: "0 \<le> eowTotalSize h v \<and> eowTotalSize h v < 2 ^ 20"
proof -
  have "uint h < 2 ^ 16" using uint_lt2p [of h] by simp
  then show ?thesis by (simp add: eowTotalSize_def push_bit_eq_mult)
qed

lemma NewEowInformation_Ok:
  assumes "NewEowInformation r off = Ok e"
  shows "eow_offset e = off" "0 \<le> eow_size e" "eow_size e < 2 ^ 20"
    "int (length (eow_header e)) = eow_size e" "eow_validChecksum e"
  using assms eowTotalSize_bound
  by (auto simp: NewEowInformation_def Let_def split: prod.splits result.splits if_splits option.splits
      dest!: ReadAt_length)

text \<open>Three consecutive reads of a section inside the data.\<close>

lemma readFull_inside_bytes:
  assumes "serves (sr_r s) data" "sr_off s = int k" "k + n \<le> length data" "0 < n"
    and "int k + int n \<le> sr_limit s" "length data < 2 ^ 63"
  shows "readFull s n = (s\<lparr>sr_off := int (k + n)\<rparr>, Ok (slice data k n))"
proof -
  have "sr_inside s data n" using assms by (simp add: sr_inside_def)
  from readFull_inside [OF this assms(4)] assms(2) show ?thesis by (simp add: slice_def)
qed

subsection \<open>Properties\<close>

text \<open>C30: An EOW structure inside an image is read back whole: its size is the header-size field, times
  16 from version 2 on, and its header is that many bytes from its offset.\<close>

theorem newEow_reads:
  assumes "serves r data" "length data < 2 ^ 63" "k + 12 \<le> length data"
    and "slice data k 8 = BITLOCKER_SIGNATURE"
    and "n = (if 2 \<le> le16 data (k + 10) then 16 else 1) * unat (le16 data (k + 8))"
    and "0 < n" "k + n \<le> length data"
  shows "NewEowInformation r (int k) =
    Ok \<lparr>eow_offset = int k, eow_size = int n, eow_header = slice data k n, eow_validChecksum = True\<rparr>"
proof -
  let ?s = "sectionReader_of r (int k)"
  have lim: "sr_limit ?s = maxInt64" using assms(2,3) by (intro sectionReader_of_limit) auto
  have m: "int (length data) \<le> maxInt64" using assms(2) by (simp add: maxInt64_def)
  have r1: "readFull ?s 8 = (?s\<lparr>sr_off := int (k + 8)\<rparr>, Ok (slice data k 8))"
    using assms(1-3) lim m by (intro readFull_inside_bytes) auto
  have r2: "readFull (?s\<lparr>sr_off := int (k + 8)\<rparr>) 2 = (?s\<lparr>sr_off := int (k + 10)\<rparr>, Ok (slice data (k + 8) 2))"
    using assms(1-3) lim m readFull_inside_bytes [of "?s\<lparr>sr_off := int (k + 8)\<rparr>" data "k + 8" 2]
    by auto
  have r3: "readFull (?s\<lparr>sr_off := int (k + 10)\<rparr>) 2 = (?s\<lparr>sr_off := int (k + 12)\<rparr>, Ok (slice data (k + 10) 2))"
    using assms(1-3) lim m readFull_inside_bytes [of "?s\<lparr>sr_off := int (k + 10)\<rparr>" data "k + 10" 2]
    by auto
  have le: "le16 (slice data j 2) 0 = le16 data j" for j
    by (simp add: le16_def slice_def)
  have sz: "eowTotalSize (le16 data (k + 8)) (le16 data (k + 10)) = int n"
    by (simp add: eowTotalSize_def assms(5) push_bit_eq_mult del: of_nat_unat)
  have "ReadAt r (int k) n = (slice data k n, None)"
    using servesD [OF assms(1), of "int k" n] assms(6,7) by (simp add: slice_def)
  with r1 r2 r3 assms(4) show ?thesis
    by (simp add: NewEowInformation_def Let_def le sz)
qed

theorem newEow_reads_witness:
  "NewEowInformation (bytesReader (5 # BITLOCKER_SIGNATURE @ [1, 0, 2, 0, 7, 7, 7, 7, 9])) 1 =
    Ok \<lparr>eow_offset = 1, eow_size = 16, eow_header = BITLOCKER_SIGNATURE @ [1, 0, 2, 0, 7, 7, 7, 7],
        eow_validChecksum = True\<rparr>"
  using newEow_reads [OF serves_bytesReader, of "5 # BITLOCKER_SIGNATURE @ [1, 0, 2, 0, 7, 7, 7, 7, 9]" 1 16]
  by (simp add: BITLOCKER_SIGNATURE_def slice_def le16_def)

end
