(* ===== verification/Detect.thy ===== *)
theory Detect
  imports Types GoIO
begin

section \<open>Detection of BitLocker volumes (\<open>detect.go\<close>)\<close>

text \<open>
  The probe scans the first sectors for a GUID locator block, takes the offsets of the
  information blocks from it and looks for the signature there. \<open>probeInformationOffsets\<close> is
  the scan with its inner function \<open>parseOffsets\<close>, which reads the offsets from the sector
  buffer when they lie inside it and through the source otherwise.

  \<open>locatorAt\<close> is the specification of one sector over the bytes of the image:
  \<open>probe_loop_spec\<close> says that the scan concatenates it over the sectors, so a locator that
  straddles a sector boundary counts like any other.
\<close>

definition defaultProbeSectorSize :: int where
  "defaultProbeSectorSize = 512"

definition defaultProbeMaxSectors :: int where
  "defaultProbeMaxSectors = 256"

record ProbeOptions =
  po_SectorSize :: int
  po_MaxSectors :: int
  po_AcceptSignatureAtOffset0 :: bool

subsection \<open>The scan\<close>

text \<open>The non-zero ones among \<open>n\<close> 64-bit offsets stored from position \<open>k\<close> on.\<close>

definition offsetsIn :: "bytes \<Rightarrow> nat \<Rightarrow> nat \<Rightarrow> int list" where
  "offsetsIn raw k n = map sint (filter (\<lambda>off. off \<noteq> 0) (map (\<lambda>i. le64 raw (k + i * 8)) [0..<n]))"

definition probe_parseOffsets ::
    "reader \<Rightarrow> bytes \<Rightarrow> int \<Rightarrow> nat \<Rightarrow> nat \<Rightarrow> nat \<Rightarrow> int list result" where
  "probe_parseOffsets r sec base idx infoCount eowCount =
     (let need = idx + 16 + (infoCount + eowCount) * 8 in
      if need \<le> length sec then
        (let raw = slice sec (idx + 16) ((infoCount + eowCount) * 8)
         in Ok (offsetsIn raw 0 infoCount))
      else case ReadAt r (i64 (base + int idx + 16)) ((infoCount + eowCount) * 8) of
        (_, Some e) \<Rightarrow> Error e
      | (raw, None) \<Rightarrow> Ok (offsetsIn raw 0 infoCount))"

function probe_loop :: "reader \<Rightarrow> int \<Rightarrow> int \<Rightarrow> int \<Rightarrow> int list \<Rightarrow> int list result" where
  "probe_loop r sectorSize maxSectors sector infoOffsets =
     (if sector < maxSectors then
        (let base = i64 (sector * sectorSize) in
         case ReadAt r base (nat sectorSize) of
           (_, Some e) \<Rightarrow> Error e
         | (sec, None) \<Rightarrow>
             (case bytes_Index sec EOW_INFORMATION_OFFSET_GUID of
                Some idx \<Rightarrow>
                  bindR (probe_parseOffsets r sec base idx 3 2) (\<lambda>offs.
                    probe_loop r sectorSize maxSectors (sector + 1) (infoOffsets @ offs))
              | None \<Rightarrow>
                  (case bytes_Index sec INFORMATION_OFFSET_GUID of
                     Some idx \<Rightarrow>
                       bindR (probe_parseOffsets r sec base idx 3 0) (\<lambda>offs.
                         probe_loop r sectorSize maxSectors (sector + 1) (infoOffsets @ offs))
                   | None \<Rightarrow> probe_loop r sectorSize maxSectors (sector + 1) infoOffsets)))
      else Ok infoOffsets)"
  by pat_completeness auto
termination
  by (relation "measure (\<lambda>(r, sectorSize, maxSectors, sector, infoOffsets). nat (maxSectors - sector))") auto

declare probe_loop.simps [simp del]

definition probeInformationOffsets :: "reader \<Rightarrow> int \<Rightarrow> int \<Rightarrow> int list result" where
  "probeInformationOffsets r sectorSize maxSectors =
     (if sectorSize < 0 then Panic ''makeslice: len out of range''
      else probe_loop r sectorSize maxSectors 0 [])"

subsection \<open>The probe\<close>

definition deriveSectorSize :: "reader \<Rightarrow> int" where
  "deriveSectorSize r =
     (case readFull (sectionReader_of r 0) size_BootSector of
        (_, Ok b) \<Rightarrow>
          (let shift = boot_BytesPerSectorShift (read_BootSector b) in
           if 9 \<le> shift \<and> shift \<le> 12 then push_bit (unat shift) 1 else defaultProbeSectorSize)
      | _ \<Rightarrow> defaultProbeSectorSize)"

primrec checkSignatures :: "reader \<Rightarrow> int list \<Rightarrow> bool result" where
  "checkSignatures r [] = Ok False"
| "checkSignatures r (off # offs) =
     (if off < 0 then checkSignatures r offs
      else case ReadAt r off 8 of
        (_, Some e) \<Rightarrow> Error e
      | (sig, None) \<Rightarrow> if sig = BITLOCKER_SIGNATURE then Ok True else checkSignatures r offs)"

definition IsBitLockerVolumeWithOptions :: "reader \<Rightarrow> ProbeOptions \<Rightarrow> bool result" where
  "IsBitLockerVolumeWithOptions r opts =
     (if po_AcceptSignatureAtOffset0 opts \<and> ReadAt r 0 8 = (BITLOCKER_SIGNATURE, None) then Ok True
      else
        let sectorSize = (if po_SectorSize opts \<le> 0 then deriveSectorSize r else po_SectorSize opts);
            maxSectors = (if po_MaxSectors opts \<le> 0 then defaultProbeMaxSectors else po_MaxSectors opts)
        in bindR (probeInformationOffsets r sectorSize maxSectors) (\<lambda>infoOffsets.
             if infoOffsets = [] then Ok False else checkSignatures r infoOffsets))"

definition IsBitLockerVolume :: "reader \<Rightarrow> bool result" where
  "IsBitLockerVolume r =
     IsBitLockerVolumeWithOptions r
       \<lparr>po_SectorSize = 0, po_MaxSectors = 0, po_AcceptSignatureAtOffset0 = True\<rparr>"

definition HasBitLockerBootSectorMarker :: "reader \<Rightarrow> bool result" where
  "HasBitLockerBootSectorMarker r =
     (case ReadAt r 3 8 of
        (_, Some e) \<Rightarrow> Error e
      | (oem, None) \<Rightarrow> Ok (oem = BITLOCKER_SIGNATURE))"

subsection \<open>What a scan finds, over the bytes of the image\<close>

text \<open>
  The first locator of the sector at \<open>pos\<close>: the position of its offset array, and whether it is
  of the EOW kind, which is looked for first.
\<close>

definition locatorAt :: "bytes \<Rightarrow> nat \<Rightarrow> nat \<Rightarrow> (nat \<times> bool) option" where
  "locatorAt data ss pos =
     (case bytes_Index (slice data pos ss) EOW_INFORMATION_OFFSET_GUID of
        Some idx \<Rightarrow> Some (pos + idx + 16, True)
      | None \<Rightarrow> map_option (\<lambda>idx. (pos + idx + 16, False))
                  (bytes_Index (slice data pos ss) INFORMATION_OFFSET_GUID))"

definition sectorInfo :: "bytes \<Rightarrow> nat \<Rightarrow> nat \<Rightarrow> int list" where
  "sectorInfo data ss pos = (case locatorAt data ss pos of Some (q, _) \<Rightarrow> offsetsIn data q 3 | None \<Rightarrow> [])"

definition scanInfo :: "bytes \<Rightarrow> nat \<Rightarrow> nat \<Rightarrow> nat \<Rightarrow> int list" where
  "scanInfo data ss i n = concat (map (\<lambda>k. sectorInfo data ss (k * ss)) [i..<n])"

lemma scanInfo_step: "i < n \<Longrightarrow> scanInfo data ss i n = sectorInfo data ss (i * ss) @ scanInfo data ss (Suc i) n"
  by (simp add: scanInfo_def upt_conv_Cons)

lemma le64_slice: "j + 8 \<le> n \<Longrightarrow> le64 (slice b k n) j = le64 b (k + j)"
  by (simp add: le64_def slice_slice)

lemma offsetsIn_slice: "j + c * 8 \<le> n \<Longrightarrow> offsetsIn (slice b k n) j c = offsetsIn b (k + j) c"
proof -
  assume "j + c * 8 \<le> n"
  then have "map (\<lambda>i. le64 (slice b k n) (j + i * 8)) [0..<c] = map (\<lambda>i. le64 b (k + j + i * 8)) [0..<c]"
    by (intro map_cong refl) (auto simp: le64_slice add.assoc)
  then show ?thesis by (simp only: offsetsIn_def)
qed

text \<open>The offset array is read alike from the buffer and, when it leaves the sector, from the source.\<close>

lemma serves_slice:
  "serves r data \<Longrightarrow> 0 < n \<Longrightarrow> k + n \<le> length data \<Longrightarrow> ReadAt r (int k) n = (slice data k n, None)"
  using servesD [of r data "int k" n] by (simp add: slice_def)

lemma locator_raw:
  assumes "serves r data" "length data < 2 ^ 63" "pos + ss \<le> length data" "idx + 16 \<le> ss"
    and "0 < c" "pos + idx + 16 + c \<le> length data"
  shows "(idx + 16 + c \<le> length (slice data pos ss) \<longrightarrow>
      slice (slice data pos ss) (idx + 16) c = slice data (pos + idx + 16) c) \<and>
    ReadAt r (i64 (int pos + int idx + 16)) c = (slice data (pos + idx + 16) c, None)"
proof -
  have "i64 (int pos + int idx + 16) = int (pos + idx + 16)"
    using assms(2-4) by (subst i64_id) auto
  moreover have "ReadAt r (int (pos + idx + 16)) c = (slice data (pos + idx + 16) c, None)"
    using assms by (intro serves_slice) auto
  moreover have "length (slice data pos ss) = ss" using assms(3) by (simp add: length_slice)
  ultimately show ?thesis by (auto simp: slice_slice add.assoc)
qed

lemma probe_parseOffsets_spec:
  assumes "serves r data" "length data < 2 ^ 63" "pos + ss \<le> length data" "idx + 16 \<le> ss"
    and "pos + idx + 16 + (3 + e) * 8 \<le> length data"
  shows "probe_parseOffsets r (slice data pos ss) (int pos) idx 3 e = Ok (offsetsIn data (pos + idx + 16) 3)"
proof -
  have "offsetsIn (slice data (pos + idx + 16) ((3 + e) * 8)) 0 3 = offsetsIn data (pos + idx + 16) 3"
    using offsetsIn_slice [of 0 3 "(3 + e) * 8" data "pos + idx + 16"] by simp
  with locator_raw [OF assms(1-4), of "(3 + e) * 8"] assms(5) show ?thesis
    by (auto simp: probe_parseOffsets_def Let_def)
qed

lemma index_guid:
  "bytes_Index s EOW_INFORMATION_OFFSET_GUID = Some i \<Longrightarrow> i + 16 \<le> length s"
  "bytes_Index s INFORMATION_OFFSET_GUID = Some i \<Longrightarrow> i + 16 \<le> length s"
  by (auto dest!: bytes_Index_bound)

text \<open>Every locator of the scanned sectors has its offset array inside the image.\<close>

definition arraysInside :: "bytes \<Rightarrow> nat \<Rightarrow> nat \<Rightarrow> bool" where
  "arraysInside data ss n \<longleftrightarrow>
     (\<forall>k < n. \<forall>q e. locatorAt data ss (k * ss) = Some (q, e) \<longrightarrow> q + (if e then 40 else 24) \<le> length data)"

lemma arraysInside_eow:
  "arraysInside data ss n \<Longrightarrow> k < n \<Longrightarrow> bytes_Index (slice data (k * ss) ss) EOW_INFORMATION_OFFSET_GUID = Some idx \<Longrightarrow>
   k * ss + idx + 16 + 40 \<le> length data"
  by (fastforce simp: arraysInside_def locatorAt_def)

lemma arraysInside_info:
  "arraysInside data ss n \<Longrightarrow> k < n \<Longrightarrow> bytes_Index (slice data (k * ss) ss) EOW_INFORMATION_OFFSET_GUID = None \<Longrightarrow>
   bytes_Index (slice data (k * ss) ss) INFORMATION_OFFSET_GUID = Some idx \<Longrightarrow> k * ss + idx + 16 + 24 \<le> length data"
  by (fastforce simp: arraysInside_def locatorAt_def)

lemma arraysInside_slack:
  assumes "n * ss + 40 \<le> length data"
  shows "arraysInside data ss n"
proof -
  have "q \<le> k * ss + ss" if "k < n" "locatorAt data ss (k * ss) = Some (q, e)" for k q e
  proof -
    have "length (slice data (k * ss) ss) \<le> ss" by (simp add: slice_def)
    with that(2) index_guid [of "slice data (k * ss) ss"] show ?thesis
      by (fastforce simp: locatorAt_def split: option.splits)
  qed
  moreover have "k * ss + ss \<le> n * ss" if "k < n" for k
    using mult_right_mono [of "Suc k" n ss] that by simp
  ultimately show ?thesis using assms unfolding arraysInside_def by (fastforce split: if_splits)
qed

lemma probe_loop_spec:
  assumes "serves r data" "length data < 2 ^ 63" "0 < ss" "n * ss \<le> length data" "i \<le> n"
    and inside: "arraysInside data ss n"
  shows "probe_loop r (int ss) (int n) (int i) acc = Ok (acc @ scanInfo data ss i n)"
  using assms(5)
proof (induction "n - i" arbitrary: i acc)
  case 0
  then show ?case by (simp add: probe_loop.simps scanInfo_def)
next
  case (Suc m)
  then have i: "i < n" "m = n - Suc i" by auto
  then have "(i + 1) * ss \<le> n * ss" by (intro mult_right_mono) auto
  with assms(4) have pos: "i * ss + ss \<le> length data" by simp
  have base: "i64 (int i * int ss) = int (i * ss)"
    using i64_nat [of "i * ss"] pos assms(2) by simp
  have sec: "ReadAt r (int i * int ss) ss = (slice data (i * ss) ss, None)"
    using serves_slice [OF assms(1,3), of "i * ss"] pos by simp
  have len: "length (slice data (i * ss) ss) = ss" using pos by (simp add: length_slice)
  note parse = probe_parseOffsets_spec [OF assms(1,2) pos]
  have step: "probe_loop r (int ss) (int n) (int i + 1) acc' = Ok (acc' @ scanInfo data ss (Suc i) n)" for acc'
    using Suc.hyps(1) [OF i(2), of acc'] i(1) by (simp add: add.commute)
  show ?case
  proof (cases "bytes_Index (slice data (i * ss) ss) EOW_INFORMATION_OFFSET_GUID")
    case (Some idx)
    with index_guid(1) [OF Some] len have "idx + 16 \<le> ss" by simp
    with Some parse [of idx 2] arraysInside_eow [OF inside i(1) Some] show ?thesis
      by (subst probe_loop.simps)
        (simp add: Let_def i scanInfo_step sectorInfo_def locatorAt_def base sec step)
  next
    case None
    show ?thesis
    proof (cases "bytes_Index (slice data (i * ss) ss) INFORMATION_OFFSET_GUID")
      case (Some idx)
      with index_guid(2) [OF Some] len have "idx + 16 \<le> ss" by simp
      with None Some parse [of idx 0] arraysInside_info [OF inside i(1) None Some] show ?thesis
        by (subst probe_loop.simps)
          (simp add: Let_def i scanInfo_step sectorInfo_def locatorAt_def base sec step)
    next
      case N: None
      with None show ?thesis
        by (subst probe_loop.simps)
          (simp add: Let_def i scanInfo_step sectorInfo_def locatorAt_def base sec step)
    qed
  qed
qed

lemma probe_inside:
  assumes "serves r data" "length data < 2 ^ 63" "0 < ss" "n * ss \<le> length data" "arraysInside data ss n"
  shows "probeInformationOffsets r (int ss) (int n) = Ok (scanInfo data ss 0 n)"
  using probe_loop_spec [OF assms(1-4) _ assms(5), of 0 "[]"] by (simp add: probeInformationOffsets_def)

lemma probe_spec:
  assumes "serves r data" "length data < 2 ^ 63" "0 < ss" "n * ss + 40 \<le> length data"
  shows "probeInformationOffsets r (int ss) (int n) = Ok (scanInfo data ss 0 n)"
  using probe_inside [OF assms(1-3) _ arraysInside_slack [OF assms(4)]] assms(4) by simp

lemma deriveSectorSize_values: "deriveSectorSize r \<in> {512, 1024, 2048, 4096}"
proof -
  have "push_bit (unat s) (1::int) \<in> {512, 1024, 2048, 4096}" if "9 \<le> s" "s \<le> 12" for s :: u8
  proof -
    have "9 \<le> unat s" "unat s \<le> 12" using that by (simp_all add: word_le_nat_alt)
    then have "unat s \<in> {9, 10, 11, 12}" by auto
    then show ?thesis by auto
  qed
  then show ?thesis
    by (auto simp: deriveSectorSize_def defaultProbeSectorSize_def Let_def split: prod.splits result.splits)
qed

lemma checkSignatures_spec:
  assumes "serves r data" "\<forall>off \<in> set offs. off + 8 \<le> int (length data)"
  shows "checkSignatures r offs = Ok (\<exists>off \<in> set offs. 0 \<le> off \<and> slice data (nat off) 8 = BITLOCKER_SIGNATURE)"
  using assms(2)
proof (induction offs)
  case (Cons off offs)
  then have "0 \<le> off \<Longrightarrow> ReadAt r off 8 = (slice data (nat off) 8, None)"
    using servesD [OF assms(1), of off 8] by (simp add: slice_def)
  with Cons show ?case by auto
qed simp

lemma checkSignatures_sound:
  "checkSignatures r offs = Ok True \<Longrightarrow> \<exists>off \<in> set offs. 0 \<le> off \<and> ReadAt r off 8 = (BITLOCKER_SIGNATURE, None)"
  by (induction offs) (auto split: if_splits prod.splits option.splits)

subsection \<open>Properties\<close>

text \<open>C26: The probe answers yes only for a signature it has read: at offset 0 when the option allows it,
  or at a non-negative offset that the scan took from a locator. This holds for every source.\<close>

theorem isBitLockerVolume_sound:
  assumes "IsBitLockerVolumeWithOptions r opts = Ok True"
  shows "(po_AcceptSignatureAtOffset0 opts \<and> ReadAt r 0 8 = (BITLOCKER_SIGNATURE, None)) \<or>
    (\<exists>ss n offs off. probeInformationOffsets r ss n = Ok offs \<and> off \<in> set offs \<and> 0 \<le> off \<and>
       ReadAt r off 8 = (BITLOCKER_SIGNATURE, None))"
  using assms
  by (auto simp: IsBitLockerVolumeWithOptions_def Let_def bindR_Ok_iff split: if_splits
      dest!: checkSignatures_sound)

text \<open>C15: On an image that covers the scanned sectors and the advertised offsets the probe decides: it
  answers yes exactly when the signature stands at offset 0 (if accepted) or at an offset of some
  locator of the scanned sectors, straddling locators included.\<close>

theorem isBitLockerVolume_decides:
  assumes "serves r data" "length data < 2 ^ 63"
    and "int ss = (if po_SectorSize opts \<le> 0 then deriveSectorSize r else po_SectorSize opts)"
    and "int n = (if po_MaxSectors opts \<le> 0 then 256 else po_MaxSectors opts)"
    and "n * ss + 40 \<le> length data"
    and "\<forall>off \<in> set (scanInfo data ss 0 n). off + 8 \<le> int (length data)"
  shows "IsBitLockerVolumeWithOptions r opts =
    Ok (po_AcceptSignatureAtOffset0 opts \<and> slice data 0 8 = BITLOCKER_SIGNATURE \<or>
        (\<exists>off \<in> set (scanInfo data ss 0 n). 0 \<le> off \<and> slice data (nat off) 8 = BITLOCKER_SIGNATURE))"
proof -
  have "0 < (if po_SectorSize opts \<le> 0 then deriveSectorSize r else po_SectorSize opts)"
    using deriveSectorSize_values [of r] by auto
  then have ss: "0 < ss" using assms(3) by simp
  have "ReadAt r 0 8 = (slice data 0 8, None)"
    using serves_slice [OF assms(1), of 8 0] assms(5) by simp
  moreover have "probeInformationOffsets r (int ss) (int n) = Ok (scanInfo data ss 0 n)"
    by (rule probe_spec [OF assms(1,2) ss assms(5)])
  moreover note checkSignatures_spec [OF assms(1,6)]
  ultimately show ?thesis
    unfolding IsBitLockerVolumeWithOptions_def Let_def assms(3,4) [symmetric] defaultProbeMaxSectors_def
    by (auto simp: bindR_def)
qed

definition demoProbeImage :: bytes where
  "demoProbeImage = INFORMATION_OFFSET_GUID @ put64 96 @ put64 0 @ put64 0 @ replicate 56 0 @ BITLOCKER_SIGNATURE"

lemma demoProbe_scan: "length demoProbeImage = 104" "scanInfo demoProbeImage 64 0 (Suc 0) = [96]"
proof -
  show "length demoProbeImage = 104" by (simp add: demoProbeImage_def)
  have sec: "slice demoProbeImage 0 64 = INFORMATION_OFFSET_GUID @ put64 96 @ put64 0 @ put64 0 @ replicate 24 0"
    by (simp add: demoProbeImage_def slice_def)
  have b: "put64 96 = [96, 0, 0, 0, 0, 0, 0, 0]" "put64 0 = [0, 0, 0, 0, 0, 0, 0, 0]" by code_simp+
  have e: "bytes_Index (INFORMATION_OFFSET_GUID @ put64 96 @ put64 0 @ put64 0 @ replicate 24 0) EOW_INFORMATION_OFFSET_GUID = None"
    by (rule bytes_Index_subset) (simp add: b INFORMATION_OFFSET_GUID_def EOW_INFORMATION_OFFSET_GUID_def)
  have i: "bytes_Index (INFORMATION_OFFSET_GUID @ put64 96 @ put64 0 @ put64 0 @ replicate 24 0) INFORMATION_OFFSET_GUID = Some 0"
    by (simp add: INFORMATION_OFFSET_GUID_def)
  have "[0..<3] = [0, 1, 2 :: nat]" by (simp add: upt_rec)
  then have "offsetsIn demoProbeImage 16 3 = [96]"
    by (simp add: offsetsIn_def demoProbeImage_def le_skip)
  then show "scanInfo demoProbeImage 64 0 (Suc 0) = [96]"
    by (simp add: scanInfo_def sectorInfo_def locatorAt_def sec e i)
qed

theorem isBitLockerVolume_decides_witness:
  "IsBitLockerVolumeWithOptions (bytesReader demoProbeImage)
     \<lparr>po_SectorSize = 64, po_MaxSectors = 1, po_AcceptSignatureAtOffset0 = True\<rparr> = Ok True"
proof -
  have "slice demoProbeImage 96 8 = BITLOCKER_SIGNATURE"
    by (simp add: demoProbeImage_def slice_def)
  then show ?thesis
    using isBitLockerVolume_decides [OF serves_bytesReader, of demoProbeImage 64
        "\<lparr>po_SectorSize = 64, po_MaxSectors = 1, po_AcceptSignatureAtOffset0 = True\<rparr>" 1]
    by (simp add: demoProbe_scan)
qed

theorem isBitLockerVolume_sound_witness:
  "\<exists>off. ReadAt (bytesReader BITLOCKER_SIGNATURE) off 8 = (BITLOCKER_SIGNATURE, None) \<and>
     IsBitLockerVolume (bytesReader BITLOCKER_SIGNATURE) = Ok True"
proof -
  have "IsBitLockerVolumeWithOptions (bytesReader BITLOCKER_SIGNATURE)
      \<lparr>po_SectorSize = 0, po_MaxSectors = 0, po_AcceptSignatureAtOffset0 = True\<rparr> = Ok True"
    by (simp add: IsBitLockerVolumeWithOptions_def ReadAt_bytesReader)
  with isBitLockerVolume_sound [OF this] show ?thesis by (auto simp: IsBitLockerVolume_def)
qed

end
