(* ===== verification/BootSector.thy ===== *)
theory BootSector
  imports Detect
begin

section \<open>Boot sector and GUID locator blocks (\<open>bde.go\<close>)\<close>

text \<open>
  \<open>parseBootSector\<close> derives the sector and cluster sizes and finds the offsets of the information
  and EOW blocks: by the locator scan \<open>readGuidBlocks\<close> with its attempts at other sector sizes,
  then from fixed positions of the boot sector. \<open>tryScan\<close> is the scan of \<open>detect.go\<close> once more,
  collecting the EOW offsets too; \<open>tryScan_probe\<close> says that the two agree on every source.
\<close>

record bootSectorData =
  bsd_bootSector :: BootSector
  bsd_sectorSize :: int
  bsd_clusterSize :: int
  bsd_informationOffsets :: "int list"
  bsd_eowOffsets :: "int list"

subsection \<open>The locator scan\<close>

definition scan_parseOffsets ::
    "reader \<Rightarrow> bytes \<Rightarrow> int \<Rightarrow> nat \<Rightarrow> nat \<Rightarrow> nat \<Rightarrow> (int list \<times> int list) result" where
  "scan_parseOffsets r sec base idx infoCount eowCount =
     (let need = idx + 16 + (infoCount + eowCount) * 8 in
      if need \<le> length sec then
        (let raw = slice sec (idx + 16) ((infoCount + eowCount) * 8)
         in Ok (offsetsIn raw 0 infoCount, offsetsIn raw (infoCount * 8) eowCount))
      else case ReadAt r (i64 (base + int idx + 16)) ((infoCount + eowCount) * 8) of
        (_, Some e) \<Rightarrow> Error e
      | (raw, None) \<Rightarrow> Ok (offsetsIn raw 0 infoCount, offsetsIn raw (infoCount * 8) eowCount))"

function scan_loop ::
    "reader \<Rightarrow> int \<Rightarrow> int \<Rightarrow> int \<Rightarrow> int list \<Rightarrow> int list \<Rightarrow> (int list \<times> int list) result" where
  "scan_loop r sectorSize maxSectors sector infoOffsets eowOffsets =
     (if sector < maxSectors then
        (let offset = i64 (sector * sectorSize) in
         case ReadAt r offset (nat sectorSize) of
           (_, Some e) \<Rightarrow> Error e
         | (sec, None) \<Rightarrow>
             (case bytes_Index sec EOW_INFORMATION_OFFSET_GUID of
                Some idx \<Rightarrow>
                  bindR (scan_parseOffsets r sec offset idx 3 2) (\<lambda>(info, eow).
                    scan_loop r sectorSize maxSectors (sector + 1) (infoOffsets @ info) (eowOffsets @ eow))
              | None \<Rightarrow>
                  (case bytes_Index sec INFORMATION_OFFSET_GUID of
                     Some idx \<Rightarrow>
                       bindR (scan_parseOffsets r sec offset idx 3 0) (\<lambda>(info, eow).
                         scan_loop r sectorSize maxSectors (sector + 1) (infoOffsets @ info) (eowOffsets @ eow))
                   | None \<Rightarrow> scan_loop r sectorSize maxSectors (sector + 1) infoOffsets eowOffsets)))
      else Ok (infoOffsets, eowOffsets))"
  by pat_completeness auto
termination
  by (relation "measure (\<lambda>(r, sectorSize, maxSectors, sector, _, _). nat (maxSectors - sector))") auto

declare scan_loop.simps [simp del]

definition tryScan :: "reader \<Rightarrow> int \<Rightarrow> int \<Rightarrow> (int list \<times> int list) result" where
  "tryScan r sectorSize maxSectors =
     (if sectorSize < 0 then Panic ''makeslice: len out of range''
      else scan_loop r sectorSize maxSectors 0 [] [])"

definition orElse ::
    "(int list \<times> int list) result \<Rightarrow> (int list \<times> int list) result \<Rightarrow> (int list \<times> int list) result" where
  "orElse m next' = bindR m (\<lambda>(info, eow). if info \<noteq> [] \<or> eow \<noteq> [] then Ok (info, eow) else next')"

definition readGuidBlocks :: "reader \<Rightarrow> int \<Rightarrow> int \<Rightarrow> BootSector \<Rightarrow> (int list \<times> int list) result" where
  "readGuidBlocks r sectorSz clusterSz bs =
     (let lcn = (if boot_InformationLcn bs \<noteq> 0 \<and> 0 < clusterSz
                 then Ok ([i64 (sint (boot_InformationLcn bs) * clusterSz)], [])
                 else Ok ([], []));
          try4096 = (if sectorSz \<noteq> 4096 then orElse (tryScan r 4096 256) lcn else lcn);
          try512 = (if sectorSz \<noteq> 512 then orElse (tryScan r 512 256) try4096 else try4096)
      in orElse (tryScan r sectorSz 256) try512)"

subsection \<open>Fixed positions in the boot sector\<close>

text \<open>The map \<open>seen\<close> of the code holds exactly the offsets already in the result.\<close>

definition tryCandidate :: "reader \<Rightarrow> int list \<Rightarrow> int \<Rightarrow> int list" where
  "tryCandidate r offsets offset =
     (if offset \<le> 0 \<or> 2 ^ 44 < offset then offsets
      else if offset \<in> set offsets then offsets
      else case ReadAt r offset 8 of
        (_, Some e) \<Rightarrow> offsets
      | (sig, None) \<Rightarrow> if sig = BITLOCKER_SIGNATURE then offsets @ [offset] else offsets)"

definition offsetCandidates :: "int \<Rightarrow> int \<Rightarrow> u64 \<Rightarrow> int list" where
  "offsetCandidates sectorSize clusterSize rawVal =
     (if rawVal = 0 \<or> push_bit 48 1 < rawVal then []
      else [sint rawVal, i64 (sint rawVal * sectorSize), i64 (sint rawVal * clusterSize)])"

definition tryBootSectorOffsets :: "reader \<Rightarrow> int \<Rightarrow> int \<Rightarrow> int list" where
  "tryBootSectorOffsets r sectorSz clusterSz =
     (case ReadAt r 0x30 24 of
        (_, Some e) \<Rightarrow> []
      | (rawOffsets, None) \<Rightarrow>
          (let clusterSize = (if clusterSz \<le> 0 then 4096 else clusterSz);
               sectorSize = (if sectorSz \<le> 0 then 512 else sectorSz)
           in foldl (tryCandidate r) []
                (concat (map (\<lambda>i. offsetCandidates sectorSize clusterSize (le64 rawOffsets (i * 8))) [0..<3]))))"

subsection \<open>\<open>parseBootSector\<close>\<close>

definition bootSectorSize :: "BootSector \<Rightarrow> int" where
  "bootSectorSize bs =
     (let bps = bpb_BytesPerSector (boot_Bpb bs); shift = boot_BytesPerSectorShift bs in
      if bps \<in> {512, 1024, 2048, 4096} then int (unat bps)
      else if shift < 9 \<or> 12 < shift then 512
      else push_bit (unat shift) 1)"

definition bootClusterSize :: "BootSector \<Rightarrow> int" where
  "bootClusterSize bs =
     (let spc = bpb_SectorsPerCluster (boot_Bpb bs); shift = boot_SectorsPerClusterShift bs in
      if 0 < spc then bootSectorSize bs * int (unat spc)
      else if 25 < shift then bootSectorSize bs
      else bootSectorSize bs * push_bit (unat shift) 1)"

definition parseBootSector :: "reader \<Rightarrow> bootSectorData result" where
  "parseBootSector r =
     (case readFull (sectionReader_of r 0) size_BootSector of
        (_, Error e) \<Rightarrow> Error e
      | (_, Panic s) \<Rightarrow> Panic s
      | (_, Ok b) \<Rightarrow>
          (let bs = read_BootSector b; ss = bootSectorSize bs; cs = bootClusterSize bs in
           bindR (readGuidBlocks r ss cs bs) (\<lambda>(info, eow).
             Ok \<lparr>bsd_bootSector = bs, bsd_sectorSize = ss, bsd_clusterSize = cs,
                 bsd_informationOffsets = (if info = [] then tryBootSectorOffsets r ss cs else info),
                 bsd_eowOffsets = eow\<rparr>)))"

subsection \<open>Sizes\<close>

lemma bootSectorSize_values: "bootSectorSize bs \<in> {512, 1024, 2048, 4096}"
proof -
  have "push_bit (unat s) (1::int) \<in> {512, 1024, 2048, 4096}" if "\<not> (s < 9 \<or> 12 < s)" for s :: u8
  proof -
    have "9 \<le> unat s" "unat s \<le> 12" using that by (simp_all add: not_less word_le_nat_alt)
    then have "unat s \<in> {9, 10, 11, 12}" by auto
    then show ?thesis by auto
  qed
  then show ?thesis by (auto simp: bootSectorSize_def Let_def)
qed

lemma bootSectorSize_bounds: "512 \<le> bootSectorSize bs" "bootSectorSize bs \<le> 4096" "512 dvd bootSectorSize bs"
  using bootSectorSize_values [of bs] by auto

lemma bootClusterSize_factor: "\<exists>k. bootClusterSize bs = bootSectorSize bs * k \<and> 1 \<le> k \<and> k \<le> 2 ^ 25"
proof -
  let ?spc = "bpb_SectorsPerCluster (boot_Bpb bs)" and ?sh = "boot_SectorsPerClusterShift bs"
  consider "0 < ?spc" | "?spc = 0" "25 < ?sh" | "?spc = 0" "?sh \<le> 25"
    using word_greater_zero_iff [of ?spc] not_le [of ?sh 25] by blast
  then show ?thesis
  proof cases
    case 1
    have "unat ?spc < 256" using unsigned_less [of ?spc] by simp
    with 1 show ?thesis
      by (intro exI [of _ "int (unat ?spc)"]) (auto simp: bootClusterSize_def Let_def word_less_nat_alt simp del: of_nat_unat)
  next
    case 2
    then show ?thesis by (intro exI [of _ 1]) (simp add: bootClusterSize_def Let_def)
  next
    case 3
    then have "unat ?sh \<le> 25" by (simp add: word_le_nat_alt)
    then have "(2::int) ^ unat ?sh \<le> 2 ^ 25" by (intro power_increasing) auto
    with 3 show ?thesis
      by (intro exI [of _ "2 ^ unat ?sh"]) (auto simp: bootClusterSize_def Let_def push_bit_eq_mult)
  qed
qed

lemma parseBootSector_Ok:
  assumes "parseBootSector r = Ok bsd"
  shows "bsd_sectorSize bsd = bootSectorSize (bsd_bootSector bsd)"
    "bsd_clusterSize bsd = bootClusterSize (bsd_bootSector bsd)"
  using assms by (auto simp: parseBootSector_def Let_def bindR_Ok_iff split: prod.splits result.splits)

subsection \<open>Located offsets are 64-bit values\<close>

definition offsets64 :: "int list \<Rightarrow> bool" where
  "offsets64 xs \<longleftrightarrow> (\<forall>x \<in> set xs. - (2 ^ 63) \<le> x \<and> x < 2 ^ 63)"

lemma offsets64_simps [simp]:
  "offsets64 []" "offsets64 (x # xs) \<longleftrightarrow> - (2 ^ 63) \<le> x \<and> x < 2 ^ 63 \<and> offsets64 xs"
  "offsets64 (xs @ ys) \<longleftrightarrow> offsets64 xs \<and> offsets64 ys"
  by (auto simp: offsets64_def)

lemma sint_range64:
  fixes w :: u64
  shows "- (2 ^ 63) \<le> sint w" "sint w < 2 ^ 63"
  using sint_greater_eq [of w] sint_less [of w] by simp_all

lemma offsets64_in: "offsets64 (offsetsIn raw k n)"
  using sint_range64 by (auto simp: offsets64_def offsetsIn_def)

lemma scan_loop_offsets64:
  "scan_loop r ss n i info eow = Ok (info', eow') \<Longrightarrow> offsets64 info \<Longrightarrow> offsets64 eow \<Longrightarrow>
   offsets64 info' \<and> offsets64 eow'"
proof (induction "nat (n - i)" arbitrary: i info eow rule: less_induct)
  case less
  have parse: "offsets64 x \<and> offsets64 y" if "scan_parseOffsets r sec base idx ic ec = Ok (x, y)" for sec base idx ic ec x y
    using that offsets64_in by (auto simp: scan_parseOffsets_def Let_def split: if_splits prod.splits option.splits)
  show ?case
  proof (cases "i < n")
    case False
    with less.prems show ?thesis by (simp add: scan_loop.simps [of r ss n i])
  next
    case True
    then have IH: "scan_loop r ss n (i + 1) a b = Ok (info', eow') \<Longrightarrow> offsets64 a \<Longrightarrow> offsets64 b \<Longrightarrow>
        offsets64 info' \<and> offsets64 eow'" for a b
      using less.hyps [of "i + 1" a b] by simp
    obtain a b where "scan_loop r ss n (i + 1) a b = Ok (info', eow')" "offsets64 a" "offsets64 b"
      using less.prems True
      by (subst (asm) scan_loop.simps) (auto simp: Let_def bindR_Ok_iff dest: parse split: prod.splits option.splits)
    then show ?thesis by (rule IH)
  qed
qed

lemma tryScan_offsets64: "tryScan r ss n = Ok (info, eow) \<Longrightarrow> offsets64 info \<and> offsets64 eow"
  using scan_loop_offsets64 [of r ss n 0 "[]" "[]"] by (auto simp: tryScan_def split: if_splits)

lemma orElse_offsets64:
  "orElse m next' = Ok (info, eow) \<Longrightarrow>
   (\<And>x y. m = Ok (x, y) \<Longrightarrow> offsets64 x \<and> offsets64 y) \<Longrightarrow>
   (\<And>x y. next' = Ok (x, y) \<Longrightarrow> offsets64 x \<and> offsets64 y) \<Longrightarrow> offsets64 info \<and> offsets64 eow"
  by (auto simp: orElse_def bindR_Ok_iff split: prod.splits if_splits)

lemma readGuidBlocks_offsets64:
  assumes "readGuidBlocks r ss cs bs = Ok (info, eow)"
  shows "offsets64 info \<and> offsets64 eow"
  using assms i64_range [of "sint (boot_InformationLcn bs) * cs"]
  by (auto simp: readGuidBlocks_def Let_def dest: tryScan_offsets64 split: if_splits elim!: orElse_offsets64)

lemma parseBootSector_offsets64: "parseBootSector r = Ok bsd \<Longrightarrow> offsets64 (bsd_eowOffsets bsd)"
  by (auto simp: parseBootSector_def Let_def bindR_Ok_iff dest: readGuidBlocks_offsets64
      split: prod.splits result.splits)

subsection \<open>The scan agrees with the probe and with the bytes of the image\<close>

lemma scan_parseOffsets_probe:
  "probe_parseOffsets r sec base idx ic ec = bindR (scan_parseOffsets r sec base idx ic ec) (\<lambda>(info, eow). Ok info)"
  by (auto simp: probe_parseOffsets_def scan_parseOffsets_def Let_def split: prod.splits option.splits)

lemma bindR_assoc: "bindR (bindR m f) g = bindR m (\<lambda>x. bindR (f x) g)"
  by (cases m) simp_all

lemma bindR_cong: "(\<And>x. m = Ok x \<Longrightarrow> f x = g x) \<Longrightarrow> bindR m f = bindR m g"
  by (cases m) simp_all

lemma scan_loop_probe:
  "probe_loop r ss n i info = bindR (scan_loop r ss n i info eow) (\<lambda>(info, eow). Ok info)"
proof (induction r ss n i info arbitrary: eow rule: probe_loop.induct)
  case (1 r ss n i info)
  show ?case
  proof (cases "i < n")
    case False
    then show ?thesis by (simp add: probe_loop.simps scan_loop.simps)
  next
    case True
    obtain sec e where rd: "ReadAt r (i64 (i * ss)) (nat ss) = (sec, e)" by fastforce
    note IH = "1.IH" [OF True refl rd [symmetric]]
    show ?thesis
    proof (cases e)
      case (Some err)
      with True rd show ?thesis by (simp add: probe_loop.simps scan_loop.simps)
    next
      case None
      show ?thesis
      proof (cases "bytes_Index sec EOW_INFORMATION_OFFSET_GUID")
        case (Some idx)
        with True rd None show ?thesis
          by (simp add: probe_loop.simps [of r ss n i] scan_loop.simps [of r ss n i] scan_parseOffsets_probe
              bindR_assoc)
            (auto intro!: bindR_cong IH(3) simp: split: prod.splits)
      next
        case N: None
        show ?thesis
        proof (cases "bytes_Index sec INFORMATION_OFFSET_GUID")
          case (Some idx)
          with True rd None N show ?thesis
            by (simp add: probe_loop.simps [of r ss n i] scan_loop.simps [of r ss n i] scan_parseOffsets_probe
                bindR_assoc)
              (auto intro!: bindR_cong IH(2) simp: split: prod.splits)
        next
          case N2: None
          with True rd None N show ?thesis
            by (simp add: probe_loop.simps [of r ss n i] scan_loop.simps [of r ss n i] IH(1))
        qed
      qed
    qed
  qed
qed

lemma tryScan_probe:
  "probeInformationOffsets r ss n = bindR (tryScan r ss n) (\<lambda>(info, eow). Ok info)"
  by (simp add: probeInformationOffsets_def tryScan_def scan_loop_probe [where eow = "[]"])

definition sectorEow :: "bytes \<Rightarrow> nat \<Rightarrow> nat \<Rightarrow> int list" where
  "sectorEow data ss pos = (case locatorAt data ss pos of Some (q, True) \<Rightarrow> offsetsIn data (q + 24) 2 | _ \<Rightarrow> [])"

definition scanEow :: "bytes \<Rightarrow> nat \<Rightarrow> nat \<Rightarrow> nat \<Rightarrow> int list" where
  "scanEow data ss i n = concat (map (\<lambda>k. sectorEow data ss (k * ss)) [i..<n])"

lemma scanEow_step: "i < n \<Longrightarrow> scanEow data ss i n = sectorEow data ss (i * ss) @ scanEow data ss (Suc i) n"
  by (simp add: scanEow_def upt_conv_Cons)

lemma offsetsIn_none [simp]: "offsetsIn raw k 0 = []"
  by (simp add: offsetsIn_def)

lemma scan_parseOffsets_spec:
  assumes "serves r data" "length data < 2 ^ 63" "pos + ss + 40 \<le> length data" "idx + 16 \<le> ss" "e \<le> 2"
  shows "scan_parseOffsets r (slice data pos ss) (int pos) idx 3 e =
    Ok (offsetsIn data (pos + idx + 16) 3, offsetsIn data (pos + idx + 16 + 24) e)"
proof -
  have "offsetsIn (slice data (pos + idx + 16) ((3 + e) * 8)) 0 3 = offsetsIn data (pos + idx + 16) 3"
    "offsetsIn (slice data (pos + idx + 16) ((3 + e) * 8)) 24 e = offsetsIn data (pos + idx + 16 + 24) e"
    using offsetsIn_slice [of 0 3 "(3 + e) * 8" data "pos + idx + 16"]
      offsetsIn_slice [of 24 e "(3 + e) * 8" data "pos + idx + 16"] by simp_all
  moreover have "pos + ss \<le> length data" "pos + idx + 16 + (3 + e) * 8 \<le> length data"
    using assms(3-5) by simp_all
  ultimately show ?thesis using locator_raw [OF assms(1,2) _ assms(4), of pos "(3 + e) * 8"]
    by (auto simp: scan_parseOffsets_def Let_def)
qed

lemma scan_loop_spec:
  assumes "serves r data" "length data < 2 ^ 63" "0 < ss" "n * ss + 40 \<le> length data" "i \<le> n"
  shows "scan_loop r (int ss) (int n) (int i) info eow =
    Ok (info @ scanInfo data ss i n, eow @ scanEow data ss i n)"
  using assms(5)
proof (induction "n - i" arbitrary: i info eow)
  case 0
  then show ?case by (simp add: scan_loop.simps scanInfo_def scanEow_def)
next
  case (Suc m)
  then have i: "i < n" "m = n - Suc i" by auto
  then have "(i + 1) * ss \<le> n * ss" by (intro mult_right_mono) auto
  with assms(4) have pos: "i * ss + ss + 40 \<le> length data" by simp
  have base: "i64 (int i * int ss) = int (i * ss)"
    using i64_nat [of "i * ss"] pos assms(2) by simp
  have sec: "ReadAt r (int i * int ss) ss = (slice data (i * ss) ss, None)"
    using serves_slice [OF assms(1,3), of "i * ss"] pos by simp
  have len: "length (slice data (i * ss) ss) = ss" using pos by (simp add: length_slice)
  note parse = scan_parseOffsets_spec [OF assms(1,2) pos]
  have step: "scan_loop r (int ss) (int n) (int i + 1) a b =
      Ok (a @ scanInfo data ss (Suc i) n, b @ scanEow data ss (Suc i) n)" for a b
    using Suc.hyps(1) [OF i(2), of a b] i(1) by (simp add: add.commute)
  note unfold = Let_def i scanInfo_step scanEow_step sectorInfo_def sectorEow_def locatorAt_def base sec step
  consider (eow) idx where "bytes_Index (slice data (i * ss) ss) EOW_INFORMATION_OFFSET_GUID = Some idx"
    | (info) idx where "bytes_Index (slice data (i * ss) ss) EOW_INFORMATION_OFFSET_GUID = None"
        "bytes_Index (slice data (i * ss) ss) INFORMATION_OFFSET_GUID = Some idx"
    | (none) "bytes_Index (slice data (i * ss) ss) EOW_INFORMATION_OFFSET_GUID = None"
        "bytes_Index (slice data (i * ss) ss) INFORMATION_OFFSET_GUID = None"
    by fastforce
  then show ?case
  proof cases
    case (eow idx)
    with index_guid(1) [OF eow] len parse [of idx 2] show ?thesis
      by (subst scan_loop.simps) (simp add: unfold)
  next
    case (info idx)
    with index_guid(2) [OF info(2)] len parse [of idx 0] show ?thesis
      by (subst scan_loop.simps) (simp add: unfold)
  next
    case none
    then show ?thesis by (subst scan_loop.simps) (simp add: unfold)
  qed
qed

lemma tryScan_spec:
  assumes "serves r data" "length data < 2 ^ 63" "0 < ss" "n * ss + 40 \<le> length data"
  shows "tryScan r (int ss) (int n) = Ok (scanInfo data ss 0 n, scanEow data ss 0 n)"
  using scan_loop_spec [OF assms, of 0 "[]" "[]"] by (simp add: tryScan_def)

subsection \<open>The fixed positions\<close>

lemma tryCandidates_sound:
  assumes "\<forall>off \<in> set offs. 0 < off \<and> off \<le> 2 ^ 44 \<and> ReadAt r off 8 = (BITLOCKER_SIGNATURE, None)" "distinct offs"
  shows "distinct (foldl (tryCandidate r) offs cs) \<and>
    (\<forall>off \<in> set (foldl (tryCandidate r) offs cs).
       0 < off \<and> off \<le> 2 ^ 44 \<and> ReadAt r off 8 = (BITLOCKER_SIGNATURE, None))"
  using assms
proof (induction cs arbitrary: offs)
  case (Cons c cs)
  have "\<forall>off \<in> set (tryCandidate r offs c). 0 < off \<and> off \<le> 2 ^ 44 \<and> ReadAt r off 8 = (BITLOCKER_SIGNATURE, None)"
    "distinct (tryCandidate r offs c)"
    using Cons.prems by (auto simp: tryCandidate_def split: prod.splits option.splits)
  from Cons.IH [OF this] show ?case by simp
qed simp

subsection \<open>Images shorter than the scan\<close>

lemma scan_loop_short:
  assumes "0 < ss" "length data < n * ss" "n * ss < 2 ^ 63" "i * ss \<le> length data"
  shows "\<exists>e. scan_loop (bytesReader data) (int ss) (int n) (int i) info eow = Error e"
  using assms(4)
proof (induction "n - i" arbitrary: i info eow)
  case 0
  then have "n * ss \<le> i * ss" by (intro mult_right_mono) auto
  with 0 assms(2) show ?case by simp
next
  case (Suc m)
  then have i: "i < n" "m = n - Suc i" by auto
  have base: "i64 (int i * int ss) = int i * int ss"
    using i64_nat [of "i * ss"] Suc.prems assms(2,3) by simp
  show ?case
  proof (cases "length data < i * ss + ss")
    case True
    then have "\<exists>d. ReadAt (bytesReader data) (int i * int ss) ss = (d, Some EOF)"
      using nat_int [of "i * ss"] by (auto simp: ReadAt_bytesReader simp del: nat_int)
    then show ?thesis using i by (subst scan_loop.simps) (auto simp: Let_def base)
  next
    case False
    then have "\<exists>e. scan_loop (bytesReader data) (int ss) (int n) (int i + 1) a b = Error e" for a b
      using Suc.hyps(1) [OF i(2), of a b] by (simp add: add.commute)
    then have parse: "\<exists>e. bindR (scan_parseOffsets (bytesReader data) s b x c d) (\<lambda>(p, q).
        scan_loop (bytesReader data) (int ss) (int n) (int i + 1) (info @ p) (eow @ q)) = Error e" for s b x c d
      by (auto simp: scan_parseOffsets_def Let_def split: prod.splits option.splits)
    obtain sec e where rd: "ReadAt (bytesReader data) (int i * int ss) ss = (sec, e)" by fastforce
    show ?thesis
      using i parse rd \<open>\<And>a b. \<exists>e. scan_loop (bytesReader data) (int ss) (int n) (int i + 1) a b = Error e\<close>
      by (subst scan_loop.simps) (simp add: Let_def base split: option.splits)
  qed
qed

lemma tryScan_short:
  assumes "0 < ss" "length data < n * ss" "n * ss < 2 ^ 63"
  shows "\<exists>e. tryScan (bytesReader data) (int ss) (int n) = Error e"
  using scan_loop_short [OF assms, of 0 "[]" "[]"] by (simp add: tryScan_def)

lemma locatorAt_zero:
  assumes "set (slice data pos ss) \<subseteq> {0}"
  shows "locatorAt data ss pos = None"
proof -
  have "\<not> set INFORMATION_OFFSET_GUID \<subseteq> {0}" "\<not> set EOW_INFORMATION_OFFSET_GUID \<subseteq> {0}"
    by (simp_all add: INFORMATION_OFFSET_GUID_def EOW_INFORMATION_OFFSET_GUID_def)
  with assms show ?thesis
    unfolding locatorAt_def
    by (metis (no_types, lifting) bytes_Index_subset option.simps(4) option.simps(8) subset_trans)
qed

lemma scan_empty:
  assumes "\<And>k. i \<le> k \<Longrightarrow> k < n \<Longrightarrow> locatorAt data ss (k * ss) = None"
  shows "scanInfo data ss i n = []" "scanEow data ss i n = []"
  using assms by (auto simp: scanInfo_def scanEow_def sectorInfo_def sectorEow_def)

subsection \<open>An empty image, for the witnesses\<close>

definition zeroImage :: bytes where
  "zeroImage = replicate (256 * 4096 + 40) 0"

lemma length_zeroImage: "length zeroImage = 256 * 4096 + 40"
  by (simp add: zeroImage_def)

lemma zeroImage_scan: "scanInfo zeroImage ss i n = []" "scanEow zeroImage ss i n = []"
proof -
  have "set (slice zeroImage pos ss) \<subseteq> {0}" for pos
    unfolding slice_def zeroImage_def by (auto dest!: in_set_takeD in_set_dropD)
  then show "scanInfo zeroImage ss i n = []" "scanEow zeroImage ss i n = []"
    by (intro scan_empty locatorAt_zero; simp)+
qed

lemma zeroImage_boot: "\<exists>s. readFull (sectionReader_of (bytesReader zeroImage) 0) 512 = (s, Ok (replicate 512 0))"
  using readFull_section [OF serves_bytesReader, of 0 512 zeroImage]
  by (simp add: length_zeroImage zeroImage_def)

lemma zeroBoot:
  assumes z: "z = replicate 512 0"
  shows "bootSectorSize (read_BootSector z) = 512" "boot_InformationLcn (read_BootSector z) = 0"
proof -
  have sl: "slice z k n = replicate n 0" if "k + n \<le> 512" for k n
    using that by (simp add: slice_def z)
  have "le16 (replicate 25 0) 0 = 0" "le64 z 56 = 0" "le8 z 108 = 0"
    using sl [of 56 8] by (simp_all add: le16_def le64_def le8_def slice_def z)
  then show "bootSectorSize (read_BootSector z) = 512" "boot_InformationLcn (read_BootSector z) = 0"
    by (simp_all add: bootSectorSize_def read_BootSector_def read_BiosParameterBlock_def sl Let_def)
qed

lemma zeroImage_parse: "\<exists>bsd. parseBootSector (bytesReader zeroImage) = Ok bsd"
proof -
  obtain s z where z: "z = replicate 512 0" and boot: "readFull (sectionReader_of (bytesReader zeroImage) 0) 512 = (s, Ok z)"
    using zeroImage_boot by blast
  have "tryScan (bytesReader zeroImage) s 256 = Ok ([], [])" if "s \<in> {512, 4096}" for s
    using tryScan_spec [OF serves_bytesReader, of zeroImage "nat s" 256] that
    by (auto simp: length_zeroImage zeroImage_scan)
  then have "readGuidBlocks (bytesReader zeroImage) 512 cs (read_BootSector z) = Ok ([], [])" for cs
    by (simp add: readGuidBlocks_def orElse_def Let_def zeroBoot [OF z])
  with boot show ?thesis
    by (simp add: parseBootSector_def size_BootSector_def Let_def zeroBoot [OF z])
qed

subsection \<open>Properties\<close>

text \<open>C21: The scan of the volume constructor and the probe of \<open>detect.go\<close>, two copies of one loop, agree on
  every source: same information offsets, same error, same panic.\<close>

theorem tryScan_agrees_with_probe:
  "probeInformationOffsets r ss n = bindR (tryScan r ss n) (\<lambda>(info, eow). Ok info)"
  by (rule tryScan_probe)

text \<open>C22: On an image that covers 256 sectors of 4096 bytes the locator search returns what the first
  successful scan finds, at the derived sector size, then 512, then 4096, and only when none of the
  three finds an offset the cluster number of the boot sector.\<close>

theorem readGuidBlocks_order:
  assumes "serves r data" "length data < 2 ^ 63" "256 * 4096 + 40 \<le> length data"
    and "ss \<in> {512, 1024, 2048, 4096}"
  shows "readGuidBlocks r (int ss) cs bs =
    Ok (case find (\<lambda>(info, eow). info \<noteq> [] \<or> eow \<noteq> [])
          (map (\<lambda>s. (scanInfo data s 0 256, scanEow data s 0 256)) [ss, 512, 4096]) of
          Some offs \<Rightarrow> offs
        | None \<Rightarrow> (if boot_InformationLcn bs \<noteq> 0 \<and> 0 < cs
                   then [i64 (sint (boot_InformationLcn bs) * cs)] else [], []))"
proof -
  have scan: "tryScan r (int s) 256 = Ok (scanInfo data s 0 256, scanEow data s 0 256)"
    if "s \<in> {512, 1024, 2048, 4096}" for s
    using tryScan_spec [OF assms(1,2), of s 256] assms(3) that by auto
  from scan [of 512] scan [of 4096] scan [OF assms(4)] show ?thesis
    by (auto simp: readGuidBlocks_def orElse_def Let_def)
qed

theorem readGuidBlocks_order_witness:
  "readGuidBlocks (bytesReader zeroImage) 512 512 ((read_BootSector [])\<lparr>boot_InformationLcn := 3\<rparr>) = Ok ([1536], [])"
  using readGuidBlocks_order [OF serves_bytesReader, of zeroImage 512 512 "(read_BootSector [])\<lparr>boot_InformationLcn := 3\<rparr>"]
  by (simp add: length_zeroImage zeroImage_scan)

text \<open>C31: The sector size of a parsed boot sector is 512, 1024, 2048 or 4096, and the cluster size is a
  positive multiple of it, at most \<open>2^25\<close> sectors, whatever the fields hold.\<close>

theorem parseBootSector_sizes:
  assumes "parseBootSector r = Ok bsd"
  shows "bsd_sectorSize bsd \<in> {512, 1024, 2048, 4096} \<and>
    (\<exists>k. bsd_clusterSize bsd = bsd_sectorSize bsd * k \<and> 1 \<le> k \<and> k \<le> 2 ^ 25)"
  using parseBootSector_Ok [OF assms] bootSectorSize_values bootClusterSize_factor by simp

theorem parseBootSector_sizes_witness:
  "\<exists>bsd. parseBootSector (bytesReader zeroImage) = Ok bsd \<and> bsd_sectorSize bsd \<in> {512, 1024, 2048, 4096}"
  using zeroImage_parse parseBootSector_sizes by blast

text \<open>Every offset taken from the fixed boot sector positions is positive, at most \<open>2^44\<close>, listed once,
  and the signature has been read there.\<close>

theorem tryBootSectorOffsets_sound:
  "distinct (tryBootSectorOffsets r ss cs) \<and>
   (\<forall>off \<in> set (tryBootSectorOffsets r ss cs).
      0 < off \<and> off \<le> 2 ^ 44 \<and> ReadAt r off 8 = (BITLOCKER_SIGNATURE, None))"
  using tryCandidates_sound [of "[]" r]
  by (auto simp: tryBootSectorOffsets_def Let_def split: prod.splits option.splits)

text \<open>A volume image shorter than 256 sectors of its sector size is refused with a read error, even
  when a locator block stands in its first sector: the scan always reads 256 sectors.\<close>

theorem parseBootSector_short_image:
  assumes "length data < 256 * 512"
  shows "\<exists>e. parseBootSector (bytesReader data) = Error e"
proof -
  let ?r = "bytesReader data"
  obtain s x where rd: "readFull (sectionReader_of ?r 0) size_BootSector = (s, x)" by fastforce
  show ?thesis
  proof (cases x)
    case (Ok b)
    let ?bs = "read_BootSector b"
    have "\<exists>e. tryScan ?r (bootSectorSize ?bs) 256 = Error e"
    proof -
      define ss where "ss = nat (bootSectorSize ?bs)"
      have ss: "bootSectorSize ?bs = int ss" "512 \<le> ss" "ss \<le> 4096"
        using bootSectorSize_bounds [of ?bs] by (simp_all add: ss_def nat_le_iff le_nat_iff)
      have "256 * 512 \<le> 256 * ss" using ss(2) by simp
      with assms have "length data < 256 * ss" by linarith
      then show ?thesis using tryScan_short [of ss data 256] ss by simp
    qed
    with rd Ok show ?thesis
      by (auto simp: parseBootSector_def readGuidBlocks_def orElse_def Let_def)
  qed (use rd in \<open>auto simp: parseBootSector_def\<close>)
qed

theorem parseBootSector_short_image_witness:
  "\<exists>e. parseBootSector (bytesReader (replicate 512 0)) = Error e"
  by (rule parseBootSector_short_image) simp

end
