(* ===== verification/Volume.thy ===== *)
theory Volume
  imports BootSector Information Eow Keys
begin

section \<open>Volumes and unlocking (\<open>bde.go\<close>)\<close>

text \<open>
  \<open>New\<close> opens a volume: boot sector, locator offsets, the fallback scan of the tail, and the
  information blocks that parse. The \<open>Unlock\<close> functions change the volume's key fields, so they
  return the volume together with their result; the mutations on a path that fails afterwards
  are kept. A nil \<open>information\<close> is \<open>None\<close>, and using it is the panic of the nil dereference.
  The \<open>io.ReadSeeker\<close> of \<open>UnlockWithExternalKey\<close> is modelled as an \<open>io.SectionReader\<close> over any source.
\<close>

record BDE =
  bde_r :: reader
  bde_sectorSize :: int
  bde_clusterSize :: int
  bde_information :: "Information option"
  bde_eowInformation :: "EowInformation option"
  bde_validInformation :: "Information list"
  bde_availableInformation :: "Information list"
  bde_validEowInformation :: "EowInformation list"
  bde_availableEowInformation :: "EowInformation list"
  bde_fvek :: "bytes option"
  bde_fvekType :: u16

subsection \<open>Opening a volume\<close>

text \<open>Keeping the calls that succeed: the loops with \<open>continue\<close> on an error.\<close>

definition okValues :: "'a result list \<Rightarrow> 'a list" where
  "okValues rs = concat (map (\<lambda>x. case x of Ok v \<Rightarrow> [v] | _ \<Rightarrow> []) rs)"

definition effectiveSize :: "reader \<Rightarrow> int \<Rightarrow> int" where
  "effectiveSize r volSize =
     (if volSize \<le> 0 then (case readerSize r of (sz, ok) \<Rightarrow> if ok \<and> 0 < sz then sz else volSize) else volSize)"

definition tryTail :: "reader \<Rightarrow> int \<Rightarrow> int \<Rightarrow> int \<Rightarrow> int list \<Rightarrow> int list" where
  "tryTail r effSize sectorSize maxSectors infoOffsets =
     (if infoOffsets \<noteq> [] \<or> sectorSize \<le> 0 then infoOffsets
      else
        let windowBytes = i64 (sectorSize * maxSectors);
            start = (if i64 (effSize - windowBytes) < 0 then 0 else i64 (effSize - windowBytes));
            tail = NewSectionReader r start (i64 (effSize - start))
        in case probeInformationOffsets (sr_reader tail) sectorSize maxSectors of
             Ok offs \<Rightarrow> if offs \<noteq> [] then offs else infoOffsets
           | _ \<Rightarrow> infoOffsets)"

definition findInfoOffsets :: "reader \<Rightarrow> int \<Rightarrow> bootSectorData \<Rightarrow> int list" where
  "findInfoOffsets r effSize bsd =
     (if bsd_informationOffsets bsd = [] \<and> 0 < effSize then
        tryTail r effSize 4096 8192
          (tryTail r effSize 512 8192
            (tryTail r effSize (bsd_sectorSize bsd) 8192 (bsd_informationOffsets bsd)))
      else bsd_informationOffsets bsd)"

definition New :: "reader \<Rightarrow> int \<Rightarrow> BDE result" where
  "New r volSize =
     bindR (parseBootSector r) (\<lambda>bsd.
       let infoOffsets = findInfoOffsets r (effectiveSize r volSize) bsd;
           available = okValues (map (NewInformation r) infoOffsets);
           valid = filter Information_IsValid available;
           availableEow = okValues (map (NewEowInformation r) (bsd_eowOffsets bsd));
           validEow = filter Eow_IsValid availableEow;
           vol = (\<lambda>info. \<lparr>bde_r = r, bde_sectorSize = bsd_sectorSize bsd,
             bde_clusterSize = bsd_clusterSize bsd, bde_information = Some info,
             bde_eowInformation = (case validEow of e # _ \<Rightarrow> Some e | [] \<Rightarrow> None),
             bde_validInformation = valid, bde_availableInformation = available,
             bde_validEowInformation = validEow, bde_availableEowInformation = availableEow,
             bde_fvek = None, bde_fvekType = 0\<rparr>)
       in case valid of
            info # _ \<Rightarrow> Ok (vol info)
          | [] \<Rightarrow>
              (case available of
                 info # _ \<Rightarrow> Ok (vol info)
               | [] \<Rightarrow> Error (InvalidHeader
                   ''no BitLocker information block found (GUID locators missing or offsets invalid)'')))"

subsection \<open>Accessors\<close>

definition deref :: "'a option \<Rightarrow> 'a result" where
  "deref p = (case p of Some x \<Rightarrow> Ok x | None \<Rightarrow> Panic ''nil pointer dereference'')"

lemma deref_simps [simp]: "deref (Some x) = Ok x" "deref None = Panic ''nil pointer dereference''"
  by (simp_all add: deref_def)

abbreviation dataset :: "BDE \<Rightarrow> Dataset result" where
  "dataset b \<equiv> bindR (deref (bde_information b)) (\<lambda>i. Ok (info_dataset i))"

definition Identifiers :: "BDE \<Rightarrow> bytes list result" where
  "Identifiers b =
     bindR (dataset b) (\<lambda>ds. Ok (concat (map
       (\<lambda>d. case GetVmkInfo d of Some v \<Rightarrow> [overlay (vmk_GuidIdentifier v) (replicate 16 0)] | None \<Rightarrow> [])
       (FindDatum ds FveDatumRoleVolumeMasterKeyInfo FveDatumTypeVolumeMasterKeyInfo))))"

definition SectorSize :: "BDE \<Rightarrow> int" where
  "SectorSize b = bde_sectorSize b"

definition BDE_Version :: "BDE \<Rightarrow> int result" where
  "BDE_Version b = bindR (deref (bde_information b)) (\<lambda>i. Ok (Information_Version i))"

definition Paused :: "BDE \<Rightarrow> bool" where
  "Paused b = False"

definition Decrypted :: "BDE \<Rightarrow> bool" where
  "Decrypted b =
     (case bde_information b of
        Some i \<Rightarrow> mh_EncryptionMethod (ds_header (info_dataset i)) = 0
      | None \<Rightarrow> False)"

definition Encrypted :: "BDE \<Rightarrow> bool" where
  "Encrypted b = (\<not> Decrypted b)"

definition Switching :: "BDE \<Rightarrow> bool" where
  "Switching b = False"

definition Unlocked :: "BDE \<Rightarrow> bool" where
  "Unlocked b = (bde_fvek b \<noteq> None \<or> Decrypted b)"

definition Description :: "BDE \<Rightarrow> string result" where
  "Description b = bindR (dataset b) (\<lambda>ds. Ok (FindDescription ds))"

definition HasClearKey :: "BDE \<Rightarrow> bool result" where
  "HasClearKey b = bindR (dataset b) (\<lambda>ds. Ok (FindClearVmk ds \<noteq> None))"

definition HasRecoveryPassword :: "BDE \<Rightarrow> bool result" where
  "HasRecoveryPassword b = bindR (dataset b) (\<lambda>ds. Ok (FindRecoveryVmk ds \<noteq> []))"

definition HasPassphrase :: "BDE \<Rightarrow> bool result" where
  "HasPassphrase b = bindR (dataset b) (\<lambda>ds. Ok (FindPassphraseVmk ds \<noteq> []))"

definition HasExternalKey :: "BDE \<Rightarrow> bool result" where
  "HasExternalKey b = bindR (dataset b) (\<lambda>ds. Ok (FindExternalVmk ds \<noteq> []))"

subsection \<open>Unlocking\<close>

definition Unlock :: "BDE \<Rightarrow> bytes \<Rightarrow> BDE \<times> unit result" where
  "Unlock b key =
     (case bde_information b of
        None \<Rightarrow> (b, Panic ''nil pointer dereference'')
      | Some i \<Rightarrow>
      if \<not> CheckIntegrity i key then (b, Error (Msg ''key validation failed''))
      else case FindFvek (info_dataset i) of
        None \<Rightarrow> (b, Error (Msg ''FVEK not found''))
      | Some fvekDatum \<Rightarrow>
      (case Unbox fvekDatum key of
        Error e \<Rightarrow> (b, Error (Wrap ''failed to unbox FVEK'' e))
      | Panic s \<Rightarrow> (b, Panic s)
      | Ok unboxed \<Rightarrow>
      (case GetKey unboxed of
        Some (keyType, _, keyData) \<Rightarrow>
          (let b' = b\<lparr>bde_fvek := Some keyData, bde_fvekType := keyType\<rparr> in
           if CipherMap keyType = None
           then (b', Error (MsgFmt ''unsupported cipher type'' (int (unat keyType))))
           else (b', Ok ()))
      | None \<Rightarrow> (b, Error (Msg ''unboxed FVEK datum is invalid'')))))"

definition UnlockWithClearKey :: "BDE \<Rightarrow> unit result" where
  "UnlockWithClearKey b =
     bindR (dataset b) (\<lambda>ds.
       if FindClearVmk ds = None then Error (Msg ''clear VMK not found'')
       else Error (Msg ''unlock with clear key is not implemented''))"

definition decryptVmkWithUserKey :: "Datum \<Rightarrow> bytes \<Rightarrow> bytes result" where
  "decryptVmkWithUserKey vmk userKey =
     (case FindProperty vmk FveDatumTypeStretchKey of
        [] \<Rightarrow> Error (Msg ''stretch key not found'')
      | sk # _ \<Rightarrow>
      (case GetStretchKey sk of
        None \<Rightarrow> Error (Msg ''failed to read stretch key salt'')
      | Some (_, _, salt) \<Rightarrow>
          bindR (Stretch userKey salt 0) (\<lambda>stretchedKey.
            case FindProperty vmk FveDatumTypeAesCcmEncryptedKey of
              [] \<Rightarrow> Error (Msg ''encrypted key not found'')
            | ek # _ \<Rightarrow>
                bindR (Unbox ek stretchedKey) (\<lambda>decrypted.
                  case GetKey decrypted of
                    Some (keyType, _, keyData) \<Rightarrow>
                      if keyType \<noteq> FveKeyTypeVmk
                      then Error (MsgFmt ''unexpected key type'' (int (unat keyType)))
                      else Ok keyData
                  | None \<Rightarrow> Error (Msg ''decrypted datum does not contain a valid key'')))))"

text \<open>The textual form of a GUID: its bytes in the order stored, in lower-case hexadecimal.\<close>

definition hexDigit :: "nat \<Rightarrow> char" where
  "hexDigit n = ''0123456789abcdef'' ! n"

definition hexBytes :: "bytes \<Rightarrow> string" where
  "hexBytes b = concat (map (\<lambda>x. [hexDigit (unat x div 16), hexDigit (unat x mod 16)]) b)"

definition guidString :: "bytes \<Rightarrow> string" where
  "guidString g =
     (let g = overlay g (replicate 16 0) in
      hexBytes (slice g 0 4) @ ''-'' @ hexBytes (slice g 4 2) @ ''-'' @ hexBytes (slice g 6 2) @ ''-'' @
      hexBytes (slice g 8 2) @ ''-'' @ hexBytes (slice g 10 6))"

text \<open>The two loops of \<open>unlockWithUserKey\<close>: by identifier, and over all candidates.\<close>

primrec unlockByIdentifier :: "BDE \<Rightarrow> Datum list \<Rightarrow> bytes \<Rightarrow> string \<Rightarrow> BDE \<times> unit result" where
  "unlockByIdentifier b [] userKey identifier =
     (b, Error (Msg ''no matching VMK found for the provided identifier''))"
| "unlockByIdentifier b (vmk # vmks) userKey identifier =
     (case GetVmkInfo vmk of
        None \<Rightarrow> unlockByIdentifier b vmks userKey identifier
      | Some v \<Rightarrow>
          if guidString (vmk_GuidIdentifier v) \<noteq> identifier
          then unlockByIdentifier b vmks userKey identifier
          else case decryptVmkWithUserKey vmk userKey of
                 Error e \<Rightarrow> (b, Error e)
               | Panic s \<Rightarrow> (b, Panic s)
               | Ok k \<Rightarrow> Unlock b k)"

primrec unlockByTrial :: "BDE \<Rightarrow> Datum list \<Rightarrow> bytes \<Rightarrow> goerr option \<Rightarrow> BDE \<times> unit result" where
  "unlockByTrial b [] userKey lastErr =
     (b, case lastErr of Some e \<Rightarrow> Error e | None \<Rightarrow> Error (Msg ''no compatible VMK found''))"
| "unlockByTrial b (vmk # vmks) userKey lastErr =
     (case decryptVmkWithUserKey vmk userKey of
        Error e \<Rightarrow> unlockByTrial b vmks userKey (Some e)
      | Panic s \<Rightarrow> (b, Panic s)
      | Ok k \<Rightarrow>
          (case Unlock b k of
             (b', Error e) \<Rightarrow> unlockByTrial b' vmks userKey (Some e)
           | (b', Panic s) \<Rightarrow> (b', Panic s)
           | (b', Ok _) \<Rightarrow> (b', Ok ())))"

definition unlockWithUserKey :: "BDE \<Rightarrow> Datum list \<Rightarrow> bytes \<Rightarrow> string \<Rightarrow> BDE \<times> unit result" where
  "unlockWithUserKey b vmks userKey identifier =
     (if identifier \<noteq> [] then unlockByIdentifier b vmks userKey identifier
      else unlockByTrial b vmks userKey None)"

definition UnlockWithRecoveryPassword :: "BDE \<Rightarrow> string \<Rightarrow> string \<Rightarrow> BDE \<times> unit result" where
  "UnlockWithRecoveryPassword b pw identifier =
     (case DeriveRecoveryKey pw of
        Error e \<Rightarrow> (b, Error e)
      | Panic s \<Rightarrow> (b, Panic s)
      | Ok recoveryKey \<Rightarrow>
      (case dataset b of
         Ok ds \<Rightarrow> unlockWithUserKey b (FindRecoveryVmk ds) recoveryKey identifier
       | Error e \<Rightarrow> (b, Error e)
       | Panic s \<Rightarrow> (b, Panic s)))"

definition UnlockWithPassphrase :: "BDE \<Rightarrow> string \<Rightarrow> string \<Rightarrow> BDE \<times> unit result" where
  "UnlockWithPassphrase b pw identifier =
     (case dataset b of
        Ok ds \<Rightarrow> unlockWithUserKey b (FindPassphraseVmk ds) (DeriveUserKey pw) identifier
      | Error e \<Rightarrow> (b, Error e)
      | Panic s \<Rightarrow> (b, Panic s))"

definition UnlockWithExternalKey :: "BDE \<Rightarrow> sectionReader \<Rightarrow> unit result" where
  "UnlockWithExternalKey b bekFh =
     bindR (NewDataset bekFh) (\<lambda>bekDs.
       case FindDatum bekDs FveDatumRoleStartupKey FveDatumTypeExternalInfo of
         [] \<Rightarrow> Error (Msg ''startup key not found in BEK dataset'')
       | startupKey # _ \<Rightarrow>
       (case GetExternalInfo startupKey of
         None \<Rightarrow> Error (Msg ''failed to read startup key info from BEK dataset'')
       | Some startupInfo \<Rightarrow>
           bindR (dataset b) (\<lambda>ds.
             case find (\<lambda>d. case GetVmkInfo d of
                              Some v \<Rightarrow> vmk_GuidIdentifier v = ext_GuidIdentifier startupInfo
                            | None \<Rightarrow> False) (FindExternalVmk ds) of
               None \<Rightarrow> Error (Msg ''no matching VMK found'')
             | Some _ \<Rightarrow> Error (Msg ''unlock with external key is not implemented''))))"

subsection \<open>Reserved regions\<close>

text \<open>Integer division panics on a zero divisor; \<open>sdiv\<close> truncates as Go's \<open>/\<close> does.\<close>

definition ReservedRegions :: "BDE \<Rightarrow> (int \<times> int) list result" where
  "ReservedRegions b =
     bindR (deref (bde_information b)) (\<lambda>i.
       let version = Information_Version i; ss = bde_sectorSize b; cs = bde_clusterSize b in
       if version = 1 then
         if ss = 0 then Panic ''integer divide by zero''
         else
           let informationSize = (cs + 0x3FFF) AND NOT (cs - 1);
               informationSectors = informationSize sdiv ss
           in Ok (map (\<lambda>offset. (offset sdiv ss, informationSectors)) (InformationOffsets i))
       else if 2 \<le> version then
         if ss = 0 then Panic ''integer divide by zero''
         else
           let informationSize = NOT (ss - 1) AND (ss + 0xFFFF);
               informationSectors = informationSize sdiv ss
           in Ok (map (\<lambda>offset. (offset sdiv ss, informationSectors)) (InformationOffsets i) @
                 (case bde_eowInformation b of
                    None \<Rightarrow> []
                  | Some e \<Rightarrow>
                      let eowSize = NOT (ss - 1) AND (Eow_Size e + ss - 1);
                          eowSectors = eowSize sdiv ss
                      in [(Eow_Offset e sdiv ss, eowSectors)]))
       else Ok [])"

subsection \<open>No call of the unlocking path panics\<close>

lemma aes_NewCipher_not_Panic [simp]: "aes_NewCipher key \<noteq> Panic s"
  using aes_NewCipher_cases [of key] by auto

lemma ccmDecrypt_not_Panic [simp]: "ccmDecrypt key nonce ct tag aad \<noteq> Panic s"
  by (auto simp: ccmDecrypt_def Let_def split: result.splits if_splits)

lemma Unbox_not_Panic [simp]: "Unbox d key \<noteq> Panic s"
  by (auto simp: Unbox_def bindR_def split: datumStruct.splits result.splits)

lemma Stretch_not_Panic [simp]: "Stretch pw salt rounds \<noteq> Panic s"
  by (simp add: Stretch_def)

lemma decryptVmk_not_Panic [simp]: "decryptVmkWithUserKey vmk uk \<noteq> Panic s"
  by (auto simp: decryptVmkWithUserKey_def bindR_def split: list.splits option.splits result.splits prod.splits)

lemma CheckIntegrity_new: "NewInformation r off = Ok i \<Longrightarrow> CheckIntegrity i key"
  using NewInformation_Ok [of r off i] by (simp add: CheckIntegrity_def Information_IsValid_def)

lemma sr_Seek_not_Panic [simp]: "sr_Seek s off w \<noteq> (s', Panic m)"
  by (auto simp: sr_Seek_def Let_def)

lemma readData_not_Panic [simp]: "readData h buf \<noteq> Panic m"
  using readData_loop_total [of "[]" "int (length buf - unat (mh_HeaderSize h))" "drop (unat (mh_HeaderSize h)) buf"]
  by (auto simp: readData_def Let_def)

lemma NewDataset_not_Panic [simp]: "NewDataset fh \<noteq> Panic m"
  by (auto simp: NewDataset_def Let_def bindR_def dest: sym split: prod.splits result.splits if_splits)

lemma NewInformation_not_Panic [simp]: "NewInformation r off \<noteq> Panic m"
  by (auto simp: NewInformation_def Let_def bindR_def dest: sym split: prod.splits result.splits if_splits)

lemma NewEowInformation_not_Panic [simp]: "NewEowInformation r off \<noteq> Panic m"
  by (auto simp: NewEowInformation_def Let_def dest: sym split: prod.splits result.splits if_splits option.splits)

end
