(* ===== verification/Unlocking.thy ===== *)
theory Unlocking
  imports Volume
begin

section \<open>The contract of the unlock methods (\<open>bde.go\<close>)\<close>

text \<open>
  Unlocking reads the information block only, and all it may change is the pair of key fields.
  \<open>unlock_op\<close> states what every unlock method promises; \<open>protector_unlock\<close> extends it for the two methods
  that derive a key from a password and try the protectors of one kind with it. The life of a
  volume is a step relation, and its invariant follows from the contract.
\<close>

subsection \<open>Unlocking reads the information only\<close>

text \<open>The keys an unlocking stores, as a function of the information alone.\<close>

definition unlockKeys :: "Information \<Rightarrow> bytes \<Rightarrow> (bytes \<times> u16) option" where
  "unlockKeys i key =
     (if \<not> CheckIntegrity i key then None
      else case FindFvek (info_dataset i) of
        None \<Rightarrow> None
      | Some d \<Rightarrow>
          (case Unbox d key of
             Ok u \<Rightarrow> map_option (\<lambda>(t, _, k). (k, t)) (GetKey u)
           | _ \<Rightarrow> None))"

definition storeKeys :: "(bytes \<times> u16) option \<Rightarrow> BDE \<Rightarrow> BDE" where
  "storeKeys kt b = (case kt of Some (k, t) \<Rightarrow> b\<lparr>bde_fvek := Some k, bde_fvekType := t\<rparr> | None \<Rightarrow> b)"

lemma Unlock_keys:
  assumes "bde_information b = Some i"
  shows "fst (Unlock b key) = storeKeys (unlockKeys i key) b"
    and "snd (Unlock b key) = Ok () \<longleftrightarrow> (\<exists>k t. unlockKeys i key = Some (k, t) \<and> CipherMap t \<noteq> None)"
    and "snd (Unlock b key) = snd (Unlock (b\<lparr>bde_fvek := f, bde_fvekType := ft\<rparr>) key)"
    and "snd (Unlock b key) \<noteq> Panic s"
  using assms
  by (auto simp: Unlock_def unlockKeys_def storeKeys_def Let_def
      split: option.splits result.splits prod.splits)

lemma storeKeys_fields [simp]:
  "bde_information (storeKeys kt b) = bde_information b" "bde_r (storeKeys kt b) = bde_r b"
  "bde_sectorSize (storeKeys kt b) = bde_sectorSize b" "bde_clusterSize (storeKeys kt b) = bde_clusterSize b"
  "bde_eowInformation (storeKeys kt b) = bde_eowInformation b"
  by (auto simp: storeKeys_def split: option.splits)

lemma storeKeys_fvek:
  "bde_fvek (storeKeys kt b) = Some k \<Longrightarrow> kt = Some (k, bde_fvekType (storeKeys kt b)) \<or> (kt = None \<and> bde_fvek b = Some k)"
  by (auto simp: storeKeys_def split: option.splits)

text \<open>What an unlocking operation may do to the volume: nothing, or store keys it has unboxed.\<close>

definition stores :: "Information \<Rightarrow> BDE \<Rightarrow> BDE \<Rightarrow> bool" where
  "stores i b b' \<longleftrightarrow> b' = b \<or> (\<exists>key kt. unlockKeys i key = Some kt \<and> b' = storeKeys (Some kt) b)"

lemma stores_refl [intro, simp]: "stores i b b"
  by (simp add: stores_def)

lemma storeKeys_twice [simp]: "storeKeys (Some kt) (storeKeys kt' b) = storeKeys (Some kt) b"
  by (auto simp: storeKeys_def split: prod.splits option.splits)

lemma stores_trans: "stores i b b' \<Longrightarrow> stores i b' b'' \<Longrightarrow> stores i b b''"
  by (elim stores_def [THEN iffD1, elim_format] disjE exE conjE) (auto simp: stores_def)

lemma stores_fields:
  "stores i b b' \<Longrightarrow> bde_information b' = bde_information b \<and> bde_r b' = bde_r b \<and>
     bde_sectorSize b' = bde_sectorSize b \<and> bde_clusterSize b' = bde_clusterSize b \<and>
     bde_eowInformation b' = bde_eowInformation b"
  by (auto simp: stores_def)

lemma Unlock_stores: "bde_information b = Some i \<Longrightarrow> stores i b (fst (Unlock b key))"
  by (cases "unlockKeys i key") (auto simp: Unlock_keys(1) stores_def storeKeys_def)

lemma unlockByIdentifier_stores:
  "bde_information b = Some i \<Longrightarrow> stores i b (fst (unlockByIdentifier b vmks uk ident))"
  by (induction vmks) (auto simp: Unlock_stores split: option.splits result.splits)

lemma unlockByTrial_stores:
  "bde_information b = Some i \<Longrightarrow> stores i b (fst (unlockByTrial b vmks uk le))"
proof (induction vmks arbitrary: b le)
  case (Cons vmk vmks)
  show ?case
  proof (cases "decryptVmkWithUserKey vmk uk")
    case (Ok k)
    obtain b' x where u: "Unlock b k = (b', x)" by fastforce
    with Unlock_stores [OF Cons.prems, of k] have s: "stores i b b'" by simp
    with Cons.prems have "bde_information b' = Some i" by (simp add: stores_fields)
    from stores_trans [OF s Cons.IH [OF this]] s Ok u show ?thesis
      by (cases x) auto
  qed (simp_all add: Cons)
qed simp

lemma unlockWithUserKey_stores:
  "bde_information b = Some i \<Longrightarrow> stores i b (fst (unlockWithUserKey b vmks uk ident))"
  by (simp add: unlockWithUserKey_def unlockByIdentifier_stores unlockByTrial_stores)

text \<open>Trying all candidates succeeds when one of them opens the volume, whatever the order.\<close>

definition opens :: "Information \<Rightarrow> bytes \<Rightarrow> Datum \<Rightarrow> bool" where
  "opens i uk vmk \<longleftrightarrow>
     (\<exists>key k t. decryptVmkWithUserKey vmk uk = Ok key \<and> unlockKeys i key = Some (k, t) \<and> CipherMap t \<noteq> None)"

lemma unlockByTrial_iff:
  "bde_information b = Some i \<Longrightarrow>
   snd (unlockByTrial b vmks uk le) = Ok () \<longleftrightarrow> (\<exists>vmk \<in> set vmks. opens i uk vmk)"
proof (induction vmks arbitrary: b le)
  case Nil
  then show ?case by (auto split: option.splits)
next
  case (Cons vmk vmks)
  show ?case
  proof (cases "decryptVmkWithUserKey vmk uk")
    case (Ok key)
    obtain b' x where u: "Unlock b key = (b', x)" by fastforce
    with Unlock_stores [OF Cons.prems, of key] Cons.prems have i: "bde_information b' = Some i"
      using stores_fields by fastforce
    have x: "x = Ok () \<longleftrightarrow> opens i uk vmk"
      using Unlock_keys(2) [OF Cons.prems, of key] u Ok by (auto simp: opens_def)
    have "x \<noteq> Panic s" for s using Unlock_keys(4) [OF Cons.prems, of key] u by auto
    with Cons.IH [OF i] x Ok u show ?thesis by (cases x) auto
  qed (use Cons in \<open>auto simp: opens_def\<close>)
qed

lemma Unlock_Ok:
  assumes "bde_information b = Some i" "unlockKeys i key = Some (k, t)" "CipherMap t \<noteq> None"
  shows "Unlock b key = (b\<lparr>bde_fvek := Some k, bde_fvekType := t\<rparr>, Ok ())"
proof -
  have "snd (Unlock b key) = Ok ()" using Unlock_keys(2) [OF assms(1)] assms(2,3) by auto
  moreover have "fst (Unlock b key) = b\<lparr>bde_fvek := Some k, bde_fvekType := t\<rparr>"
    using Unlock_keys(1) [OF assms(1)] assms(2) by (simp add: storeKeys_def)
  ultimately show ?thesis by (metis prod.collapse)
qed

text \<open>An identifier is compared with the GUID string of each protector.\<close>

definition matchesId :: "string \<Rightarrow> Datum \<Rightarrow> bool" where
  "matchesId ident vmk \<longleftrightarrow> (\<exists>v. GetVmkInfo vmk = Some v \<and> guidString (vmk_GuidIdentifier v) = ident)"

lemma unlockByIdentifier_none:
  "\<forall>vmk \<in> set vmks. \<not> matchesId ident vmk \<Longrightarrow>
   unlockByIdentifier b vmks uk ident = (b, Error (Msg ''no matching VMK found for the provided identifier''))"
  by (induction vmks) (auto simp: matchesId_def split: option.splits)

lemma unlockByIdentifier_first:
  "\<forall>vmk \<in> set pre. \<not> matchesId ident vmk \<Longrightarrow> matchesId ident vmk \<Longrightarrow>
   unlockByIdentifier b (pre @ vmk # post) uk ident =
     (case decryptVmkWithUserKey vmk uk of
        Error e \<Rightarrow> (b, Error e) | Panic s \<Rightarrow> (b, Panic s) | Ok k \<Rightarrow> Unlock b k)"
  by (induction pre) (auto simp: matchesId_def split: option.splits)

text \<open>How a call ends: with the keys of one of the candidates, with an error, never with a panic.\<close>

definition unlockedWith :: "Information \<Rightarrow> bytes \<Rightarrow> Datum list \<Rightarrow> BDE \<Rightarrow> BDE \<Rightarrow> bool" where
  "unlockedWith i uk vmks b b' \<longleftrightarrow>
     (\<exists>vmk \<in> set vmks. \<exists>key k t. decryptVmkWithUserKey vmk uk = Ok key \<and> unlockKeys i key = Some (k, t) \<and>
        CipherMap t \<noteq> None \<and> b' = b\<lparr>bde_fvek := Some k, bde_fvekType := t\<rparr>)"

lemma Unlock_outcome:
  assumes "bde_information b = Some i"
  shows "Unlock b key = (b', Ok ()) \<Longrightarrow>
      \<exists>k t. unlockKeys i key = Some (k, t) \<and> CipherMap t \<noteq> None \<and> b' = b\<lparr>bde_fvek := Some k, bde_fvekType := t\<rparr>"
    and "Unlock b key \<noteq> (b', Panic s)"
  using Unlock_keys(1,2,4) [OF assms, of key] by (force simp: storeKeys_def)+

lemma unlockByIdentifier_outcome:
  assumes "bde_information b = Some i"
  shows "unlockByIdentifier b vmks uk ident = (b', Ok ()) \<Longrightarrow> unlockedWith i uk vmks b b'"
    and "unlockByIdentifier b vmks uk ident \<noteq> (b', Panic s)"
  by (induction vmks)
    (use Unlock_outcome [OF assms] in \<open>fastforce simp: unlockedWith_def split: option.splits result.splits if_splits\<close>)+

lemma unlockedWith_stores: "stores i b b1 \<Longrightarrow> unlockedWith i uk vmks b1 b' \<Longrightarrow> unlockedWith i uk (vmk # vmks) b b'"
  by (force simp: unlockedWith_def stores_def storeKeys_def split: prod.splits)

lemma unlockByTrial_outcome:
  "bde_information b = Some i \<Longrightarrow>
   (unlockByTrial b vmks uk le = (b', Ok ()) \<longrightarrow> unlockedWith i uk vmks b b') \<and>
   unlockByTrial b vmks uk le \<noteq> (b', Panic s)"
proof (induction vmks arbitrary: b le)
  case Nil
  then show ?case by (auto split: option.splits)
next
  case (Cons vmk vmks)
  show ?case
  proof (cases "decryptVmkWithUserKey vmk uk")
    case (Ok key)
    obtain b1 x where u: "Unlock b key = (b1, x)" by fastforce
    have s: "stores i b b1" using Unlock_stores [OF Cons.prems, of key] u by simp
    with Cons.prems have i: "bde_information b1 = Some i" by (simp add: stores_fields)
    show ?thesis
    proof (cases x)
      case o: (Ok y)
      with u have "Unlock b key = (b1, Ok ())" by simp
      from Unlock_outcome(1) [OF Cons.prems this] Ok u o show ?thesis by (auto simp: unlockedWith_def)
    next
      case (Error e)
      with Ok u Cons.IH [OF i, of "Some e"] unlockedWith_stores [OF s] show ?thesis by auto
    qed (use Unlock_outcome(2) [OF Cons.prems] u in auto)
  next
    case (Error e)
    with Cons.IH [OF Cons.prems, of "Some e"] unlockedWith_stores [OF stores_refl] show ?thesis by auto
  qed simp
qed

lemma unlockByTrial_first:
  assumes "bde_information b = Some i" "\<forall>x \<in> set pre. \<not> opens i uk x"
    and "decryptVmkWithUserKey vmk uk = Ok key" "unlockKeys i key = Some (k, t)" "CipherMap t \<noteq> None"
  shows "unlockByTrial b (pre @ vmk # post) uk le = (b\<lparr>bde_fvek := Some k, bde_fvekType := t\<rparr>, Ok ())"
  using assms(1,2)
proof (induction pre arbitrary: b le)
  case Nil
  with Unlock_Ok [OF Nil.prems(1) assms(4,5)] assms(3) show ?case by simp
next
  case (Cons x pre)
  show ?case
  proof (cases "decryptVmkWithUserKey x uk")
    case (Ok key')
    obtain b1 y where u: "Unlock b key' = (b1, y)" by fastforce
    have s: "stores i b b1" using Unlock_stores [OF Cons.prems(1), of key'] u by simp
    have y: "y \<noteq> Ok ()"
      using Unlock_outcome(1) [OF Cons.prems(1), of key' b1] u Ok Cons.prems(2) by (auto simp: opens_def)
    have "b1\<lparr>bde_fvek := Some k, bde_fvekType := t\<rparr> = b\<lparr>bde_fvek := Some k, bde_fvekType := t\<rparr>"
      using s by (auto simp: stores_def storeKeys_def split: prod.splits)
    moreover have "bde_information b1 = Some i" using stores_fields [OF s] Cons.prems(1) by simp
    ultimately show ?thesis
      using Cons.IH [of b1] Cons.prems(2) Ok u y Unlock_outcome(2) [OF Cons.prems(1)] by (cases y) auto
  next
    case (Error e)
    with Cons show ?thesis by simp
  qed simp
qed

lemma unlockWithUserKey_outcome:
  assumes "bde_information b = Some i"
  shows "unlockWithUserKey b vmks uk ident = (b', Ok ()) \<Longrightarrow> unlockedWith i uk vmks b b'"
    and "unlockWithUserKey b vmks uk ident \<noteq> (b', Panic s)"
  using unlockByIdentifier_outcome [OF assms] unlockByTrial_outcome [OF assms]
  by (auto simp: unlockWithUserKey_def split: if_splits)

subsection \<open>Opened volumes\<close>

lemma set_okValues: "v \<in> set (okValues rs) \<longleftrightarrow> Ok v \<in> set rs"
  by (force simp: okValues_def split: result.splits)

lemma filter_head: "filter P xs = x # ys \<Longrightarrow> x \<in> set xs"
  by (metis filter_is_subset list.set_intros(1) subsetD)

text \<open>An EOW block lies at a 64-bit offset and is less than a megabyte long.\<close>

definition eowBounded :: "BDE \<Rightarrow> bool" where
  "eowBounded b \<longleftrightarrow>
     (\<forall>e. bde_eowInformation b = Some e \<longrightarrow>
        - (2 ^ 63) \<le> Eow_Offset e \<and> Eow_Offset e < 2 ^ 63 \<and> 0 \<le> Eow_Size e \<and> Eow_Size e < 2 ^ 20)"

lemma NewEowInformation_bounds:
  "NewEowInformation r off = Ok e \<Longrightarrow> Eow_Offset e = off \<and> 0 \<le> Eow_Size e \<and> Eow_Size e < 2 ^ 20"
  using eowTotalSize_bound
  by (auto simp: NewEowInformation_def Eow_Offset_def Eow_Size_def Let_def
      split: prod.splits result.splits if_splits option.splits)

lemma New_Ok:
  assumes "New r sz = Ok b"
  shows "bde_r b = r" "bde_fvek b = None" "bde_sectorSize b \<in> {512, 1024, 2048, 4096}"
    "\<exists>k. bde_clusterSize b = bde_sectorSize b * k \<and> 1 \<le> k \<and> k \<le> 2 ^ 25"
    "\<exists>i off. bde_information b = Some i \<and> NewInformation r off = Ok i"
    "eowBounded b"
proof -
  from assms obtain bsd where p: "parseBootSector r = Ok bsd"
    and n: "New r sz = Ok b" by (auto simp: New_def bindR_Ok_iff)
  note sizes = parseBootSector_Ok [OF p]
  from n p show "bde_r b = r" "bde_fvek b = None"
    by (auto simp: New_def Let_def split: list.splits)
  from n p have b: "bde_sectorSize b = bsd_sectorSize bsd" "bde_clusterSize b = bsd_clusterSize bsd"
    by (auto simp: New_def Let_def split: list.splits)
  then show "bde_sectorSize b \<in> {512, 1024, 2048, 4096}"
    "\<exists>k. bde_clusterSize b = bde_sectorSize b * k \<and> 1 \<le> k \<and> k \<le> 2 ^ 25"
    using sizes bootSectorSize_values bootClusterSize_factor by simp_all
  let ?av = "okValues (map (NewInformation r) (findInfoOffsets r (effectiveSize r sz) bsd))"
  from n p obtain i where i: "bde_information b = Some i"
    "(\<exists>is. filter Information_IsValid ?av = i # is) \<or> (\<exists>is. ?av = i # is)"
    by (auto simp: New_def Let_def split: list.splits)
  then have "i \<in> set ?av" by (auto dest: filter_head)
  then have "Ok i \<in> set (map (NewInformation r) (findInfoOffsets r (effectiveSize r sz) bsd))"
    by (auto simp: set_okValues)
  then show "\<exists>i off. bde_information b = Some i \<and> NewInformation r off = Ok i" using i(1) by (auto dest: sym)
  let ?ve = "filter Eow_IsValid (okValues (map (NewEowInformation r) (bsd_eowOffsets bsd)))"
  have e: "bde_eowInformation b = (case ?ve of e # _ \<Rightarrow> Some e | [] \<Rightarrow> None)"
    using n p by (auto simp: New_def Let_def split: list.splits)
  show "eowBounded b"
    unfolding eowBounded_def
  proof (intro allI impI)
    fix x assume "bde_eowInformation b = Some x"
    with e have "x \<in> set ?ve" by (cases ?ve) auto
    then have "Ok x \<in> set (map (NewEowInformation r) (bsd_eowOffsets bsd))" by (auto simp: set_okValues)
    then obtain off where "off \<in> set (bsd_eowOffsets bsd)" "NewEowInformation r off = Ok x" by (auto dest: sym)
    with NewEowInformation_bounds [of r off x] parseBootSector_offsets64 [OF p]
    show "- (2 ^ 63) \<le> Eow_Offset x \<and> Eow_Offset x < 2 ^ 63 \<and> 0 \<le> Eow_Size x \<and> Eow_Size x < 2 ^ 20"
      by (simp add: offsets64_def)
  qed
qed

subsection \<open>The contract\<close>

definition vol_inv :: "reader \<Rightarrow> BDE \<Rightarrow> bool" where
  "vol_inv r b \<longleftrightarrow>
     bde_r b = r \<and> bde_sectorSize b \<in> {512, 1024, 2048, 4096} \<and>
     (\<exists>k. bde_clusterSize b = bde_sectorSize b * k \<and> 1 \<le> k \<and> k \<le> 2 ^ 25) \<and> eowBounded b \<and>
     (\<exists>i off. bde_information b = Some i \<and> NewInformation r off = Ok i \<and>
        (\<forall>k. bde_fvek b = Some k \<longrightarrow> (\<exists>key. unlockKeys i key = Some (k, bde_fvekType b))))"

text \<open>Every unlock method, with its arguments as one value.\<close>

locale unlock_op =
  fixes unlock :: "BDE \<Rightarrow> 'a \<Rightarrow> BDE \<times> unit result"
  assumes stores: "bde_information b = Some i \<Longrightarrow> stores i b (fst (unlock b a))"
    and no_panic: "bde_information b = Some i \<Longrightarrow> unlock b a \<noteq> (b', Panic s)"
    and success: "bde_information b = Some i \<Longrightarrow> unlock b a = (b', Ok ()) \<Longrightarrow>
      \<exists>key k t. unlockKeys i key = Some (k, t) \<and> CipherMap t \<noteq> None \<and> b' = b\<lparr>bde_fvek := Some k, bde_fvekType := t\<rparr>"
begin

lemma outcome:
  assumes "bde_information b = Some i"
  shows "snd (unlock b a) = Ok () \<or> (\<exists>e. snd (unlock b a) = Error e)"
  using no_panic [OF assms] by (cases "unlock b a"; cases "snd (unlock b a)") auto

lemma keeps_inv:
  assumes "vol_inv r b" "unlock b a = (b', x)"
  shows "vol_inv r b'"
proof -
  obtain i off where i: "bde_information b = Some i" "NewInformation r off = Ok i"
    and k: "\<forall>k. bde_fvek b = Some k \<longrightarrow> (\<exists>key. unlockKeys i key = Some (k, bde_fvekType b))"
    using assms(1) by (auto simp: vol_inv_def)
  have s: "stores i b b'" using stores [OF i(1), of a] assms(2) by simp
  then have "\<forall>k. bde_fvek b' = Some k \<longrightarrow> (\<exists>key. unlockKeys i key = Some (k, bde_fvekType b'))"
    using k by (auto simp: stores_def storeKeys_def split: prod.splits)
  with stores_fields [OF s] i assms(1) show ?thesis by (auto simp: vol_inv_def eowBounded_def)
qed

lemma unlocked:
  assumes "bde_information b = Some i" "unlock b a = (b', Ok ())"
  shows "Unlocked b'" "CipherMap (bde_fvekType b') \<noteq> None"
  using success [OF assms] by (auto simp: Unlocked_def)

end

text \<open>The methods that turn a password into a key and try it on the protectors of one kind.\<close>

locale protector_unlock =
  fixes derive :: "string \<Rightarrow> bytes result"
    and candidates :: "Dataset \<Rightarrow> Datum list"
    and unlock :: "BDE \<Rightarrow> string \<times> string \<Rightarrow> BDE \<times> unit result"
  assumes derive: "derive pw \<noteq> Panic s"
    and refused: "derive pw = Error e \<Longrightarrow> unlock b (pw, ident) = (b, Error e)"
    and tries: "bde_information b = Some i \<Longrightarrow> derive pw = Ok uk \<Longrightarrow>
      unlock b (pw, ident) = unlockWithUserKey b (candidates (info_dataset i)) uk ident"

context protector_unlock
begin

lemma call_cases:
  assumes "bde_information b = Some i"
  obtains e where "derive pw = Error e" "unlock b (pw, ident) = (b, Error e)"
  | uk where "derive pw = Ok uk" "unlock b (pw, ident) = unlockWithUserKey b (candidates (info_dataset i)) uk ident"
  using derive [of pw] refused [of pw] tries [OF assms, of pw] by (cases "derive pw") auto

lemma success_from:
  assumes "bde_information b = Some i" "unlock b (pw, ident) = (b', Ok ())"
  shows "\<exists>uk. derive pw = Ok uk \<and> unlockedWith i uk (candidates (info_dataset i)) b b'"
  using assms(2) unlockWithUserKey_outcome(1) [OF assms(1)] by (cases rule: call_cases [OF assms(1), of pw ident]) auto

lemma opens_iff:
  assumes "bde_information b = Some i"
  shows "snd (unlock b (pw, [])) = Ok () \<longleftrightarrow>
    (\<exists>uk. derive pw = Ok uk \<and> (\<exists>vmk \<in> set (candidates (info_dataset i)). opens i uk vmk))"
  using unlockByTrial_iff [OF assms]
  by (cases rule: call_cases [OF assms, of pw "[]"]) (auto simp: unlockWithUserKey_def)

end

sublocale protector_unlock \<subseteq> unlock_op unlock
proof
  fix b b' :: BDE and i and a :: "string \<times> string" and s
  assume i: "bde_information b = Some i"
  obtain pw ident where a: "a = (pw, ident)" by (cases a)
  show "stores i b (fst (unlock b a))" "unlock b a \<noteq> (b', Panic s)"
    using unlockWithUserKey_stores [OF i] unlockWithUserKey_outcome(2) [OF i]
    by (cases rule: call_cases [OF i, of pw ident]; simp add: a)+
  assume "unlock b a = (b', Ok ())"
  then obtain uk where "unlockedWith i uk (candidates (info_dataset i)) b b'"
    using success_from [OF i] a by blast
  then show "\<exists>key k t. unlockKeys i key = Some (k, t) \<and> CipherMap t \<noteq> None \<and>
      b' = b\<lparr>bde_fvek := Some k, bde_fvekType := t\<rparr>"
    unfolding unlockedWith_def by blast
qed

lemma DeriveRecoveryKey_not_Panic: "DeriveRecoveryKey pw \<noteq> Panic s"
  by (simp add: DeriveRecoveryKey_def split: option.split)

interpretation ul: unlock_op Unlock
  by unfold_locales (use Unlock_stores Unlock_outcome in blast)+

interpretation rp: protector_unlock DeriveRecoveryKey FindRecoveryVmk
    "\<lambda>b a. UnlockWithRecoveryPassword b (fst a) (snd a)"
  by unfold_locales (auto simp: UnlockWithRecoveryPassword_def DeriveRecoveryKey_not_Panic)

interpretation pp: protector_unlock "\<lambda>pw. Ok (DeriveUserKey pw)" FindPassphraseVmk
    "\<lambda>b a. UnlockWithPassphrase b (fst a) (snd a)"
  by unfold_locales (auto simp: UnlockWithPassphrase_def)

text \<open>The two methods that are not implemented.\<close>

lemma UnlockWithClearKey_fails: "bde_information b = Some i \<Longrightarrow> \<exists>e. UnlockWithClearKey b = Error e"
  by (simp add: UnlockWithClearKey_def)

lemma UnlockWithExternalKey_fails: "bde_information b = Some i \<Longrightarrow> \<exists>e. UnlockWithExternalKey b fh = Error e"
  by (cases "NewDataset fh") (simp_all add: UnlockWithExternalKey_def split: list.split option.split)

subsection \<open>The life of a volume\<close>

text \<open>The life of a volume: opened, then any sequence of unlocking calls, whatever they return.\<close>

inductive vol_step :: "BDE \<Rightarrow> BDE \<Rightarrow> bool" where
  unlock: "Unlock b key = (b', x) \<Longrightarrow> vol_step b b'"
| recovery: "UnlockWithRecoveryPassword b pw ident = (b', x) \<Longrightarrow> vol_step b b'"
| passphrase: "UnlockWithPassphrase b pw ident = (b', x) \<Longrightarrow> vol_step b b'"

inductive vol_reach :: "reader \<Rightarrow> BDE \<Rightarrow> bool" for r where
  opened: "New r sz = Ok b \<Longrightarrow> vol_reach r b"
| step: "vol_reach r b \<Longrightarrow> vol_step b b' \<Longrightarrow> vol_reach r b'"

lemma vol_inv_reach: "vol_reach r b \<Longrightarrow> vol_inv r b"
proof (induction rule: vol_reach.induct)
  case (opened sz b)
  from New_Ok [OF this] show ?case unfolding vol_inv_def by auto
next
  case (step b b')
  from step(2) show ?case
  proof cases
    case (unlock key x)
    then show ?thesis by (rule ul.keeps_inv [OF step(3)])
  next
    case (recovery pw ident x)
    then show ?thesis using rp.keeps_inv [OF step(3), of "(pw, ident)"] by simp
  next
    case (passphrase pw ident x)
    then show ?thesis using pp.keeps_inv [OF step(3), of "(pw, ident)"] by simp
  qed
qed

end
