(* ===== verification/ProtectedVolume.thy ===== *)
theory ProtectedVolume
  imports Unlocking
begin

section \<open>Protected volumes\<close>

text \<open>
  What a volume looks like whose keys are sealed under a password: the specification side of the
  unlock methods (\<open>protects\<close>, \<open>sealedUnder\<close>), a small image for the witnesses, and the theorems of
  unlocking.
\<close>

subsection \<open>A protected volume\<close>

text \<open>A key container: eight bytes of header, the encryption method, the key.\<close>

definition keyContainer :: "bytes \<Rightarrow> u16 \<Rightarrow> bytes \<Rightarrow> bytes" where
  "keyContainer hdr t key = hdr @ put32 (ucast t) @ key"

lemma low_half_ucast: "ucast ((ucast t :: u32) AND 0xffff) = (t :: u16)"
proof -
  have m: "(0xffff :: u32) = mask 16" by (simp add: mask_eq_exp_minus_1)
  show ?thesis unfolding m by (rule bit_word_eqI) (auto simp: bit_simps)
qed

lemma GetKey_container:
  "length hdr = 8 \<Longrightarrow> GetKey (containerKey (keyContainer hdr t key)) = Some (t, 0, key)"
  by (simp add: GetKey_def containerKey_def keyContainer_def Type_def dataBytes_def Let_def le_skip
      low_half_ucast)

lemma length_keyContainer [simp]: "length (keyContainer hdr t key) = length hdr + 4 + length key"
  by (simp add: keyContainer_def)

lemma Unbox_container:
  assumes "aes_NewCipher key = Ok k" "length hdr = 8" "length secret < 2 ^ 16"
  shows "Unbox (sealDatum k n role (keyContainer hdr t secret)) key = Ok (containerKey (keyContainer hdr t secret))"
  using assms by (intro Unbox_sealDatum) auto

text \<open>A protector holds the volume master key when its first encrypted key is that key, sealed under the
  stretched user key; the volume key is sealed when the FVEK datum is it, under the master key.\<close>

definition protects :: "bytes \<Rightarrow> bytes \<Rightarrow> Datum \<Rightarrow> bool" where
  "protects uk vmkKey vmk \<longleftrightarrow>
     (\<exists>sk sks kt kf salt stretched k n role hdr eks.
        FindProperty vmk FveDatumTypeStretchKey = sk # sks \<and> GetStretchKey sk = Some (kt, kf, salt) \<and>
        Stretch uk salt 0 = Ok stretched \<and> aes_NewCipher stretched = Ok k \<and> length hdr = 8 \<and>
        FindProperty vmk FveDatumTypeAesCcmEncryptedKey =
          sealDatum k n role (keyContainer hdr FveKeyTypeVmk vmkKey) # eks)"

definition sealedUnder :: "Information \<Rightarrow> bytes \<Rightarrow> bytes \<Rightarrow> u16 \<Rightarrow> bool" where
  "sealedUnder i vmkKey fvek t \<longleftrightarrow>
     (\<exists>k n role hdr. FindFvek (info_dataset i) = Some (sealDatum k n role (keyContainer hdr t fvek)) \<and>
        aes_NewCipher vmkKey = Ok k \<and> length hdr = 8)"

lemma protects_decrypt:
  assumes "protects uk vmkKey vmk" "length vmkKey < 2 ^ 16"
  shows "decryptVmkWithUserKey vmk uk = Ok vmkKey"
proof -
  obtain sk sks kt kf salt stretched k n role hdr eks where
    f: "FindProperty vmk FveDatumTypeStretchKey = sk # sks" "GetStretchKey sk = Some (kt, kf, salt)"
    "Stretch uk salt 0 = Ok stretched" "aes_NewCipher stretched = Ok k" "length hdr = 8"
    "FindProperty vmk FveDatumTypeAesCcmEncryptedKey = sealDatum k n role (keyContainer hdr FveKeyTypeVmk vmkKey) # eks"
    using assms(1) unfolding protects_def by blast
  from f Unbox_container [OF f(4,5) assms(2)] GetKey_container [OF f(5)] show ?thesis
    by (simp add: decryptVmkWithUserKey_def)
qed

lemma unlockKeys_sealed:
  assumes "CheckIntegrity i key" "aes_NewCipher key = Ok k"
    and "FindFvek (info_dataset i) = Some (sealDatum k n role (keyContainer hdr t fvek))"
    and "length hdr = 8" "length fvek < 2 ^ 16"
  shows "unlockKeys i key = Some (fvek, t)"
  using assms Unbox_container [OF assms(2,4,5)] GetKey_container [OF assms(4)]
  by (simp add: unlockKeys_def)

lemma sealedUnder_keys:
  assumes "sealedUnder i vmkKey fvek t" "NewInformation r off = Ok i" "length fvek < 2 ^ 16"
  shows "unlockKeys i vmkKey = Some (fvek, t)" "length vmkKey < 2 ^ 16"
proof -
  obtain k n role hdr where f: "FindFvek (info_dataset i) = Some (sealDatum k n role (keyContainer hdr t fvek))"
    "aes_NewCipher vmkKey = Ok k" "length hdr = 8" using assms(1) unfolding sealedUnder_def by blast
  show "unlockKeys i vmkKey = Some (fvek, t)"
    by (rule unlockKeys_sealed [OF CheckIntegrity_new [OF assms(2)] f(2,1,3) assms(3)])
  show "length vmkKey < 2 ^ 16" using aes_NewCipher_cases [of vmkKey] f(2) by auto
qed

text \<open>Which protector a call reaches: the first with the identifier, or without one the first that opens.\<close>

definition reaches :: "Information \<Rightarrow> bytes \<Rightarrow> string \<Rightarrow> Datum list \<Rightarrow> Datum \<Rightarrow> bool" where
  "reaches i uk ident pre vmk \<longleftrightarrow>
     (if ident = [] then \<forall>x \<in> set pre. \<not> opens i uk x
      else matchesId ident vmk \<and> (\<forall>x \<in> set pre. \<not> matchesId ident x))"

context protector_unlock
begin

lemma sealed_unlocks:
  assumes "bde_information b = Some i" "NewInformation r off = Ok i" "derive pw = Ok uk"
    and "candidates (info_dataset i) = pre @ vmk # post" "reaches i uk ident pre vmk"
    and "protects uk vmkKey vmk" "sealedUnder i vmkKey fvek t" "CipherMap t \<noteq> None" "length fvek < 2 ^ 16"
  shows "unlock b (pw, ident) = (b\<lparr>bde_fvek := Some fvek, bde_fvekType := t\<rparr>, Ok ())"
proof -
  note keys = sealedUnder_keys [OF assms(7,2,9)]
  have d: "decryptVmkWithUserKey vmk uk = Ok vmkKey" by (rule protects_decrypt [OF assms(6) keys(2)])
  have u: "Unlock b vmkKey = (b\<lparr>bde_fvek := Some fvek, bde_fvekType := t\<rparr>, Ok ())"
    by (rule Unlock_Ok [OF assms(1) keys(1) assms(8)])
  show ?thesis
  proof (cases "ident = []")
    case True
    with assms(5) have "unlockByTrial b (pre @ vmk # post) uk None =
        (b\<lparr>bde_fvek := Some fvek, bde_fvekType := t\<rparr>, Ok ())"
      by (intro unlockByTrial_first [OF assms(1) _ d keys(1) assms(8)]) (simp add: reaches_def)
    with tries [OF assms(1,3)] assms(4) True show ?thesis by (simp add: unlockWithUserKey_def)
  next
    case False
    with assms(5) have "unlockByIdentifier b (pre @ vmk # post) uk ident = Unlock b vmkKey"
      by (subst unlockByIdentifier_first) (auto simp: reaches_def d)
    with tries [OF assms(1,3)] assms(4) False u show ?thesis by (simp add: unlockWithUserKey_def)
  qed
qed

end

lemma Stretch_key:
  assumes "length uk = 32" "length salt = 16"
  shows "\<exists>s k. Stretch uk salt 0 = Ok s \<and> aes_NewCipher s = Ok k \<and> aes_wf k"
proof -
  obtain s where "Stretch uk salt 0 = Ok s" "length s = 32" using assms by (simp add: Stretch_def Let_def)
  with aes_NewCipher_Ok [of s] show ?thesis by blast
qed

subsection \<open>A small protected volume, for the witnesses\<close>

lemma sealDatum_wf:
  assumes "aes_wf k" "p \<noteq> []" "36 + length p < 2 ^ 16"
  shows "wfDatum (sealDatum k n role p)" "length (encodeDatum (sealDatum k n role p)) = 36 + length p"
proof -
  obtain ct mac where e: "ccmEncrypt k (write_FveNonce n) [] p 16 = (ct, mac)" by fastforce
  then have len: "length ct = length p" "length mac = 16"
    using ccmEncrypt_lengths [OF assms(1) _ _ e] by (simp_all add: tagLenOk_def)
  have "unat (word_of_nat (36 + length ct) :: u16) = 36 + length ct"
    using assms(3) len by (simp add: unat_of_nat del: of_nat_add)
  with e len assms(2) show "wfDatum (sealDatum k n role p)"
    "length (encodeDatum (sealDatum k n role p)) = 36 + length p"
    by (auto simp: sealDatum_def wfDatum.simps encodeDatum.simps encodeStruct_def structOk_def
        complexTypes_def type_consts Let_def)
qed

lemma demo_recoveryKey: "\<exists>uk. DeriveRecoveryKey (encodeRecovery [1, 2, 3, 4, 5, 6, 7, 8]) = Ok uk \<and> length uk = 32"
proof -
  have "\<exists>vs. length vs = 8 \<and> (\<forall>v \<in> set vs. v < 65536) \<and>
      encodeRecovery [1, 2, 3, 4, 5, 6, 7, 8] = encodeRecovery vs"
    by (intro exI [of _ "[1, 2, 3, 4, 5, 6, 7, 8]"]) simp
  then have "CheckRecoveryPassword (encodeRecovery [1, 2, 3, 4, 5, 6, 7, 8]) = None"
    by (rule CheckRecovery_iff [OF encodeRecovery_no_plus, THEN iffD2])
  then show ?thesis by (simp only: DeriveRecoveryKey_def option.case) simp
qed

definition demoNonce :: FveNonce where
  "demoNonce = \<lparr>nonce_DateTime = 1, nonce_Counter = 2\<rparr>"

definition demoStretch :: Datum where
  "demoStretch = Datum \<lparr>fd_Size = 28, fd_Role = 0, fd_Type = FveDatumTypeStretchKey, fd_Flags = 1\<rparr> None 28
     (StretchStruct \<lparr>sk_KeyType = 0x1000, sk_KeyFlags = 0, sk_Salt = replicate 16 9\<rparr>) []"

definition demoVmkKey :: "aesCipher \<Rightarrow> Datum" where
  "demoVmkKey k = sealDatum k demoNonce 0 (keyContainer (replicate 8 0) FveKeyTypeVmk (replicate 32 1))"

definition demoVmkOf :: "u16 \<Rightarrow> aesCipher \<Rightarrow> Datum" where
  "demoVmkOf protector k = Datum \<lparr>fd_Size = 144, fd_Role = FveDatumRoleVolumeMasterKeyInfo,
       fd_Type = FveDatumTypeVolumeMasterKeyInfo, fd_Flags = 1\<rparr> None 144
     (VmkStruct \<lparr>vmk_GuidIdentifier = replicate 16 7, vmk_DateTime = 0, vmk_Unknown = 0,
        vmk_ProtectorType = protector\<rparr>) [demoStretch, demoVmkKey k]"

abbreviation demoVmk :: "aesCipher \<Rightarrow> Datum" where
  "demoVmk \<equiv> demoVmkOf FveKeyProtectorRecoveryPassword"

abbreviation demoPass :: "aesCipher \<Rightarrow> Datum" where
  "demoPass \<equiv> demoVmkOf FveKeyProtectorPassphrase"

definition demoFvekOf :: "u16 \<Rightarrow> aesCipher \<Rightarrow> Datum" where
  "demoFvekOf t k = sealDatum k demoNonce FveDatumRoleFullVolumeEncryptionKey
     (keyContainer (replicate 8 0) t (replicate 64 2))"

definition demoVolHeader :: FveMetadataHeader where
  "demoVolHeader = \<lparr>mh_MetadataSize = 448, mh_Version = 2, mh_HeaderSize = 48, mh_MetadataSizeCopy = 448,
     mh_VolumeIdentifier = replicate 16 3, mh_NextNonceCounter = 4, mh_EncryptionMethod = 0x8005,
     mh_CreationTime = 0\<rparr>"

text \<open>An image with a locator in its second sector and a metadata block after the scanned area.\<close>

definition demoOffset :: bytes where
  "demoOffset = [0, 8, 16, 0, 0, 0, 0, 0]"

lemma demoOffset [simp]: "length demoOffset = 8" "le64 (demoOffset @ rest) 0 = 1050624"
  by (simp_all add: demoOffset_def le64_def slice_def)

definition volImage :: "bytes \<Rightarrow> bytes" where
  "volImage blk = replicate 512 0 @ (INFORMATION_OFFSET_GUID @ demoOffset @ put64 0 @ put64 0) @
     replicate 1050072 0 @ blk"

lemma volImage_block:
  "length (volImage blk) = 1050624 + length blk" "slice (volImage blk) 1050624 (length blk) = blk"
  by (simp_all add: volImage_def slice_skip slice_all)

lemma volImage_zero:
  assumes "k + n \<le> 512 \<or> (552 \<le> k \<and> k + n \<le> 1050624)"
  shows "slice (volImage blk) k n = replicate n 0"
  using assms
proof
  assume "k + n \<le> 512"
  then show ?thesis by (simp add: volImage_def slice_def)
next
  assume k: "552 \<le> k \<and> k + n \<le> 1050624"
  let ?pre = "replicate 512 0 @ INFORMATION_OFFSET_GUID @ demoOffset @ put64 0 @ put64 0"
  have "slice (?pre @ replicate 1050072 0 @ blk) k n = slice (replicate 1050072 0 @ blk) (k - 552) n"
    using k by (subst slice_skip) simp_all
  also have "\<dots> = replicate n 0"
  proof -
    have "n \<le> 1050072 - (k - 552)" using k by linarith
    then show ?thesis by (simp add: slice_def del: diff_diff_left)
  qed
  finally show ?thesis by (simp add: volImage_def)
qed

lemma volImage_locator: "locatorAt (volImage blk) 512 512 = Some (528, False)"
proof -
  define z where "z = replicate 472 (0 :: byte)"
  let ?sec = "INFORMATION_OFFSET_GUID @ demoOffset @ put64 0 @ put64 0 @ z"
  have sec: "slice (volImage blk) 512 512 = ?sec"
    by (simp add: volImage_def slice_skip z_def) (simp add: slice_def)
  have b: "put64 0 = [0, 0, 0, 0, 0, 0, 0, 0]" by code_simp
  have "set z \<subseteq> {0}" by (auto simp: z_def)
  then have "0x92 \<notin> set ?sec" by (auto simp: b demoOffset_def INFORMATION_OFFSET_GUID_def)
  moreover have "0x92 \<in> set EOW_INFORMATION_OFFSET_GUID" by (simp add: EOW_INFORMATION_OFFSET_GUID_def)
  ultimately have "bytes_Index ?sec EOW_INFORMATION_OFFSET_GUID = None"
    by (intro bytes_Index_subset) blast
  moreover have "bytes_Index ?sec INFORMATION_OFFSET_GUID = Some 0"
    by (simp add: INFORMATION_OFFSET_GUID_def)
  ultimately show ?thesis by (simp add: locatorAt_def sec)
qed

lemma volImage_offsets: "offsetsIn (volImage blk) 528 3 = [1050624]"
proof -
  have "[0..<3] = [0, 1, 2 :: nat]" by (simp add: upt_rec)
  then show ?thesis by (simp add: offsetsIn_def volImage_def le_skip)
qed

lemma volImage_scan: "scanInfo (volImage blk) 512 0 256 = [1050624]" "scanEow (volImage blk) 512 0 256 = []"
proof -
  have none: "locatorAt (volImage blk) 512 (k * 512) = None" if "k \<noteq> 1" "k < 256" for k
  proof (rule locatorAt_zero)
    have "k * 512 + 512 \<le> 512 \<or> (552 \<le> k * 512 \<and> k * 512 + 512 \<le> 1050624)" using that by auto
    then show "set (slice (volImage blk) (k * 512) 512) \<subseteq> {0}" by (auto simp: volImage_zero)
  qed
  have z: "locatorAt (volImage blk) 512 0 = None" using none [of 0] by simp
  have rest: "scanInfo (volImage blk) 512 2 256 = []" "scanEow (volImage blk) 512 2 256 = []"
    by (rule scan_empty; rule none; simp)+
  have two: "Suc (Suc 0) = 2" "Suc 0 < (256::nat)" "0 < (256::nat)" by simp_all
  have "scanInfo (volImage blk) 512 0 256 = sectorInfo (volImage blk) 512 (0 * 512) @
      sectorInfo (volImage blk) 512 (Suc 0 * 512) @ scanInfo (volImage blk) 512 2 256"
    using scanInfo_step [OF two(3)] scanInfo_step [OF two(2)] unfolding two(1) by simp
  moreover have "scanEow (volImage blk) 512 0 256 = sectorEow (volImage blk) 512 (0 * 512) @
      sectorEow (volImage blk) 512 (Suc 0 * 512) @ scanEow (volImage blk) 512 2 256"
    using scanEow_step [OF two(3)] scanEow_step [OF two(2)] unfolding two(1) by simp
  ultimately show "scanInfo (volImage blk) 512 0 256 = [1050624]" "scanEow (volImage blk) 512 0 256 = []"
    by (simp_all add: rest sectorInfo_def sectorEow_def volImage_locator volImage_offsets z)
qed

text \<open>The volume for a given position of the first metadata block and a given type of the FVEK.\<close>

definition demoBlocks :: "u16 \<Rightarrow> aesCipher \<Rightarrow> aesCipher \<Rightarrow> Datum list" where
  "demoBlocks t k1 k2 = [demoVmk k1, demoPass k1, demoFvekOf t k2]"

definition demoInfoOf :: "u64 \<Rightarrow> u16 \<Rightarrow> aesCipher \<Rightarrow> aesCipher \<Rightarrow> Information" where
  "demoInfoOf m t k1 k2 =
     blockInfo 1050624 (demoBlockHeader\<lparr>bh_MetadataOffset1 := m\<rparr>) demoVolHeader [] (demoBlocks t k1 k2) []"

definition demoVolImageOf :: "u64 \<Rightarrow> u16 \<Rightarrow> aesCipher \<Rightarrow> aesCipher \<Rightarrow> bytes" where
  "demoVolImageOf m t k1 k2 =
     volImage (encodeInfoBlock (demoBlockHeader\<lparr>bh_MetadataOffset1 := m\<rparr>) demoVolHeader [] (demoBlocks t k1 k2) [])"

abbreviation demoInfo :: "aesCipher \<Rightarrow> aesCipher \<Rightarrow> Information" where
  "demoInfo \<equiv> demoInfoOf 0 FveKeyTypeAesXts256"

abbreviation demoVolImage :: "aesCipher \<Rightarrow> aesCipher \<Rightarrow> bytes" where
  "demoVolImage \<equiv> demoVolImageOf 0 FveKeyTypeAesXts256"

lemma demo_datums_wf:
  assumes "aes_wf k"
  shows "wfDatum (demoVmkOf p k) \<and> length (encodeDatum (demoVmkOf p k)) = 144"
    "wfDatum (demoFvekOf t k) \<and> length (encodeDatum (demoFvekOf t k)) = 112"
proof -
  have "wfDatum (demoVmkKey k) \<and> length (encodeDatum (demoVmkKey k)) = 80"
    using sealDatum_wf [OF assms] unfolding demoVmkKey_def by (simp add: keyContainer_def)
  then show "wfDatum (demoVmkOf p k) \<and> length (encodeDatum (demoVmkOf p k)) = 144"
    by (simp add: demoVmkOf_def demoStretch_def wfDatum.simps encodeDatum.simps encodeStruct_def
        structOk_def complexTypes_def type_consts)
  show "wfDatum (demoFvekOf t k) \<and> length (encodeDatum (demoFvekOf t k)) = 112"
    using sealDatum_wf [OF assms] unfolding demoFvekOf_def by (simp add: keyContainer_def)
qed

lemma New_volImage:
  assumes "wfBlock bh mh ext ds pad" "blk = encodeInfoBlock bh mh ext ds pad"
  shows "NewInformation (bytesReader (volImage blk)) 1050624 = Ok (blockInfo 1050624 bh mh ext ds pad)"
    and "\<exists>b. New (bytesReader (volImage blk)) 0 = Ok b \<and> bde_r b = bytesReader (volImage blk) \<and>
      bde_information b = Some (blockInfo 1050624 bh mh ext ds pad) \<and> bde_sectorSize b = 512 \<and>
      bde_eowInformation b = None \<and> bde_fvek b = None"
proof -
  let ?r = "bytesReader (volImage blk)"
  have blk: "length blk \<le> 65600" using assms by (simp add: encodeInfoBlock_def wfBlock_def)
  then have len: "length (volImage blk) < 2 ^ 63" "256 * 512 + 40 \<le> length (volImage blk)"
    by (simp_all add: volImage_block)
  show info: "NewInformation ?r 1050624 = Ok (blockInfo 1050624 bh mh ext ds pad)"
    using NewInformation_encoded [OF serves_bytesReader, where off = 1050624, OF _ len(1) _ _ assms(1)]
      volImage_block [of blk] unfolding assms(2) by simp
  have "slice (volImage blk) 0 512 = replicate 512 0" by (rule volImage_zero) simp
  then obtain s z where z: "z = replicate 512 0" and boot: "readFull (sectionReader_of ?r 0) 512 = (s, Ok z)"
    using readFull_section [OF serves_bytesReader, of 0 512 "volImage blk"] len by (auto simp: slice_def)
  have "tryScan ?r 512 256 = Ok ([1050624], [])"
    using tryScan_spec [OF serves_bytesReader len(1), of 512 256] len(2) by (simp add: volImage_scan)
  then have "readGuidBlocks ?r 512 cs bs = Ok ([1050624], [])" for cs bs
    by (simp add: readGuidBlocks_def orElse_def Let_def)
  with boot have "\<exists>bsd. parseBootSector ?r = Ok bsd \<and> bsd_sectorSize bsd = 512 \<and>
      bsd_informationOffsets bsd = [1050624] \<and> bsd_eowOffsets bsd = []"
    by (simp add: parseBootSector_def size_BootSector_def Let_def zeroBoot [OF z])
  with info show "\<exists>b. New ?r 0 = Ok b \<and> bde_r b = ?r \<and>
      bde_information b = Some (blockInfo 1050624 bh mh ext ds pad) \<and> bde_sectorSize b = 512 \<and>
      bde_eowInformation b = None \<and> bde_fvek b = None"
    by (auto simp: New_def findInfoOffsets_def okValues_def Information_IsValid_def blockInfo_def Let_def)
qed

lemma demo_New:
  assumes "aes_wf k1" "aes_wf k2"
  shows "NewInformation (bytesReader (demoVolImageOf m t k1 k2)) 1050624 = Ok (demoInfoOf m t k1 k2)"
    and "\<exists>b. New (bytesReader (demoVolImageOf m t k1 k2)) 0 = Ok b \<and> bde_r b = bytesReader (demoVolImageOf m t k1 k2) \<and>
      bde_information b = Some (demoInfoOf m t k1 k2) \<and> bde_sectorSize b = 512 \<and>
      bde_eowInformation b = None \<and> bde_fvek b = None"
proof -
  have wf: "wfBlock (demoBlockHeader\<lparr>bh_MetadataOffset1 := m\<rparr>) demoVolHeader [] (demoBlocks t k1 k2) []"
    using demo_datums_wf [OF assms(1)] demo_datums_wf [OF assms(2)]
    by (simp add: wfBlock_def demoBlockHeader_def demoVolHeader_def demoBlocks_def)
  from New_volImage [OF wf refl] show
    "NewInformation (bytesReader (demoVolImageOf m t k1 k2)) 1050624 = Ok (demoInfoOf m t k1 k2)"
    "\<exists>b. New (bytesReader (demoVolImageOf m t k1 k2)) 0 = Ok b \<and> bde_r b = bytesReader (demoVolImageOf m t k1 k2) \<and>
      bde_information b = Some (demoInfoOf m t k1 k2) \<and> bde_sectorSize b = 512 \<and>
      bde_eowInformation b = None \<and> bde_fvek b = None"
    by (simp_all add: demoVolImageOf_def demoInfoOf_def)
qed

lemma demo_finds:
  "FindRecoveryVmk (info_dataset (demoInfoOf m t k1 k2)) = [demoVmk k1]"
  "FindPassphraseVmk (info_dataset (demoInfoOf m t k1 k2)) = [demoPass k1]"
  "FindFvek (info_dataset (demoInfoOf m t k1 k2)) = Some (demoFvekOf t k2)"
  "FindProperty (demoVmkOf p k1) FveDatumTypeStretchKey = [demoStretch]"
  "FindProperty (demoVmkOf p k1) FveDatumTypeAesCcmEncryptedKey = [demoVmkKey k1]"
  by (simp_all add: FindRecoveryVmk_def FindPassphraseVmk_def FindVmk_def FindFvek_def FindDatum_def FindProperty_def
      demoInfoOf_def demoBlocks_def blockInfo_def demoVmkOf_def demoFvekOf_def demoStretch_def demoVmkKey_def
      sealDatum_def Role_def Type_def GetVmkInfo_def type_consts role_consts protector_consts Let_def split: prod.splits)

text \<open>The demo volume is protected as the definitions say, under whatever user key the cipher comes from.\<close>

lemma demo_protects:
  assumes "length uk = 32"
  obtains k where "aes_wf k" "protects uk (replicate 32 1) (demoVmkOf p k)"
proof -
  obtain s k where k: "Stretch uk (replicate 16 9) 0 = Ok s" "aes_NewCipher s = Ok k" "aes_wf k"
    using Stretch_key [OF assms, of "replicate 16 9"] by auto
  have "GetStretchKey demoStretch = Some (0x1000, 0, replicate 16 9)"
    by (simp add: GetStretchKey_def demoStretch_def Type_def)
  moreover have "length (replicate 8 (0 :: byte)) = 8" by simp
  ultimately have "protects uk (replicate 32 1) (demoVmkOf p k)"
    using demo_finds(4,5) [of p k] k(1,2) unfolding protects_def demoVmkKey_def by blast
  with k(3) show ?thesis by (rule that)
qed

lemma demo_sealed:
  obtains k where "aes_wf k" "\<And>m t k1. sealedUnder (demoInfoOf m t k1 k) (replicate 32 1) (replicate 64 2) t"
proof -
  obtain k where k: "aes_NewCipher (replicate 32 1) = Ok k" "aes_wf k" using aes_NewCipher_Ok [of "replicate 32 1"] by auto
  have "length (replicate 8 (0 :: byte)) = 8" by simp
  with k(1) have "sealedUnder (demoInfoOf m t k1 k) (replicate 32 1) (replicate 64 2) t" for m t k1
    using demo_finds(3) unfolding sealedUnder_def demoFvekOf_def by blast
  with k(2) show ?thesis by (rule that)
qed

text \<open>A volume just opened whose FVEK has a given type, with the key that opens it.\<close>

lemma demo_volume:
  obtains r b i where "New r 0 = Ok b" "bde_information b = Some i" "NewInformation r 1050624 = Ok i"
    "bde_fvek b = None" "\<not> Decrypted b" "sealedUnder i (replicate 32 1) (replicate 64 2) t"
proof -
  obtain k where k: "aes_wf k"
    and sealed: "\<And>m t k1. sealedUnder (demoInfoOf m t k1 k) (replicate 32 1) (replicate 64 2) t" by (rule demo_sealed) blast
  let ?r = "bytesReader (demoVolImageOf 0 t k k)"
  obtain b :: BDE where b: "New ?r 0 = Ok b" "bde_information b = Some (demoInfoOf 0 t k k)" "bde_fvek b = None"
    using demo_New(2) [OF k k] by blast
  moreover have "\<not> Decrypted b" by (simp add: Decrypted_def b demoInfoOf_def blockInfo_def demoVolHeader_def)
  ultimately show ?thesis using demo_New(1) [OF k k] sealed by (intro that)
qed

subsection \<open>Properties\<close>

text \<open>C7: The unlock methods, exactly. Without an identifier the two password methods try the protectors of
  their kind in order: they succeed exactly when the password is accepted and some protector opens
  the volume, wherever it stands and whatever the attempts before it left behind. Whenever they
  succeed, the volume holds a key and its type unboxed from the FVEK through one of these protectors,
  and nothing else has changed. The clear-key and external-key methods always return an error. No
  method panics.\<close>

theorem unlock_tries_all:
  assumes i: "bde_information b = Some i"
  shows "(snd (UnlockWithRecoveryPassword b pw []) = Ok () \<longleftrightarrow>
      (\<exists>uk. DeriveRecoveryKey pw = Ok uk \<and> (\<exists>vmk \<in> set (FindRecoveryVmk (info_dataset i)). opens i uk vmk))) \<and>
    (snd (UnlockWithPassphrase b pw []) = Ok () \<longleftrightarrow>
      (\<exists>vmk \<in> set (FindPassphraseVmk (info_dataset i)). opens i (DeriveUserKey pw) vmk)) \<and>
    (\<forall>b'. UnlockWithRecoveryPassword b pw ident = (b', Ok ()) \<longrightarrow>
      (\<exists>uk. DeriveRecoveryKey pw = Ok uk \<and> unlockedWith i uk (FindRecoveryVmk (info_dataset i)) b b')) \<and>
    (\<forall>b'. UnlockWithPassphrase b pw ident = (b', Ok ()) \<longrightarrow>
      unlockedWith i (DeriveUserKey pw) (FindPassphraseVmk (info_dataset i)) b b') \<and>
    (\<forall>s. snd (UnlockWithRecoveryPassword b pw ident) \<noteq> Panic s \<and> snd (UnlockWithPassphrase b pw ident) \<noteq> Panic s) \<and>
    (\<exists>e. UnlockWithClearKey b = Error e) \<and> (\<exists>e. UnlockWithExternalKey b fh = Error e)"
  using rp.opens_iff [OF i, of pw] pp.opens_iff [OF i, of pw] rp.success_from [OF i, of pw ident]
    pp.success_from [OF i, of pw ident] rp.outcome [OF i, of "(pw, ident)"] pp.outcome [OF i, of "(pw, ident)"]
    UnlockWithClearKey_fails [OF i] UnlockWithExternalKey_fails [OF i, of fh]
  by auto

theorem unlock_tries_all_witness:
  "\<exists>b :: BDE. bde_fvek b = None \<and> bde_information b \<noteq> None \<and> snd (UnlockWithPassphrase b ''secret'' []) = Ok ()"
proof -
  have "length (DeriveUserKey ''secret'') = 32" by (simp add: DeriveUserKey_def)
  then obtain k1 where k1: "aes_wf k1" "protects (DeriveUserKey ''secret'') (replicate 32 1) (demoPass k1)"
    by (rule demo_protects)
  obtain k2 where k2: "aes_wf k2"
    and sealed: "\<And>m t k1. sealedUnder (demoInfoOf m t k1 k2) (replicate 32 1) (replicate 64 2) t"
    by (rule demo_sealed) blast
  obtain b :: BDE where b: "bde_information b = Some (demoInfo k1 k2)" "bde_fvek b = None"
    using demo_New(2) [OF k1(1) k2] by auto
  have "CipherMap FveKeyTypeAesXts256 \<noteq> None" by (simp add: CipherMap_def)
  then have "opens (demoInfo k1 k2) (DeriveUserKey ''secret'') (demoPass k1)"
    using sealedUnder_keys [OF sealed demo_New(1) [OF k1(1) k2]] protects_decrypt [OF k1(2)]
    by (auto simp: opens_def)
  with unlock_tries_all [OF b(1), of "''secret''"] b show ?thesis by (intro exI [of _ b]) (auto simp: demo_finds)
qed

text \<open>C8: Throughout the life of a volume, opened and then unlocked any number of times by any calls,
  the invariant holds: sizes in range, an information block parsed from the source, and a stored
  FVEK is always one that some key unboxed from the FVEK datum of that block.\<close>

theorem reachable_volume_invariant:
  assumes "vol_reach r b"
  shows "bde_sectorSize b \<in> {512, 1024, 2048, 4096} \<and>
    (\<exists>k. bde_clusterSize b = bde_sectorSize b * k \<and> 1 \<le> k \<and> k \<le> 2 ^ 25) \<and>
    (\<forall>e. bde_eowInformation b = Some e \<longrightarrow> 0 \<le> Eow_Size e \<and> Eow_Size e < 2 ^ 20) \<and>
    (\<exists>i off. bde_information b = Some i \<and> NewInformation r off = Ok i \<and>
       (\<forall>k. bde_fvek b = Some k \<longrightarrow> (\<exists>key. unlockKeys i key = Some (k, bde_fvekType b))))"
  using vol_inv_reach [OF assms] by (auto simp: vol_inv_def eowBounded_def)

theorem reachable_volume_invariant_witness:
  "\<exists>r b. vol_reach r b \<and> bde_sectorSize b \<in> {512, 1024, 2048, 4096} \<and> bde_information b \<noteq> None"
proof -
  obtain k where "aes_wf k" using aes_NewCipher_Ok [of "replicate 32 1"] by auto
  then obtain b where "New (bytesReader (demoVolImage k k)) 0 = Ok b" using demo_New(2) [of k k] by auto
  then have "vol_reach (bytesReader (demoVolImage k k)) b" by (rule vol_reach.opened)
  with reachable_volume_invariant [OF this] show ?thesis by blast
qed

lemma Unlock_unsupported:
  assumes "bde_information b = Some i" "unlockKeys i key = Some (k, t)" "CipherMap t = None"
  shows "Unlock b key = (b\<lparr>bde_fvek := Some k, bde_fvekType := t\<rparr>, Error (MsgFmt ''unsupported cipher type'' (int (unat t))))"
  using assms by (auto simp: Unlock_def unlockKeys_def Let_def split: option.splits result.splits prod.splits if_splits)



text \<open>The identifier is compared with the GUID's bytes in stored order. For the GUID the sources write
  as \<open>4967D63B-2E29-4AD8-8399-F6A339E3D001\<close> the string to give is another one.\<close>

theorem guidString_stored_order:
  "guidString INFORMATION_OFFSET_GUID = ''3bd66749-292e-d84a-8399-f6a339e3d001''"
  by code_simp

end
