(* ===== verification/Opening.thy ===== *)
theory Opening
  imports ProtectedVolume
begin

section \<open>Which metadata \<open>New\<close> takes (\<open>bde.go\<close>)\<close>

text \<open>
  The composition of the locator scans with the metadata parser: the scan of the image's tail that
  \<open>New\<close> falls back to, the block it selects among the located ones, and the protector an
  identifier selects when it is unlocked.
\<close>

subsection \<open>The block that is selected\<close>

lemma okValues_simps [simp]:
  "okValues [] = []" "okValues (x # xs) = (case x of Ok v \<Rightarrow> [v] | _ \<Rightarrow> []) @ okValues xs"
  by (simp_all add: okValues_def)

lemma okValues_first:
  "okValues (map f xs) = v # vs \<Longrightarrow>
   \<exists>pre x post. xs = pre @ x # post \<and> (\<forall>y \<in> set pre. \<forall>w. f y \<noteq> Ok w) \<and> f x = Ok v"
proof (induction xs)
  case (Cons a xs)
  show ?case
  proof (cases "\<exists>w. f a = Ok w")
    case True
    with Cons.prems show ?thesis by (intro exI [of _ "[]"]) auto
  next
    case False
    then have "okValues (map f xs) = v # vs" using Cons.prems by (auto split: result.splits)
    from Cons.IH [OF this] obtain pre x post where
      "xs = pre @ x # post" "\<forall>y \<in> set pre. \<forall>w. f y \<noteq> Ok w" "f x = Ok v" by blast
    with False show ?thesis by (intro exI [of _ "a # pre"]) auto
  qed
qed simp

lemma okValues_all_valid:
  "filter Information_IsValid (okValues (map (NewInformation r) offs)) = okValues (map (NewInformation r) offs)"
  using NewInformation_Ok(5) [of r] by (intro filter_True) (auto simp: set_okValues Information_IsValid_def dest: sym)

lemma New_cases:
  assumes "parseBootSector r = Ok bsd" and offs: "offs = findInfoOffsets r (effectiveSize r sz) bsd"
  shows "okValues (map (NewInformation r) offs) = [] \<Longrightarrow> \<exists>m. New r sz = Error (InvalidHeader m)"
    and "okValues (map (NewInformation r) offs) = i # is \<Longrightarrow> \<exists>b. New r sz = Ok b \<and> bde_information b = Some i"
  using assms by (simp_all add: New_def Let_def okValues_all_valid)

subsection \<open>A section of an image is an image\<close>

lemma section_fields:
  assumes "int start + int n < 2 ^ 63" and s_def: "s = NewSectionReader r (int start) (int n)"
  shows "sr_r s = r" "sr_base s = int start" "sr_limit s = int (start + n)" "sr_Size s = int n"
proof -
  have "i64 (maxInt64 - int n) = maxInt64 - int n" using assms(1) by (intro i64_id) (simp_all add: maxInt64_def)
  moreover have "int start \<le> maxInt64 - int n" using assms(1) by (simp add: maxInt64_def)
  moreover have "i64 (int n + int start) = int (start + n)" using assms(1) i64_nat [of "start + n"] by (simp add: add.commute)
  ultimately show "sr_r s = r" "sr_base s = int start" "sr_limit s = int (start + n)" "sr_Size s = int n"
    by (simp_all add: s_def NewSectionReader_def sr_Size_def)
qed

lemma section_serves:
  assumes "serves r data" "start + n \<le> length data" "length data < 2 ^ 63"
  shows "serves (sr_reader (NewSectionReader r (int start) (int n))) (slice data start n)"
  unfolding serves_def
proof (intro allI impI)
  fix off and k :: nat
  assume k: "0 \<le> off \<and> 0 < k \<and> off + int k \<le> int (length (slice data start n))"
  let ?s = "NewSectionReader r (int start) (int n)"
  have len: "length (slice data start n) = n" using assms(2) by (simp add: length_slice)
  have "int start + int n < 2 ^ 63" using assms(2,3) by simp
  note f = section_fields [OF this refl, of r]
  have rd: "ReadAt r (off + int start) k = (take k (drop (nat (off + int start)) data), None)"
    using k len assms(2) by (intro servesD [OF assms(1)]) auto
  have "nat (off + int start) = start + nat off" using k by (simp add: nat_add_distrib)
  then have "take k (drop (nat (off + int start)) data) = take k (drop (nat off) (slice data start n))"
    using k len by (simp add: slice_def drop_take add.commute min_def) linarith
  with rd show "ReadAt (sr_reader ?s) off k = (take k (drop (nat off) (slice data start n)), None)"
    using k len by (simp add: sr_ReadAt_def Let_def f)
qed

subsection \<open>The scan of the tail\<close>

text \<open>A scan that runs over the end of its source fails, whatever it has found before.\<close>

lemma probe_loop_runs_out:
  assumes over: "\<And>off k. 0 \<le> off \<Longrightarrow> int len < off + int k \<Longrightarrow> snd (ReadAt t off k) \<noteq> None"
    and "0 < ss" "len < n * ss" "n * ss < 2 ^ 63"
  shows "i * ss \<le> len \<Longrightarrow> probe_loop t (int ss) (int n) (int i) acc \<noteq> Ok x"
proof (induction "len - i * ss" arbitrary: i acc rule: less_induct)
  case less
  have "i * ss < n * ss" using less.prems assms(3) by linarith
  then have i: "i < n" by simp
  have base: "i64 (int i * int ss) = int (i * ss)"
    using i64_nat [OF less_trans [OF \<open>i * ss < n * ss\<close> assms(4)]] by simp
  obtain d e where rd: "ReadAt t (int (i * ss)) ss = (d, e)" by fastforce
  show ?case
  proof (cases "e = None")
    case False
    then show ?thesis using i rd base
      by (subst probe_loop.simps) (auto simp: Let_def)
  next
    case True
    have in_size: "i * ss + ss \<le> len"
    proof (rule ccontr)
      assume "\<not> i * ss + ss \<le> len"
      then have "int len < int (i * ss) + int ss" by linarith
      from over [OF _ this] rd True show False by simp
    qed
    have "probe_loop t (int ss) (int n) (int (Suc i)) acc' \<noteq> Ok x" for acc'
      by (rule less.hyps) (use in_size assms(2) in auto)
    then have "probe_loop t (int ss) (int n) (int i + 1) acc' \<noteq> Ok x" for acc' by (simp add: add.commute)
    with True rd base i show ?thesis
      by (subst probe_loop.simps) (auto simp: Let_def bindR_Ok_iff split: option.splits)
  qed
qed

lemma section_over:
  assumes "int start + int n < 2 ^ 63" "0 \<le> off" "int n < off + int k"
  shows "snd (ReadAt (sr_reader (NewSectionReader r (int start) (int n))) off k) \<noteq> None"
proof -
  note f = section_fields [OF assms(1) refl, of r]
  show ?thesis using assms(2,3) by (auto simp: sr_ReadAt_def Let_def f split: prod.splits)
qed

lemma tail_small:
  assumes "0 < ss" "0 < len" "len < n * ss" "n * ss < 2 ^ 63"
  shows "tryTail r (int len) (int ss) (int n) offs = offs"
proof -
  have w: "i64 (int ss * int n) = int (n * ss)" using i64_nat [OF assms(4)] by (simp add: mult.commute)
  have "int len < int (n * ss)" using assms(3) by linarith
  moreover have "int (n * ss) < 2 ^ 63" using assms(4) of_nat_less_iff [of "n * ss" "2 ^ 63", where ?'a = int] by simp
  ultimately have neg: "i64 (int len - int (n * ss)) < 0" by (subst i64_id) (simp_all del: of_nat_mult)
  have s: "i64 (int len) = int len" using assms(3,4) i64_nat [of len] by simp
  have fits: "int 0 + int len < 2 ^ 63"
    using less_trans [OF assms(3,4)] of_nat_less_iff [of len "2 ^ 63", where ?'a = int] by simp
  let ?t = "sr_reader (NewSectionReader r (int 0) (int len))"
  have "probe_loop ?t (int ss) (int n) (int 0) acc \<noteq> Ok x" for acc x
    using probe_loop_runs_out [OF section_over [OF fits] assms(1,3,4), where i = 0] by simp
  then have "probeInformationOffsets ?t (int ss) (int n) \<noteq> Ok x" for x by (simp add: probeInformationOffsets_def)
  then show ?thesis by (auto simp: tryTail_def Let_def w neg s simp del: of_nat_mult split: result.splits)
qed

lemma tail_window:
  assumes "serves r data" "length data < 2 ^ 63" "0 < ss" "0 < n" "n * ss \<le> length data"
    and "tail = drop (length data - n * ss) data" "arraysInside tail ss n"
  shows "tryTail r (int (length data)) (int ss) (int n) [] = scanInfo tail ss 0 n"
proof -
  let ?start = "length data - n * ss"
  have w: "i64 (int ss * int n) = int (n * ss)"
    using i64_nat [of "n * ss"] assms(2,5) by (simp add: mult.commute)
  have st: "i64 (int (length data) - int (n * ss)) = int ?start"
    using assms(2,5) by (simp add: of_nat_diff del: of_nat_mult)
  have sz: "i64 (int (length data) - int ?start) = int (n * ss)"
    using assms(2,5) by (simp add: of_nat_diff del: of_nat_mult)
  have tl: "slice data ?start (n * ss) = tail" "length tail = n * ss"
    using assms(5,6) by (simp_all add: slice_def)
  have "serves (sr_reader (NewSectionReader r (int ?start) (int (n * ss)))) tail"
    using section_serves [OF assms(1) _ assms(2), of ?start "n * ss"] assms(5) tl by simp
  moreover have "length tail < 2 ^ 63" "n * ss \<le> length tail" using tl(2) assms(2,5) by linarith+
  ultimately have "probeInformationOffsets (sr_reader (NewSectionReader r (int ?start) (int (n * ss)))) (int ss) (int n) =
      Ok (scanInfo tail ss 0 n)"
    using assms(3,7) by (intro probe_inside) 
  then show ?thesis using assms(3) by (simp add: tryTail_def Let_def w st sz del: of_nat_mult)
qed

subsection \<open>Unlocking by identifier\<close>

text \<open>GUID strings tell GUIDs apart.\<close>

lemma hexDigit_inj: "a < 16 \<Longrightarrow> b < 16 \<Longrightarrow> hexDigit a = hexDigit b \<Longrightarrow> a = b"
proof -
  have "distinct ''0123456789abcdef''" by simp
  moreover assume "a < 16" "b < 16" "hexDigit a = hexDigit b"
  ultimately show "a = b" by (simp add: hexDigit_def nth_eq_iff_index_eq)
qed

lemma hexBytes_inj: "hexBytes a = hexBytes b \<Longrightarrow> a = b"
proof (induction a arbitrary: b)
  case Nil
  then show ?case by (cases b) (simp_all add: hexBytes_def)
next
  case (Cons x a)
  then obtain y c where b: "b = y # c" by (cases b) (simp_all add: hexBytes_def)
  have "unat x < 256" "unat y < 256" using unsigned_less [of x] unsigned_less [of y] by simp_all
  then have d: "unat x div 16 < 16" "unat y div 16 < 16" by linarith+
  from Cons.prems b have "hexDigit (unat x div 16) = hexDigit (unat y div 16)"
    "hexDigit (unat x mod 16) = hexDigit (unat y mod 16)" "hexBytes a = hexBytes c"
    by (simp_all add: hexBytes_def)
  with d have "unat x div 16 = unat y div 16" "unat x mod 16 = unat y mod 16" "a = c"
    using hexDigit_inj Cons.IH by simp_all
  then have "unat x = unat y" by (metis div_mult_mod_eq)
  with \<open>a = c\<close> b show ?case by (simp add: unsigned_word_eqI)
qed

lemma length_hexBytes: "length (hexBytes b) = 2 * length b"
  by (induction b) (simp_all add: hexBytes_def)

lemma slice_then_drop: "slice x k n @ drop (k + n) x = drop k x"
  using append_take_drop_id [of n "drop k x"] by (simp add: slice_def add.commute)

lemma guidString_inj:
  assumes "length g = 16" "length h = 16" "guidString g = guidString h"
  shows "g = h"
proof -
  have len: "length (slice x 0 4) = 4" "length (slice x 4 2) = 2" "length (slice x 6 2) = 2"
    "length (slice x 8 2) = 2" "length (slice x 10 6) = 6" if "length x = 16" for x :: bytes
    using that by (simp_all add: length_slice)
  have parts: "slice g 0 4 = slice h 0 4" "slice g 4 2 = slice h 4 2" "slice g 6 2 = slice h 6 2"
    "slice g 8 2 = slice h 8 2" "slice g 10 6 = slice h 10 6"
    using assms len [OF assms(1)] len [OF assms(2)]
    by (auto simp: guidString_def Let_def length_hexBytes dest!: hexBytes_inj)
  have "x = slice x 0 4 @ slice x 4 2 @ slice x 6 2 @ slice x 8 2 @ slice x 10 6" if "length x = 16" for x :: bytes
  proof -
    have "drop 16 x = []" using that by simp
    then show ?thesis
      using slice_then_drop [of x 0 4] slice_then_drop [of x 4 2] slice_then_drop [of x 6 2]
        slice_then_drop [of x 8 2] slice_then_drop [of x 10 6] by simp
  qed
  with parts assms(1,2) show ?thesis by metis
qed

lemma demo_boot:
  "\<exists>bsd. parseBootSector (bytesReader (demoVolImage k k)) = Ok bsd" if "aes_wf k"
  using demo_New(2) [OF that that] by (auto simp: New_def bindR_Ok_iff)

subsection \<open>Properties\<close>

text \<open>C18: \<open>New\<close> takes the first located offset that holds a metadata block: once the boot sector is read it
  succeeds exactly when one of the located offsets parses, the block it keeps is the one of the
  first such offset, everything that fails before it is skipped, and otherwise the error says that
  no block was found. It does not panic.\<close>

theorem new_selects_first:
  assumes "parseBootSector r = Ok bsd" and offs: "offs = findInfoOffsets r (effectiveSize r sz) bsd"
  shows "((\<exists>b. New r sz = Ok b) \<longleftrightarrow> (\<exists>off \<in> set offs. \<exists>i. NewInformation r off = Ok i)) \<and>
    ((\<exists>b. New r sz = Ok b) \<or> (\<exists>m. New r sz = Error (InvalidHeader m))) \<and>
    (\<forall>b. New r sz = Ok b \<longrightarrow>
       (\<exists>pre off post i. offs = pre @ off # post \<and> (\<forall>o' \<in> set pre. \<forall>j. NewInformation r o' \<noteq> Ok j) \<and>
          NewInformation r off = Ok i \<and> info_offset i = off \<and> bde_information b = Some i))"
proof (cases "okValues (map (NewInformation r) offs)")
  case Nil
  have "NewInformation r off \<noteq> Ok i" if "off \<in> set offs" for off i
  proof
    assume "NewInformation r off = Ok i"
    with that have "Ok i \<in> NewInformation r ` set offs" by (intro image_eqI [of _ _ off]) simp_all
    with Nil set_okValues [of i "map (NewInformation r) offs"] show False by simp
  qed
  then have "\<not> (\<exists>off \<in> set offs. \<exists>i. NewInformation r off = Ok i)" by blast
  with New_cases(1) [OF assms Nil] show ?thesis by auto
next
  case (Cons i rest)
  from okValues_first [OF Cons] obtain pre off post where
    sel: "offs = pre @ off # post" "\<forall>o' \<in> set pre. \<forall>j. NewInformation r o' \<noteq> Ok j" "NewInformation r off = Ok i"
    by blast
  obtain b where b: "New r sz = Ok b" "bde_information b = Some i" using New_cases(2) [OF assms Cons] by blast
  have "off \<in> set offs" using sel(1) by simp
  with sel(3) b(1) have "(\<exists>b. New r sz = Ok b) \<and> (\<exists>off \<in> set offs. \<exists>i. NewInformation r off = Ok i)" by blast
  moreover have "\<exists>pre off post i. offs = pre @ off # post \<and> (\<forall>o' \<in> set pre. \<forall>j. NewInformation r o' \<noteq> Ok j) \<and>
      NewInformation r off = Ok i \<and> info_offset i = off \<and> bde_information b' = Some i" if "New r sz = Ok b'" for b'
    using sel NewInformation_Ok(1) [OF sel(3)] b that by auto
  ultimately show ?thesis by blast
qed

theorem new_selects_first_witness:
  "\<exists>r bsd b. parseBootSector r = Ok bsd \<and> New r 0 = Ok b \<and>
     (\<exists>off \<in> set (findInfoOffsets r (effectiveSize r 0) bsd). \<exists>i. NewInformation r off = Ok i)"
proof -
  obtain k where k: "aes_wf k" using aes_NewCipher_Ok [of "replicate 32 1"] by auto
  obtain b where b: "New (bytesReader (demoVolImage k k)) 0 = Ok b" using demo_New(2) [OF k k] by auto
  obtain bsd where bsd: "parseBootSector (bytesReader (demoVolImage k k)) = Ok bsd" using demo_boot [OF k] by blast
  from new_selects_first [OF bsd refl, of 0] b bsd show ?thesis by blast
qed

text \<open>C23: The scan of the tail: on a volume at least as long as the window it returns what the locators of the
  last sectors say; on a shorter one, for which the code moves the start of the window to 0, the
  scan always runs over the end and is discarded, whatever locators it has found.\<close>

theorem tail_scan_window:
  assumes "0 < ss" "0 < n" "n * ss < 2 ^ 63" "0 < len" "len < 2 ^ 63"
  shows "(n * ss \<le> len \<and> serves r data \<and> length data = len \<and> arraysInside (drop (len - n * ss) data) ss n \<longrightarrow>
      tryTail r (int len) (int ss) (int n) [] = scanInfo (drop (len - n * ss) data) ss 0 n) \<and>
    (len < n * ss \<longrightarrow> tryTail r (int len) (int ss) (int n) offs = offs)"
  using tail_window [of r data ss n, OF _ _ assms(1,2) _ refl] tail_small [OF assms(1,4) _ assms(3)] assms(5)
  by blast

theorem tail_scan_window_witness:
  "tryTail (bytesReader (replicate 100 0 @ INFORMATION_OFFSET_GUID @ replicate 24 1)) 140 512 8192 [] = []"
  using tail_scan_window [of 512 8192 140 "bytesReader (replicate 100 0 @ INFORMATION_OFFSET_GUID @ replicate 24 1)" "[]"]
  by simp

text \<open>C19: An identifier selects one protector: the first whose GUID string it is, and the outcome is that
  protector's alone, errors included; without a match the volume is left as it is. The string
  determines the GUID.\<close>

theorem identifier_selects_protector:
  assumes "ident \<noteq> []"
  shows "((\<forall>vmk \<in> set vmks. \<not> matchesId ident vmk) \<longrightarrow>
      unlockWithUserKey b vmks uk ident = (b, Error (Msg ''no matching VMK found for the provided identifier''))) \<and>
    (vmks = pre @ vmk # post \<and> (\<forall>x \<in> set pre. \<not> matchesId ident x) \<and> matchesId ident vmk \<longrightarrow>
      unlockWithUserKey b vmks uk ident =
        (case decryptVmkWithUserKey vmk uk of
           Error e \<Rightarrow> (b, Error e) | Panic s \<Rightarrow> (b, Panic s) | Ok k \<Rightarrow> Unlock b k)) \<and>
    (length g = 16 \<and> length h = 16 \<and> guidString g = guidString h \<longrightarrow> g = h)"
  using assms unlockByIdentifier_none [of vmks ident b uk]
    unlockByIdentifier_first [where pre = pre and ident = ident and vmk = vmk and post = post and b = b and uk = uk]
    guidString_inj [of g h]
  by (auto simp: unlockWithUserKey_def)

theorem identifier_selects_protector_witness:
  "\<forall>b k uk. unlockWithUserKey b [demoVmk k] uk ''x'' = (b, Error (Msg ''no matching VMK found for the provided identifier''))"
proof (intro allI)
  fix b k uk
  have "guidString (replicate 16 7) \<noteq> ''x''" by code_simp
  then have "\<not> matchesId ''x'' (demoVmk k)"
    by (simp add: matchesId_def demoVmkOf_def GetVmkInfo_def Type_def)
  with identifier_selects_protector [of "''x''" "[demoVmk k]" b uk]
  show "unlockWithUserKey b [demoVmk k] uk ''x'' = (b, Error (Msg ''no matching VMK found for the provided identifier''))"
    by simp
qed

end
