(* ===== verification/Reserved.thy ===== *)
theory Reserved
  imports Prelude "HOL-Library.Multiset"
begin

section \<open>Reserved regions of the stream (\<open>bde.go\<close>)\<close>

text \<open>
  The stream keeps the sectors of the metadata as a list of half-open intervals.
  \<open>setReservedRegions\<close> sorts them by start and merges what overlaps or touches; the merge loop
  writes into the array it ranges over, and \<open>merge_loop\<close> keeps that: one array, a read index
  and the length of the merged prefix. \<open>isReservedSector\<close> and the two \<open>next\<close> functions search
  the result.

  \<open>canonical\<close> is the invariant of the list: non-empty intervals, sorted, with gaps between them.
  A canonical list is determined by the sectors it covers, so the unstable \<open>sort.Slice\<close> cannot
  be observed.
\<close>

datatype reservedRegion = Region (startSector: int) (endSector: int)

text \<open>Regions are ordered by start, then by end, so that the library's sorting applies to them.\<close>

instantiation reservedRegion :: linorder
begin

definition less_eq_reservedRegion :: "reservedRegion \<Rightarrow> reservedRegion \<Rightarrow> bool" where
  "r \<le> s \<longleftrightarrow> startSector r < startSector s \<or> startSector r = startSector s \<and> endSector r \<le> endSector s"

definition less_reservedRegion :: "reservedRegion \<Rightarrow> reservedRegion \<Rightarrow> bool" where
  "r < s \<longleftrightarrow> startSector r < startSector s \<or> startSector r = startSector s \<and> endSector r < endSector s"

instance
  by standard
    (auto simp: less_eq_reservedRegion_def less_reservedRegion_def intro: reservedRegion.expand)

end

lemma region_le_start: "r \<le> s \<Longrightarrow> startSector r \<le> startSector s"
  by (auto simp: less_eq_reservedRegion_def)

subsection \<open>The code\<close>

function merge_loop :: "nat \<Rightarrow> nat \<Rightarrow> reservedRegion list \<Rightarrow> reservedRegion list" where
  "merge_loop i m out =
     (if i < length out then
        (let rr = out ! i in
         if m = 0 then merge_loop (i + 1) 1 (out[0 := rr])
         else
           let last = out ! (m - 1) in
           if startSector rr \<le> endSector last then
             (if endSector last < endSector rr
              then merge_loop (i + 1) m (out[m - 1 := Region (startSector last) (endSector rr)])
              else merge_loop (i + 1) m out)
           else merge_loop (i + 1) (m + 1) (out[m := rr]))
      else take m out)"
  by pat_completeness auto
termination
  by (relation "measure (\<lambda>(i, m, out). length out - i)") auto

declare merge_loop.simps [simp del]

definition positiveRegions :: "(int \<times> int) list \<Rightarrow> reservedRegion list" where
  "positiveRegions regions =
     map (\<lambda>(a, n). Region a (i64 (a + n))) (filter (\<lambda>(a, n). 0 < n) regions)"

definition setReservedRegions :: "(int \<times> int) list \<Rightarrow> reservedRegion list" where
  "setReservedRegions regions =
     (if regions = [] then []
      else merge_loop 0 0 (sort_key startSector (positiveRegions regions)))"

definition isReservedSector :: "reservedRegion list \<Rightarrow> int \<Rightarrow> bool" where
  "isReservedSector reserved sector =
     (if reserved = [] then False
      else let i = sort_Search (length reserved) (\<lambda>i. sector < startSector (reserved ! i)) in
           if i = 0 then False
           else let rr = reserved ! (i - 1) in startSector rr \<le> sector \<and> sector < endSector rr)"

definition nextUnreservedOffset :: "reservedRegion list \<Rightarrow> int \<Rightarrow> int \<Rightarrow> int" where
  "nextUnreservedOffset reserved sectorSize off =
     (let sector = off sdiv sectorSize in
      if \<not> isReservedSector reserved sector then off
      else let i = sort_Search (length reserved) (\<lambda>i. sector < endSector (reserved ! i)) in
           if i < length reserved \<and> startSector (reserved ! i) \<le> sector \<and> sector < endSector (reserved ! i)
           then i64 (endSector (reserved ! i) * sectorSize)
           else i64 (i64 (sector + 1) * sectorSize))"

definition nextReservedStartOffset :: "reservedRegion list \<Rightarrow> int \<Rightarrow> int \<Rightarrow> int" where
  "nextReservedStartOffset reserved sectorSize off =
     (let sector = off sdiv sectorSize;
          i = sort_Search (length reserved) (\<lambda>i. sector < startSector (reserved ! i)) in
      if i < length reserved then i64 (startSector (reserved ! i) * sectorSize) else -1)"

subsection \<open>The merge, on lists\<close>

definition covers :: "reservedRegion list \<Rightarrow> int \<Rightarrow> bool" where
  "covers rs s \<longleftrightarrow> (\<exists>r \<in> set rs. startSector r \<le> s \<and> s < endSector r)"

lemma covers_simps [simp]:
  "\<not> covers [] s"
  "covers (r # rs) s \<longleftrightarrow> startSector r \<le> s \<and> s < endSector r \<or> covers rs s"
  by (auto simp: covers_def)

fun canonical :: "reservedRegion list \<Rightarrow> bool" where
  "canonical [] = True"
| "canonical [r] = (startSector r < endSector r)"
| "canonical (r # s # rs) =
     (startSector r < endSector r \<and> endSector r < startSector s \<and> canonical (s # rs))"

fun mergeInto :: "reservedRegion \<Rightarrow> reservedRegion list \<Rightarrow> reservedRegion list" where
  "mergeInto cur [] = [cur]"
| "mergeInto cur (r # rs) =
     (if startSector r \<le> endSector cur
      then mergeInto (Region (startSector cur) (max (endSector cur) (endSector r))) rs
      else cur # mergeInto r rs)"

definition mergeAll :: "reservedRegion list \<Rightarrow> reservedRegion list" where
  "mergeAll rs = (case rs of [] \<Rightarrow> [] | r # rs \<Rightarrow> mergeInto r rs)"

lemma merge_loop_suffix:
  "0 < m \<Longrightarrow> m \<le> i \<Longrightarrow> i \<le> length out \<Longrightarrow>
   merge_loop i m out = take (m - 1) out @ mergeInto (out ! (m - 1)) (drop i out)"
proof (induction i m out rule: merge_loop.induct)
  case (1 i m out)
  show ?case
  proof (cases "i < length out")
    case False
    then have "merge_loop i m out = take m out" by (simp add: merge_loop.simps [of i m out])
    with False "1.prems" show ?thesis using take_Suc_conv_app_nth [of "m - 1" out] by simp
  next
    case True
    let ?last = "out ! (m - 1)" and ?rr = "out ! i"
    have m: "m \<noteq> 0" "m - 1 < length out" and d: "drop i out = ?rr # drop (Suc i) out"
      using "1.prems" True by (auto simp: Cons_nth_drop_Suc)
    show ?thesis
    proof (cases "startSector ?rr \<le> endSector ?last")
      case c: True
      show ?thesis
      proof (cases "endSector ?last < endSector ?rr")
        case e: True
        with True m c have "merge_loop i m out =
            merge_loop (i + 1) m (out[m - 1 := Region (startSector ?last) (endSector ?rr)])"
          by (simp add: merge_loop.simps [of i m out] Let_def)
        with "1.IH"(2) [OF True refl m(1) refl c e] "1.prems" True c d e m show ?thesis
          by (simp add: max_def)
      next
        case e: False
        with True m c have "merge_loop i m out = merge_loop (i + 1) m out"
          by (simp add: merge_loop.simps [of i m out] Let_def)
        moreover have "Region (startSector ?last) (max (endSector ?last) (endSector ?rr)) = ?last"
          using e by (cases ?last) (simp add: max_def)
        ultimately show ?thesis
          using "1.IH"(3) [OF True refl m(1) refl c e] "1.prems" True c d by simp
      qed
    next
      case c: False
      with True m have "merge_loop i m out = merge_loop (i + 1) (m + 1) (out[m := ?rr])"
        by (simp add: merge_loop.simps [of i m out] Let_def)
      moreover have "take m out = take (m - 1) out @ [?last]"
        using m take_Suc_conv_app_nth [of "m - 1" out] by simp
      ultimately show ?thesis
        using "1.IH"(4) [OF True refl m(1) refl c] "1.prems" True c d by simp
    qed
  qed
qed

lemma merge_loop_mergeAll: "merge_loop 0 0 out = mergeAll out"
proof (cases out)
  case Nil
  then show ?thesis by (simp add: merge_loop.simps mergeAll_def)
next
  case (Cons r rs)
  then have "merge_loop 0 0 out = merge_loop 1 1 out"
    by (simp add: merge_loop.simps [of 0 0])
  with Cons show ?thesis using merge_loop_suffix [of 1 1 out] by (simp add: mergeAll_def)
qed

subsection \<open>The merged list is canonical and covers the same sectors\<close>

definition goodRegions :: "reservedRegion list \<Rightarrow> bool" where
  "goodRegions rs \<longleftrightarrow> (\<forall>r \<in> set rs. startSector r < endSector r) \<and> sorted (map startSector rs)"

lemma mergeInto_spec:
  "goodRegions (cur # rs) \<Longrightarrow>
   canonical (mergeInto cur rs) \<and> mergeInto cur rs \<noteq> [] \<and>
   startSector (hd (mergeInto cur rs)) = startSector cur \<and>
   (\<forall>s. covers (mergeInto cur rs) s \<longleftrightarrow> covers (cur # rs) s)"
proof (induction cur rs rule: mergeInto.induct)
  case (1 cur)
  then show ?case by (simp add: goodRegions_def)
next
  case (2 cur r rs)
  show ?case
  proof (cases "startSector r \<le> endSector cur")
    case True
    let ?c = "Region (startSector cur) (max (endSector cur) (endSector r))"
    have "goodRegions (?c # rs)" using "2.prems" by (auto simp: goodRegions_def)
    moreover have "covers (?c # rs) s \<longleftrightarrow> covers (cur # r # rs) s" for s
      using True "2.prems" by (auto simp: goodRegions_def)
    ultimately show ?thesis using "2.IH"(1) [OF True] True by simp
  next
    case False
    have g: "goodRegions (r # rs)" using "2.prems" by (auto simp: goodRegions_def)
    note ih = "2.IH"(2) [OF False g]
    obtain x xs where x0: "mergeInto r rs = x # xs"
      using conjunct1 [OF conjunct2 [OF ih]] by (cases "mergeInto r rs") simp_all
    from ih [unfolded x0 list.sel] have x: "mergeInto r rs = x # xs" "startSector x = startSector r"
      "canonical (x # xs)" "\<forall>s. covers (x # xs) s \<longleftrightarrow> covers (r # rs) s"
      using x0 by blast+
    have e: "mergeInto cur (r # rs) = cur # x # xs" using False x(1) by simp
    have "canonical (cur # x # xs)" using x(2,3) False "2.prems" by (simp add: goodRegions_def)
    moreover have "covers (cur # x # xs) s \<longleftrightarrow> covers (cur # r # rs) s" for s
      using x(4) [rule_format, of s] unfolding covers_simps(2) [of cur] by (rule arg_cong)
    ultimately show ?thesis unfolding e list.sel by blast
  qed
qed

lemma mergeAll_spec:
  "goodRegions rs \<Longrightarrow> canonical (mergeAll rs) \<and> (\<forall>s. covers (mergeAll rs) s \<longleftrightarrow> covers rs s)"
  using mergeInto_spec by (cases rs) (auto simp: mergeAll_def)

subsection \<open>A canonical list is determined by what it covers\<close>

lemma canonical_tail: "canonical (r # rs) \<Longrightarrow> canonical rs \<and> startSector r < endSector r"
  by (cases rs) auto

lemma canonical_above:
  "canonical (r # rs) \<Longrightarrow> covers rs s \<Longrightarrow> endSector r < s"
proof (induction rs arbitrary: r)
  case (Cons x xs)
  then have "endSector r < startSector x" "startSector x < endSector x" "canonical (x # xs)"
    using canonical_tail [of x xs] by auto
  with Cons.IH [of x] Cons.prems(2) show ?case by auto
qed simp

lemma canonical_first:
  assumes "canonical (r # rs)"
  shows "covers (r # rs) (startSector r)" "\<not> covers (r # rs) (endSector r)"
    "s < startSector r \<Longrightarrow> \<not> covers (r # rs) s"
proof -
  have pos: "startSector r < endSector r" using canonical_tail [OF assms] by simp
  then show "covers (r # rs) (startSector r)" by simp
  show "\<not> covers (r # rs) (endSector r)" using canonical_above [OF assms, of "endSector r"] by auto
  show "s < startSector r \<Longrightarrow> \<not> covers (r # rs) s" using canonical_above [OF assms, of s] pos by auto
qed

lemma canonical_unique:
  "canonical xs \<Longrightarrow> canonical ys \<Longrightarrow> (\<forall>s. covers xs s \<longleftrightarrow> covers ys s) \<Longrightarrow> xs = ys"
proof (induction xs arbitrary: ys)
  case Nil
  then show ?case using canonical_first(1) by (cases ys) auto
next
  case (Cons x xs)
  then obtain y ys' where ys: "ys = y # ys'"
    using canonical_first(1) [of x xs] by (cases ys) auto
  note cx = Cons.prems(1) and cy = Cons.prems(2) [unfolded ys] and eq = Cons.prems(3) [unfolded ys]
  have start: "startSector x = startSector y"
    using canonical_first(1,3) [OF cx] canonical_first(1,3) [OF cy] eq by (meson linorder_cases)
  have "endSector x = endSector y"
  proof (rule linorder_cases [of "endSector x" "endSector y"])
    assume "endSector x < endSector y"
    then have "covers (y # ys') (endSector x)" using start canonical_tail [OF cx] by simp
    with eq canonical_first(2) [OF cx] show ?thesis by blast
  next
    assume "endSector y < endSector x"
    then have "covers (x # xs) (endSector y)" using start canonical_tail [OF cy] by simp
    with eq canonical_first(2) [OF cy] show ?thesis by blast
  qed
  with start have "x = y" by (cases x; cases y) simp
  moreover have "covers xs s \<longleftrightarrow> covers ys' s" for s
    using eq [rule_format, of s] canonical_above [OF cx, of s] canonical_above [OF cy, of s] \<open>x = y\<close>
    by (auto simp: not_less)
  then have "xs = ys'" using canonical_tail [OF cx] canonical_tail [OF cy] by (intro Cons.IH) auto
  ultimately show ?case using ys by simp
qed

subsection \<open>Searching a canonical list\<close>

lemma canonical_nth:
  "canonical rs \<Longrightarrow> i < length rs \<Longrightarrow> startSector (rs ! i) < endSector (rs ! i)"
  "canonical rs \<Longrightarrow> i < j \<Longrightarrow> j < length rs \<Longrightarrow> endSector (rs ! i) < startSector (rs ! j)"
proof (induction rs arbitrary: i j)
  case (Cons r rs)
  {
    case 1
    with Cons.IH(1) canonical_tail [of r rs] show ?case by (cases i) auto
  next
    case 2
    show ?case
    proof (cases i)
      case 0
      have "covers rs (startSector (rs ! (j - 1)))"
        using 2 0 Cons.IH(1) [of "j - 1"] canonical_tail [of r rs] by (auto simp: covers_def intro!: bexI nth_mem)
      with canonical_above [OF 2(1) this] 2 0 show ?thesis by (cases j) auto
    next
      case (Suc k)
      with 2 Cons.IH(2) [of k "j - 1"] canonical_tail [of r rs] show ?thesis by (cases j) auto
    qed
  }
qed simp_all

lemma canonical_start_mono:
  assumes "canonical rs" "i \<le> j" "j < length rs"
  shows "startSector (rs ! i) \<le> startSector (rs ! j)" "endSector (rs ! i) \<le> endSector (rs ! j)"
proof -
  show "startSector (rs ! i) \<le> startSector (rs ! j)"
    using canonical_nth(1) [OF assms(1), of i] canonical_nth(2) [OF assms(1), of i j] assms(2,3)
    by (cases "i = j") auto
  show "endSector (rs ! i) \<le> endSector (rs ! j)"
    using canonical_nth(1) [OF assms(1), of j] canonical_nth(2) [OF assms(1), of i j] assms(2,3)
    by (cases "i = j") auto
qed

lemma canonical_strict: "canonical rs \<Longrightarrow> sorted_wrt (<) rs"
proof (induction rs rule: canonical.induct)
  case (3 r s rs)
  then have "sorted_wrt (<) (s # rs)" by simp
  moreover from 3 have "r < s" by (simp add: less_reservedRegion_def)
  ultimately show ?case by (auto intro: less_trans)
qed simp_all

lemma sorted_starts: "sorted rs \<Longrightarrow> sorted (map startSector rs)"
  by (induction rs) (auto intro: region_le_start)

lemma covers_nth: "covers rs s \<longleftrightarrow> (\<exists>i < length rs. startSector (rs ! i) \<le> s \<and> s < endSector (rs ! i))"
  unfolding covers_def by (metis in_set_conv_nth)

text \<open>The two searches of the code: the first region that starts, or ends, after a sector.\<close>

lemma search_start:
  fixes s :: int
  assumes "canonical rs"
  defines "i \<equiv> sort_Search (length rs) (\<lambda>i. s < startSector (rs ! i))"
  shows "i \<le> length rs" "k < i \<Longrightarrow> startSector (rs ! k) \<le> s" "i \<le> k \<Longrightarrow> k < length rs \<Longrightarrow> s < startSector (rs ! k)"
proof -
  have mono: "a \<le> b \<Longrightarrow> s < startSector (rs ! a) \<Longrightarrow> b < length rs \<Longrightarrow> s < startSector (rs ! b)" for a b
    using canonical_start_mono(1) [OF assms(1), of a b] by simp
  let ?f = "\<lambda>i. s < startSector (rs ! i)"
  show "i \<le> length rs"
    unfolding i_def by (rule sort_Search_spec(1) [where f = ?f]) (use mono in blast)
  show "k < i \<Longrightarrow> startSector (rs ! k) \<le> s"
    unfolding i_def not_less [symmetric] by (rule sort_Search_spec(2) [where f = ?f and n = "length rs"]) (use mono in blast)+
  show "i \<le> k \<Longrightarrow> k < length rs \<Longrightarrow> s < startSector (rs ! k)"
    unfolding i_def by (rule sort_Search_spec(3) [where f = ?f and n = "length rs"]) (use mono in blast)+
qed

lemma search_end:
  fixes s :: int
  assumes "canonical rs"
  defines "i \<equiv> sort_Search (length rs) (\<lambda>i. s < endSector (rs ! i))"
  shows "i \<le> length rs" "k < i \<Longrightarrow> endSector (rs ! k) \<le> s" "i \<le> k \<Longrightarrow> k < length rs \<Longrightarrow> s < endSector (rs ! k)"
proof -
  have mono: "a \<le> b \<Longrightarrow> s < endSector (rs ! a) \<Longrightarrow> b < length rs \<Longrightarrow> s < endSector (rs ! b)" for a b
    using canonical_start_mono(2) [OF assms(1), of a b] by simp
  let ?f = "\<lambda>i. s < endSector (rs ! i)"
  show "i \<le> length rs"
    unfolding i_def by (rule sort_Search_spec(1) [where f = ?f]) (use mono in blast)
  show "k < i \<Longrightarrow> endSector (rs ! k) \<le> s"
    unfolding i_def not_less [symmetric] by (rule sort_Search_spec(2) [where f = ?f and n = "length rs"]) (use mono in blast)+
  show "i \<le> k \<Longrightarrow> k < length rs \<Longrightarrow> s < endSector (rs ! k)"
    unfolding i_def by (rule sort_Search_spec(3) [where f = ?f and n = "length rs"]) (use mono in blast)+
qed

lemma isReserved_covers:
  assumes "canonical rs"
  shows "isReservedSector rs s \<longleftrightarrow> covers rs s"
proof -
  define i where "i = sort_Search (length rs) (\<lambda>i. s < startSector (rs ! i))"
  note sp = search_start [OF assms, where s = s, folded i_def]
  have code: "isReservedSector rs s \<longleftrightarrow> rs \<noteq> [] \<and> i \<noteq> 0 \<and> startSector (rs ! (i - 1)) \<le> s \<and> s < endSector (rs ! (i - 1))"
    by (auto simp: isReservedSector_def i_def Let_def)
  have "k = i - 1 \<and> i \<noteq> 0" if k: "k < length rs" "startSector (rs ! k) \<le> s" "s < endSector (rs ! k)" for k
  proof -
    have "k < i" using sp(3) [of k] k by (meson not_less)
    moreover have "\<not> k < i - 1"
    proof
      assume "k < i - 1"
      then have "i - 1 < length rs" "i - 1 < i" using sp(1) by linarith+
      with canonical_nth(2) [OF assms \<open>k < i - 1\<close>] sp(2) [of "i - 1"] k show False by simp
    qed
    ultimately show ?thesis by simp
  qed
  note only = this
  show ?thesis
  proof
    assume "isReservedSector rs s"
    then have c: "i \<noteq> 0" "startSector (rs ! (i - 1)) \<le> s" "s < endSector (rs ! (i - 1))"
      unfolding code by blast+
    have "i - 1 < length rs" using c(1) sp(1) by linarith
    with c(2,3) show "covers rs s" unfolding covers_nth by blast
  next
    assume "covers rs s"
    then obtain k where k: "k < length rs" "startSector (rs ! k) \<le> s" "s < endSector (rs ! k)"
      unfolding covers_nth by blast
    from only [OF k] k show "isReservedSector rs s" unfolding code by auto
  qed
qed

text \<open>The two offset searches, on canonical lists and non-negative offsets.\<close>

lemma nextUnreserved_covers:
  assumes "canonical rs" "covers rs (off sdiv ss)"
  obtains r where "r \<in> set rs" "startSector r \<le> off sdiv ss" "off sdiv ss < endSector r"
    "nextUnreservedOffset rs ss off = i64 (endSector r * ss)"
proof -
  define s where "s = off sdiv ss"
  define i where "i = sort_Search (length rs) (\<lambda>i. s < endSector (rs ! i))"
  note sp = search_end [OF assms(1), where s = s, folded i_def]
  obtain k where k: "k < length rs" "startSector (rs ! k) \<le> s" "s < endSector (rs ! k)"
    using assms(2) unfolding covers_nth s_def by blast
  have "i \<le> k" using sp(2) [of k] k(3) by (meson not_less)
  then have il: "i < length rs" using k(1) by simp
  have "i = k"
  proof (rule ccontr)
    assume "i \<noteq> k"
    with \<open>i \<le> k\<close> have "i < k" by simp
    from canonical_nth(2) [OF assms(1) this k(1)] sp(3) [of i] il k(2) show False by simp
  qed
  then have "nextUnreservedOffset rs ss off = i64 (endSector (rs ! i) * ss)"
    using k isReserved_covers [OF assms(1), of s] assms(2)
    by (simp add: nextUnreservedOffset_def Let_def s_def [symmetric] i_def [symmetric])
  with il k \<open>i = k\<close> show ?thesis by (intro that [of "rs ! i"]) (simp_all add: s_def)
qed

lemma canonical_end_uncovered: "canonical rs \<Longrightarrow> r \<in> set rs \<Longrightarrow> \<not> covers rs (endSector r)"
proof (induction rs)
  case (Cons x xs)
  note tl = canonical_tail [OF Cons.prems(1)]
  show ?case
  proof (cases "r = x")
    case True
    then show ?thesis using canonical_first(2) [OF Cons.prems(1)] by simp
  next
    case False
    then have r: "r \<in> set xs" using Cons.prems(2) by simp
    then have "\<not> covers xs (endSector r)" using Cons.IH tl by blast
    moreover have "covers xs (startSector r)"
    proof -
      obtain j where "j < length xs" "r = xs ! j" using r by (metis in_set_conv_nth)
      with canonical_nth(1) [of xs j] tl show ?thesis using r by (auto simp: covers_def intro: bexI [of _ r])
    qed
    then have "endSector x < startSector r" by (rule canonical_above [OF Cons.prems(1)])
    moreover have "startSector r < endSector r"
      using r tl canonical_nth(1) [of xs] by (metis in_set_conv_nth)
    ultimately show ?thesis by simp
  qed
qed simp

subsection \<open>The regions the code builds\<close>

definition boundedRegions :: "(int \<times> int) list \<Rightarrow> bool" where
  "boundedRegions regions \<longleftrightarrow> (\<forall>(a, n) \<in> set regions. - (2 ^ 62) \<le> a \<and> a < 2 ^ 62 \<and> n < 2 ^ 62)"

lemma positiveRegions_bounded:
  "boundedRegions regions \<Longrightarrow>
   positiveRegions regions = map (\<lambda>(a, n). Region a (a + n)) (filter (\<lambda>(a, n). 0 < n) regions)"
  by (auto simp: positiveRegions_def boundedRegions_def)

lemma covers_mset: "mset xs = mset ys \<Longrightarrow> covers xs s \<longleftrightarrow> covers ys s"
  unfolding covers_def by (metis mset_eq_setD)

lemma sorted_merge:
  assumes "boundedRegions regions" "mset out = mset (positiveRegions regions)" "sorted (map startSector out)"
  shows "canonical (merge_loop 0 0 out) \<and>
    (\<forall>s. covers (merge_loop 0 0 out) s \<longleftrightarrow> (\<exists>(a, n) \<in> set regions. a \<le> s \<and> s < a + n))"
proof -
  have "set out = set (positiveRegions regions)" using assms(2) by (rule mset_eq_setD)
  then have "goodRegions out"
    using assms(3) by (auto simp: goodRegions_def positiveRegions_bounded [OF assms(1)])
  then have "canonical (mergeAll out) \<and> (\<forall>s. covers (mergeAll out) s \<longleftrightarrow> covers out s)"
    by (rule mergeAll_spec)
  moreover have "covers out s \<longleftrightarrow> (\<exists>(a, n) \<in> set regions. a \<le> s \<and> s < a + n)" for s
    unfolding covers_mset [OF assms(2)] positiveRegions_bounded [OF assms(1)] by (fastforce simp: covers_def)
  ultimately show ?thesis by (simp add: merge_loop_mergeAll)
qed

lemma setReservedRegions_merge:
  "setReservedRegions regions = merge_loop 0 0 (sort_key startSector (positiveRegions regions))"
  by (simp add: setReservedRegions_def positiveRegions_def merge_loop.simps)

lemma setReserved_spec:
  assumes "boundedRegions regions"
  shows "canonical (setReservedRegions regions)"
    and "covers (setReservedRegions regions) s \<longleftrightarrow> (\<exists>(a, n) \<in> set regions. a \<le> s \<and> s < a + n)"
  using sorted_merge [OF assms, where out = "sort_key startSector (positiveRegions regions)"]
  by (auto simp: setReservedRegions_merge)

lemma nth_starts:
  assumes "canonical rs" "i < length rs"
  shows "covers rs (startSector (rs ! i))" "\<not> covers rs (startSector (rs ! i) - 1)"
proof -
  show "covers rs (startSector (rs ! i))"
    unfolding covers_nth using assms canonical_nth(1) [OF assms] by auto
  show "\<not> covers rs (startSector (rs ! i) - 1)"
  proof
    assume "covers rs (startSector (rs ! i) - 1)"
    then obtain k where k: "k < length rs" "startSector (rs ! k) < startSector (rs ! i)"
        "startSector (rs ! i) \<le> endSector (rs ! k)"
      unfolding covers_nth by auto
    then have "k < i"
      using canonical_start_mono(1) [OF assms(1), of i k] by (meson not_less)
    from canonical_nth(2) [OF assms(1) this assms(2)] k(3) show False by simp
  qed
qed

lemma region_starts:
  assumes "canonical rs" "covers rs t" "\<not> covers rs (t - 1)"
  obtains i where "i < length rs" "t = startSector (rs ! i)"
proof -
  obtain i where i: "i < length rs" "startSector (rs ! i) \<le> t" "t < endSector (rs ! i)"
    using assms(2) unfolding covers_nth by blast
  have "\<not> startSector (rs ! i) \<le> t - 1" using assms(3) i unfolding covers_nth by force
  with i show ?thesis by (intro that [of i]) simp_all
qed

lemma nextReservedStart_spec:
  assumes "canonical rs" and s: "s = off sdiv ss"
  defines "x \<equiv> nextReservedStartOffset rs ss off"
  shows "(x = -1 \<and> (\<forall>t > s. covers rs t \<longrightarrow> covers rs (t - 1))) \<or>
    (\<exists>t > s. x = i64 (t * ss) \<and> covers rs t \<and> \<not> covers rs (t - 1) \<and>
       (\<forall>u. s < u \<and> u < t \<and> covers rs u \<longrightarrow> covers rs (u - 1)))"
proof -
  define i where "i = sort_Search (length rs) (\<lambda>i. s < startSector (rs ! i))"
  note sp = search_start [OF assms(1), where s = s, folded i_def]
  have x: "x = (if i < length rs then i64 (startSector (rs ! i) * ss) else -1)"
    by (simp add: x_def nextReservedStartOffset_def Let_def s i_def)
  have after: "i \<le> k" if "k < length rs" "s < startSector (rs ! k)" for k
    using sp(2) [of k] that by (meson not_less)
  show ?thesis
  proof (cases "i < length rs")
    case True
    let ?t = "startSector (rs ! i)"
    have "covers rs (u - 1)" if u: "s < u" "u < ?t" "covers rs u" for u
    proof (rule ccontr)
      assume "\<not> covers rs (u - 1)"
      with region_starts [OF assms(1) u(3)] obtain k where k: "k < length rs" "u = startSector (rs ! k)" by blast
      with after u have "i \<le> k" by blast
      from canonical_start_mono(1) [OF assms(1) this k(1)] k(2) u(2) show False by simp
    qed
    with x True sp(3) [OF order_refl True] nth_starts [OF assms(1) True] show ?thesis by auto
  next
    case False
    have "covers rs (t - 1)" if t: "s < t" "covers rs t" for t
    proof (rule ccontr)
      assume "\<not> covers rs (t - 1)"
      with region_starts [OF assms(1) t(2)] obtain k where "k < length rs" "t = startSector (rs ! k)" by blast
      with after [of k] t False show False by simp
    qed
    with x False show ?thesis by simp
  qed
qed

subsection \<open>Properties\<close>

text \<open>C5: The stream reserves exactly the sectors of the regions it is given: whatever their order, overlaps
  and empty members, \<open>isReservedSector\<close> on the sorted and merged list answers yes for a sector exactly
  when one of the given regions holds it.\<close>

theorem setReservedRegions_exact:
  assumes "boundedRegions regions"
  shows "isReservedSector (setReservedRegions regions) s \<longleftrightarrow>
    (\<exists>(a, n) \<in> set regions. a \<le> s \<and> s < a + n)"
  using setReserved_spec [OF assms] by (simp add: isReserved_covers)

theorem setReservedRegions_exact_witness:
  "isReservedSector (setReservedRegions [(8, 4), (2, 3), (4, 1), (10, -1)]) 4 \<and>
   \<not> isReservedSector (setReservedRegions [(8, 4), (2, 3), (4, 1), (10, -1)]) 5"
  using setReservedRegions_exact [of "[(8, 4), (2, 3), (4, 1), (10, -1)]"] by (simp add: boundedRegions_def)

text \<open>C34: The merged list does not depend on how the unstable sort orders regions with equal starts: the
  in-place merge gives one and the same list on every arrangement of the positive regions that is
  sorted by start, the fully sorted one among them. The list is canonical (non-empty intervals with
  gaps between them) and strictly increasing.\<close>

theorem merge_sort_independent:
  assumes "boundedRegions regions" "mset out = mset (positiveRegions regions)"
    and "sorted (map startSector out)"
  shows "merge_loop 0 0 out = setReservedRegions regions \<and>
    merge_loop 0 0 (sort (positiveRegions regions)) = setReservedRegions regions \<and>
    canonical (setReservedRegions regions) \<and> sorted_wrt (<) (setReservedRegions regions)"
proof -
  have "merge_loop 0 0 rs = setReservedRegions regions"
    if "mset rs = mset (positiveRegions regions)" "sorted (map startSector rs)" for rs
    using sorted_merge [OF assms(1) that] setReserved_spec [OF assms(1)] by (auto intro: canonical_unique)
  from this [OF assms(2,3)] this [of "sort (positiveRegions regions)"] setReserved_spec [OF assms(1)]
  show ?thesis by (simp add: sorted_starts canonical_strict)
qed

theorem merge_sort_independent_witness:
  "merge_loop 0 0 [Region 2 3, Region 2 6, Region 6 7] = setReservedRegions [(6, 1), (2, 4), (2, 1)]"
  using merge_sort_independent [of "[(6, 1), (2, 4), (2, 1)]" "[Region 2 3, Region 2 6, Region 6 7]"]
  by (simp add: boundedRegions_def positiveRegions_bounded)

text \<open>Skipping metadata: from a byte offset, \<open>nextUnreservedOffset\<close> is the least offset at or after it
  whose sector is not reserved, and \<open>nextReservedStartOffset\<close> is the byte offset of the first reserved
  sector after the current one that begins a run, or -1 when no run begins later.\<close>

theorem next_offsets:
  assumes "boundedRegions regions" "0 < ss" "0 \<le> off"
    and "\<forall>(a, n) \<in> set regions. (a + n) * ss < 2 ^ 63"
  defines "reserved \<equiv> isReservedSector (setReservedRegions regions)"
  defines "u \<equiv> nextUnreservedOffset (setReservedRegions regions) ss off"
  defines "x \<equiv> nextReservedStartOffset (setReservedRegions regions) ss off"
  shows "off \<le> u \<and> \<not> reserved (u div ss) \<and> (\<forall>v. off \<le> v \<and> v < u \<longrightarrow> reserved (v div ss)) \<and>
    ((x = -1 \<and> (\<forall>t > off div ss. reserved t \<longrightarrow> reserved (t - 1))) \<or>
     (\<exists>t > off div ss. x = t * ss \<and> reserved t \<and> \<not> reserved (t - 1) \<and>
        (\<forall>w. off div ss < w \<and> w < t \<and> reserved w \<longrightarrow> reserved (w - 1))))"
proof -
  let ?rs = "setReservedRegions regions" and ?s = "off div ss"
  note can = setReserved_spec(1) [OF assms(1)]
  have res: "reserved = covers ?rs" by (simp add: reserved_def isReserved_covers [OF can] fun_eq_iff)
  have s: "off sdiv ss = ?s" "0 \<le> ?s" using assms(2,3) by (simp_all add: sdiv_nonneg pos_imp_zdiv_nonneg_iff)
  have fits: "i64 (t * ss) = t * ss" if t: "0 \<le> t" "covers ?rs (t - 1) \<or> covers ?rs t" for t
  proof -
    obtain a n where "(a, n) \<in> set regions" "t \<le> a + n"
      using t(2) by (auto simp: setReserved_spec(2) [OF assms(1)])
    moreover from this have "(a + n) * ss < 2 ^ 63" using assms(4) by blast
    ultimately have "t * ss < 2 ^ 63" using mult_right_mono [of t "a + n" ss] assms(2) by linarith
    moreover have "0 \<le> t * ss" using t(1) assms(2) by simp
    ultimately show ?thesis by simp
  qed
  have "off \<le> u \<and> \<not> reserved (u div ss) \<and> (\<forall>v. off \<le> v \<and> v < u \<longrightarrow> reserved (v div ss))"
  proof (cases "covers ?rs ?s")
    case False
    then have "u = off" by (simp add: u_def nextUnreservedOffset_def s isReserved_covers [OF can])
    moreover from False have "\<not> reserved ?s" by (simp add: res)
    ultimately show ?thesis by force
  next
    case True
    then obtain r where r: "r \<in> set ?rs" "startSector r \<le> ?s" "?s < endSector r" "u = i64 (endSector r * ss)"
      using nextUnreserved_covers [OF can, of off ss] unfolding s u_def by blast
    have "covers ?rs (endSector r - 1)" using r(1-3) by (auto simp: covers_def intro: bexI [of _ r])
    then have u: "u = endSector r * ss" using fits [of "endSector r"] r(3,4) s(2) by simp
    have "reserved (v div ss)" if v: "off \<le> v" "v < u" for v
    proof -
      have "?s \<le> v div ss" using v(1) assms(2) by (intro zdiv_mono1) auto
      moreover have "v div ss < endSector r" using v(2) by (simp add: u zdiv_less_iff [OF assms(2)])
      ultimately show ?thesis using r(1,2) by (auto simp: res covers_def intro: bexI [of _ r])
    qed
    moreover have "off \<le> u"
      using r(3) by (simp add: u zdiv_less_iff [OF assms(2)])
    ultimately show ?thesis using canonical_end_uncovered [OF can r(1)] assms(2) by (simp add: res u)
  qed
  moreover have "i64 (t * ss) = t * ss" if "?s < t" "covers ?rs t" for t using fits [of t] that s(2) by simp
  then have "(x = -1 \<and> (\<forall>t > ?s. reserved t \<longrightarrow> reserved (t - 1))) \<or>
     (\<exists>t > ?s. x = t * ss \<and> reserved t \<and> \<not> reserved (t - 1) \<and>
        (\<forall>w. ?s < w \<and> w < t \<and> reserved w \<longrightarrow> reserved (w - 1)))"
    using nextReservedStart_spec [OF can s(1) [symmetric]] unfolding res x_def by metis
  ultimately show ?thesis by blast
qed

theorem next_offsets_witness:
  "let rs = setReservedRegions [(2, 3), (7, 1)]; u = nextUnreservedOffset rs 512 1030 in
   1030 \<le> u \<and> \<not> isReservedSector rs (u div 512) \<and> (\<forall>v. 1030 \<le> v \<and> v < u \<longrightarrow> isReservedSector rs (v div 512))"
  unfolding Let_def using next_offsets [of "[(2, 3), (7, 1)]" 512 1030] by (simp add: boundedRegions_def)

end
