(* ===== verification/Stream.thy ===== *)
theory Stream
  imports Volume Reserved Xts Cbc
begin

section \<open>The decrypted stream (\<open>bde.go\<close>)\<close>

text \<open>
  \<open>BitlockerStream\<close> serves the plaintext of a volume. \<open>readAt_loop\<close> is the loop of
  \<open>readAtInternal\<close>, one sector or part of a sector per round: zeros for reserved sectors, a plain
  read on a decrypted volume, otherwise the whole sector is read (from the header's backup
  location for the first sectors), decrypted and the wanted part copied. The state of the loop is
  what has been produced (\<open>out\<close>, the first \<open>n\<close> bytes of \<open>p\<close>), the position and the number of
  bytes still to fill; the bytes of \<open>p\<close> beyond \<open>n\<close> are scratch space of the call. A run-time
  panic is \<open>Panic\<close>; an error is returned beside the bytes, as in the code. \<open>sectorSize\<close> is one
  of 512, 1024, 2048, 4096 on every volume \<open>New\<close> returns, so the sums of sector-sized values do
  not wrap; positions do, and carry \<open>i64\<close>.

  \<open>Read\<close>, \<open>ReadAt\<close> and \<open>Close\<close> are called \<open>stream_Read\<close>, \<open>stream_ReadAt\<close> and \<open>stream_Close\<close>,
  \<open>Seek\<close> is \<open>stream_Seek\<close>.
\<close>

subsection \<open>The two ciphers behind the interface\<close>

datatype sectorCipher = XtsCipher xtsCipher | CbcCipher cbcCipher

primrec decryptSector :: "sectorCipher \<Rightarrow> bytes \<Rightarrow> srcBuf \<Rightarrow> u64 \<Rightarrow> bytes result" where
  "decryptSector (XtsCipher c) = xts_decryptSector c"
| "decryptSector (CbcCipher c) = cbc_decryptSector c"

primrec decodeSector :: "sectorCipher \<Rightarrow> u64 \<Rightarrow> bytes \<Rightarrow> bytes" where
  "decodeSector (XtsCipher c) = xtsDecode c"
| "decodeSector (CbcCipher c) = cbcDecode c"

primrec encodeSector :: "sectorCipher \<Rightarrow> u64 \<Rightarrow> bytes \<Rightarrow> bytes" where
  "encodeSector (XtsCipher c) = xtsEncode c"
| "encodeSector (CbcCipher c) = cbcEncode c"

primrec cipher_wf :: "sectorCipher \<Rightarrow> bool" where
  "cipher_wf (XtsCipher c) = xts_wf c"
| "cipher_wf (CbcCipher c) = cbc_wf c"

primrec cipher_lenOk :: "sectorCipher \<Rightarrow> nat \<Rightarrow> bool" where
  "cipher_lenOk (XtsCipher c) = xts_lenOk c"
| "cipher_lenOk (CbcCipher c) = cbc_lenOk c"

interpretation sc: sector_cipher cipher_wf cipher_lenOk decryptSector decodeSector encodeSector
proof unfold_locales
  fix c :: sectorCipher and n and s :: bytes
  assume c: "cipher_wf c" "cipher_lenOk c (length s)"
  show "handsOver s dst src \<Longrightarrow> decryptSector c dst src n = Ok (decodeSector c n s)" for dst src
    using c by (cases c) (simp_all add: xts.decryptSector cbc.decryptSector)
  show "length (decodeSector c n s) = length s" "length (encodeSector c n s) = length s"
    using c by (cases c; simp add: xts.length_decode cbc.length_decode xts.length_encode cbc.length_encode)+
  show "decodeSector c n (encodeSector c n s) = s" "encodeSector c n (decodeSector c n s) = s"
    using c by (cases c; simp add: xts.decode_encode cbc.decode_encode xts.encode_decode cbc.encode_decode)+
qed

subsection \<open>The stream\<close>

record BitlockerStream =
  bs_bde :: BDE
  bs_offset :: int
  bs_cipher :: "sectorCipher option"
  bs_r :: reader
  bs_sectorSize :: int
  bs_reserved :: "reservedRegion list"
  bs_passthrough :: bool
  bs_headerOffset :: int
  bs_headerSectors :: int

text \<open>The cipher for the stored key: a constructor that fails leaves it nil.\<close>

definition streamCipher :: "BDE \<Rightarrow> int \<Rightarrow> sectorCipher option result" where
  "streamCipher b sectorSize =
     (case bde_fvek b of
        None \<Rightarrow> Ok None
      | Some key \<Rightarrow>
          if bde_fvekType b = FveKeyTypeAesXts128 \<or> bde_fvekType b = FveKeyTypeAesXts256 then
            (case newXTSCipher key of
               Ok c \<Rightarrow> Ok (Some (XtsCipher c)) | Error _ \<Rightarrow> Ok None | Panic s \<Rightarrow> Panic s)
          else if bde_fvekType b = FveKeyTypeAes128 \<or> bde_fvekType b = FveKeyTypeAes256 then
            (case newCBCCipher key sectorSize of
               Ok c \<Rightarrow> Ok (Some (CbcCipher c)) | Error _ \<Rightarrow> Ok None | Panic s \<Rightarrow> Panic s)
          else Ok None)"

definition NewBitlockerStream :: "BDE \<Rightarrow> BitlockerStream result" where
  "NewBitlockerStream b =
     bindR (ReservedRegions b) (\<lambda>regions.
       let passthrough = Decrypted b;
           (headerOffset, headerSectors) =
             (case bde_information b of
                None \<Rightarrow> (0, 0)
              | Some i \<Rightarrow> (sint (bh_VolumeHeaderOff (info_blockHeader i)),
                           uint (bh_VolumeHeaderSectors (info_blockHeader i))))
       in bindR (if passthrough then Ok None else streamCipher b (SectorSize b)) (\<lambda>cipher.
            Ok \<lparr>bs_bde = b, bs_offset = 0, bs_cipher = cipher, bs_r = bde_r b,
                bs_sectorSize = SectorSize b, bs_reserved = setReservedRegions regions,
                bs_passthrough = passthrough, bs_headerOffset = headerOffset,
                bs_headerSectors = headerSectors\<rparr>))"

definition Open :: "BDE \<Rightarrow> BitlockerStream result" where
  "Open b =
     (if \<not> Unlocked b then Error (Msg ''volume is not unlocked'')
      else bindR (NewBitlockerStream b) (\<lambda>bs.
        if \<not> bs_passthrough bs \<and> bs_cipher bs = None
        then Error (MsgFmt ''unsupported or uninitialized cipher for encryption method''
               (int (unat (bde_fvekType b))))
        else Ok bs))"

subsection \<open>Reading\<close>

text \<open>Where a sector is stored, and the number its cipher tweak is made from.\<close>

definition srcOffset :: "BitlockerStream \<Rightarrow> int \<Rightarrow> int \<Rightarrow> int" where
  "srcOffset bs sector sectorStart =
     (if 0 < bs_headerOffset bs \<and> 0 < bs_headerSectors bs \<and> 0 \<le> sector \<and> sector < bs_headerSectors bs
      then i64 (bs_headerOffset bs + i64 (sector * bs_sectorSize bs))
      else sectorStart)"

text \<open>One sector of ciphertext, decrypted in place. The pooled buffer has 4096 bytes.\<close>

definition readSector :: "BitlockerStream \<Rightarrow> sectorCipher \<Rightarrow> int \<Rightarrow> bytes result" where
  "readSector bs c src =
     (if bs_sectorSize bs < 0 \<or> 4096 < bs_sectorSize bs then Panic ''slice bounds out of range''
      else case ReadAt (bs_r bs) src (nat (bs_sectorSize bs)) of
        (d, Some e) \<Rightarrow> Error e
      | (d, None) \<Rightarrow>
          decryptSector c d SameBuf (word_of_int (src sdiv bs_sectorSize bs)))"

lemma length_xts_loop: "length (xts_loop c src dst off t) = length dst"
proof (induction c src dst off t rule: xts_loop.induct)
  case (1 c src dst off t)
  show ?case
    by (subst xts_loop.simps) (use "1.IH" [OF _ refl refl refl] in \<open>auto simp: Let_def\<close>)
qed

lemma length_cbc_loop: "length (cbc_loop c src dst off t) = length dst"
proof (induction c src dst off t rule: cbc_loop.induct)
  case (1 c src dst off t)
  show ?case
    by (subst cbc_loop.simps) (use "1.IH" [OF _ refl refl refl] in \<open>auto simp: Let_def\<close>)
qed

lemma length_decryptSector: "decryptSector c dst src n = Ok s \<Longrightarrow> length s = length dst"
  by (cases c) (auto simp: xts_decryptSector_def cbc_decryptSector_def length_xts_loop length_cbc_loop
      split: if_splits)

lemma length_readSector: "readSector bs c src = Ok s \<Longrightarrow> length s = nat (bs_sectorSize bs)"
  by (auto simp: readSector_def split: if_splits prod.splits option.splits dest!: length_decryptSector ReadAt_length)

lemma decryptSector_no_error: "decryptSector c dst src n \<noteq> Error e"
  by (cases c) (auto simp: xts_decryptSector_def cbc_decryptSector_def)

text \<open>How many bytes a round handles: up to the end of the sector or of the buffer.\<close>

definition toDo :: "int \<Rightarrow> int \<Rightarrow> nat \<Rightarrow> int" where
  "toDo sectorSize cur len =
     (let inSector = cur smod sectorSize;
          remainInSector = sectorSize - inSector
      in if remainInSector < int len then remainInSector else int len)"

text \<open>
  One round of the loop of \<open>readAtInternal\<close>: it produces bytes and continues, or returns with an
  error after what it could read, or panics.
\<close>

datatype round = Continue bytes | Return bytes goerr | Crash string

definition readAt_round :: "BitlockerStream \<Rightarrow> int \<Rightarrow> nat \<Rightarrow> round" where
  "readAt_round bs cur len =
     (if bs_sectorSize bs = 0 then Crash ''integer divide by zero''
      else
        let sector = cur sdiv bs_sectorSize bs;
            inSector = cur smod bs_sectorSize bs;
            toDo = toDo (bs_sectorSize bs) cur len
        in
        if isReservedSector (bs_reserved bs) sector then
          if toDo < 0 then Crash ''slice bounds out of range'' else Continue (replicate (nat toDo) 0)
        else if bs_passthrough bs then
          if toDo < 0 then Crash ''slice bounds out of range''
          else (case ReadAt (bs_r bs) cur (nat toDo) of
              (d, Some e) \<Rightarrow> Return d e
            | (d, None) \<Rightarrow> if int (length d) < toDo then Return d EOF else Continue d)
        else (case bs_cipher bs of
            None \<Rightarrow> Return [] (Msg ''decryption is not initialized (volume not unlocked or cipher unsupported)'')
          | Some c \<Rightarrow>
              (case readSector bs c (srcOffset bs sector (i64 (cur - inSector))) of
                 Panic s \<Rightarrow> Crash s
               | Error e \<Rightarrow> Return [] e
               | Ok s \<Rightarrow>
                   if inSector < 0 \<or> toDo < 0 then Crash ''slice bounds out of range''
                   else Continue (slice s (nat inSector) (nat toDo)))))"

lemma toDo_bounds:
  assumes "0 < len" "ss \<noteq> 0"
  shows "toDo ss cur len \<noteq> 0" "toDo ss cur len \<le> int len" "toDo ss cur len + cur smod ss \<le> ss"
proof -
  have "ss - cur smod ss \<noteq> 0" using smod_int_range [where a = cur and b = ss] assms(2) by auto
  with assms show "toDo ss cur len \<noteq> 0" "toDo ss cur len \<le> int len" "toDo ss cur len + cur smod ss \<le> ss"
    by (auto simp: toDo_def Let_def split: if_splits)
qed

lemma slice_in_sector:
  "length s = nat ss \<Longrightarrow> 0 \<le> x \<Longrightarrow> 0 \<le> t \<Longrightarrow> t + x \<le> ss \<Longrightarrow> length (slice s (nat x) (nat t)) = nat t"
  by (simp add: slice_def)

text \<open>A round that continues makes progress and stays inside the buffer.\<close>

lemma round_Continue_length:
  assumes "readAt_round bs cur len = Continue d" "0 < len"
  shows "0 < toDo (bs_sectorSize bs) cur len \<and> length d = nat (toDo (bs_sectorSize bs) cur len)"
proof -
  have ss: "bs_sectorSize bs \<noteq> 0" using assms(1) by (auto simp: readAt_round_def)
  note tb = toDo_bounds [OF assms(2) ss, of cur]
  have "\<not> toDo (bs_sectorSize bs) cur len < 0 \<and> length d = nat (toDo (bs_sectorSize bs) cur len)"
    using assms(1) ss tb(3)
    by (auto simp: readAt_round_def Let_def slice_in_sector not_less dest!: length_readSector ReadAt_length
        split: if_splits option.splits prod.splits result.splits)
  with tb(1) show ?thesis by linarith
qed

lemma round_Continue:
  "readAt_round bs cur len = Continue d \<Longrightarrow> 0 < len \<Longrightarrow> d \<noteq> [] \<and> length d \<le> len"
  using round_Continue_length [of bs cur len d] toDo_bounds(2) [of len "bs_sectorSize bs" cur]
  by (cases "bs_sectorSize bs = 0") (auto simp: readAt_round_def)

lemma round_Return: "readAt_round bs cur len = Return d e \<Longrightarrow> length d \<le> len"
  by (cases "toDo (bs_sectorSize bs) cur len \<le> int len")
    (auto simp: readAt_round_def Let_def dest!: ReadAt_at_most
      split: if_splits option.splits prod.splits result.splits, auto simp: toDo_def Let_def split: if_splits)

function readAt_loop :: "BitlockerStream \<Rightarrow> bytes \<Rightarrow> int \<Rightarrow> nat \<Rightarrow> (bytes \<times> int \<times> goerr option) result" where
  "readAt_loop bs out cur len =
     (if len = 0 then Ok (out, cur, None)
      else case readAt_round bs cur len of
          Continue d \<Rightarrow> readAt_loop bs (out @ d) (i64 (cur + int (length d))) (len - length d)
        | Return d e \<Rightarrow> Ok (out @ d, if d = [] then cur else i64 (cur + int (length d)), Some e)
        | Crash s \<Rightarrow> Panic s)"
  by pat_completeness auto
termination
  by (relation "measure (\<lambda>(bs, out, cur, len). len)") (auto dest: round_Continue)

declare readAt_loop.simps [simp del]

lemma readAt_loop_0 [simp]: "readAt_loop bs out cur 0 = Ok (out, cur, None)"
  by (simp add: readAt_loop.simps)

lemma readAt_loop_Continue:
  "0 < len \<Longrightarrow> readAt_round bs cur len = Continue d \<Longrightarrow>
   readAt_loop bs out cur len = readAt_loop bs (out @ d) (i64 (cur + int (length d))) (len - length d)"
  by (subst readAt_loop.simps) simp

lemma readAt_loop_Return:
  "0 < len \<Longrightarrow> readAt_round bs cur len = Return d e \<Longrightarrow>
   readAt_loop bs out cur len = Ok (out @ d, if d = [] then cur else i64 (cur + int (length d)), Some e)"
  by (subst readAt_loop.simps) simp

lemma readAt_loop_Crash:
  "0 < len \<Longrightarrow> readAt_round bs cur len = Crash w \<Longrightarrow> readAt_loop bs out cur len = Panic w"
  by (subst readAt_loop.simps) simp

lemmas readAt_loop_cases = readAt_loop_Continue readAt_loop_Return readAt_loop_Crash

definition readAtInternal :: "BitlockerStream \<Rightarrow> nat \<Rightarrow> int \<Rightarrow> (bytes \<times> int \<times> goerr option) result" where
  "readAtInternal bs n off = readAt_loop bs [] off n"

text \<open>Bytes that were read are returned without the end-of-file error that stopped the read.\<close>

definition dropEOF :: "bytes \<Rightarrow> goerr option \<Rightarrow> goerr option" where
  "dropEOF out err =
     (case err of
        Some e \<Rightarrow> if out \<noteq> [] \<and> errors_Is e EOF then None else Some e
      | None \<Rightarrow> None)"

definition stream_Read :: "BitlockerStream \<Rightarrow> nat \<Rightarrow> BitlockerStream \<times> (bytes \<times> goerr option) result" where
  "stream_Read bs n =
     (case readAtInternal bs n (bs_offset bs) of
        Ok (out, next, err) \<Rightarrow>
          (if out \<noteq> [] then bs\<lparr>bs_offset := next\<rparr> else bs, Ok (out, dropEOF out err))
      | Error e \<Rightarrow> (bs, Error e)
      | Panic s \<Rightarrow> (bs, Panic s))"

definition stream_ReadAt :: "BitlockerStream \<Rightarrow> nat \<Rightarrow> int \<Rightarrow> (bytes \<times> goerr option) result" where
  "stream_ReadAt bs n off =
     bindR (readAtInternal bs n off) (\<lambda>(out, next, err). Ok (out, dropEOF out err))"

definition stream_Seek :: "BitlockerStream \<Rightarrow> int \<Rightarrow> int \<Rightarrow> BitlockerStream \<times> int result" where
  "stream_Seek bs offset whence =
     (if whence = 2 then (bs, Error (Msg ''SeekEnd is not supported on ReaderAt-only sources''))
      else if whence \<noteq> 0 \<and> whence \<noteq> 1 then (bs, Error (Msg ''invalid whence''))
      else
        let newOffset = (if whence = 0 then offset else i64 (bs_offset bs + offset)) in
        if newOffset < 0 then (bs, Error (Msg ''negative offset''))
        else (bs\<lparr>bs_offset := newOffset\<rparr>, Ok newOffset))"

definition stream_Close :: "BitlockerStream \<Rightarrow> BitlockerStream \<times> unit result" where
  "stream_Close bs = (bs\<lparr>bs_cipher := None\<rparr>, Ok ())"

definition IsReservedSector :: "BitlockerStream \<Rightarrow> int \<Rightarrow> bool" where
  "IsReservedSector bs sector = isReservedSector (bs_reserved bs) sector"

subsection \<open>What every call accounts for\<close>

lemma i64_i64_add: "i64 (i64 x + y) = i64 (x + y)"
proof -
  have "(i64 x + y + 2 ^ 63) mod 2 ^ 64 = ((x + 2 ^ 63) mod 2 ^ 64 + y) mod 2 ^ 64" by (simp add: i64_def)
  also have "\<dots> = (x + y + 2 ^ 63) mod 2 ^ 64" by (simp add: mod_simps ac_simps)
  finally show ?thesis by (simp add: i64_def)
qed

text \<open>
  Whatever the source does, a call that returns has produced a prefix of the buffer, its position
  moved by what it produced, and no error means that the buffer is full.
\<close>

lemma readAt_loop_accounts:
  "readAt_loop bs out cur len = Ok (out', cur', err) \<Longrightarrow>
   \<exists>d. out' = out @ d \<and> length d \<le> len \<and> (err = None \<longrightarrow> length d = len) \<and>
     cur' = (if d = [] then cur else i64 (cur + int (length d)))"
proof (induction bs out cur len rule: readAt_loop.induct)
  case (1 bs out cur len)
  show ?case
  proof (cases "len = 0")
    case True
    with "1.prems" show ?thesis by auto
  next
    case False
    then have pos: "0 < len" by simp
    show ?thesis
    proof (cases "readAt_round bs cur len")
      case (Continue x)
      have "readAt_loop bs (out @ x) (i64 (cur + int (length x))) (len - length x) = Ok (out', cur', err)"
        using "1.prems" unfolding readAt_loop_Continue [OF pos Continue] .
      from "1.IH" [OF False Continue this] obtain d where
        "out' = (out @ x) @ d" "length d \<le> len - length x" "err = None \<longrightarrow> length d = len - length x"
        "cur' = (if d = [] then i64 (cur + int (length x)) else i64 (i64 (cur + int (length x)) + int (length d)))"
        by blast
      note d = this
      have x: "x \<noteq> []" "length x \<le> len" using round_Continue [OF Continue] False by auto
      have "cur' = i64 (cur + int (length (x @ d)))"
        using d(4) i64_i64_add [of "cur + int (length x)" "int (length d)"] by (cases "d = []") (simp_all add: add.assoc)
      moreover have "length (x @ d) \<le> len" "err = None \<longrightarrow> length (x @ d) = len"
        using d(2,3) x(2) by simp_all
      ultimately show ?thesis using d(1) x(1) by (intro exI [of _ "x @ d"]) simp
    next
      case (Return d e)
      then have "out' = out @ d" "cur' = (if d = [] then cur else i64 (cur + int (length d)))" "err = Some e"
        using "1.prems" unfolding readAt_loop_Return [OF pos Return] by auto
      with round_Return [OF Return] show ?thesis by (intro exI [of _ d]) simp
    next
      case (Crash w)
      with "1.prems" show ?thesis using readAt_loop_Crash [OF pos Crash] by simp
    qed
  qed
qed

end
