(* ===== verification/StreamView.thy ===== *)
theory StreamView
  imports Stream
begin

section \<open>What the stream serves\<close>

text \<open>
  The abstract side of the stream: \<open>viewByte\<close> is the plaintext as an array of bytes, given by the
  image and the stream's parameters sector by sector (\<open>viewSector\<close>), and \<open>readable\<close> says that the
  bytes a sector is made from lie inside the image. The refinement lemma \<open>readAtInternal_view\<close>
  relates the code's loop over parts of sectors to this array; the rest of the theory derives what
  \<open>Read\<close>, \<open>ReadAt\<close>, \<open>Seek\<close> and \<open>Close\<close> do from it, and the stream's life as a step relation.
\<close>

subsection \<open>Streams that \<open>Open\<close> returns\<close>

definition sectorSizes :: "int set" where
  "sectorSizes = {512, 1024, 2048, 4096}"

definition stream_wf :: "BitlockerStream \<Rightarrow> bool" where
  "stream_wf bs \<longleftrightarrow> bs_sectorSize bs \<in> sectorSizes \<and>
     (\<forall>c. bs_cipher bs = Some c \<longrightarrow> cipher_wf c \<and> cipher_lenOk c (nat (bs_sectorSize bs)))"

lemma sectorSizes_facts:
  "ss \<in> sectorSizes \<Longrightarrow> 512 \<le> ss \<and> ss \<le> 4096 \<and> 16 dvd ss \<and> 16 dvd nat ss \<and> 65536 mod ss = 0"
  by (auto simp: sectorSizes_def)

lemma stream_wfD:
  "stream_wf bs \<Longrightarrow> 512 \<le> bs_sectorSize bs \<and> bs_sectorSize bs \<le> 4096"
  by (simp add: stream_wf_def sectorSizes_facts)

lemma newXTSCipher_not_Panic [simp]: "newXTSCipher k \<noteq> Panic s"
  by (auto simp: newXTSCipher_def Let_def split: result.splits if_splits)

lemma newCBCCipher_not_Panic [simp]: "newCBCCipher k n \<noteq> Panic s"
  by (auto simp: newCBCCipher_def split: result.splits if_splits)

lemma streamCipher_not_fail [simp]: "streamCipher b ss \<noteq> Panic s" "streamCipher b ss \<noteq> Error e"
  by (auto simp: streamCipher_def split: option.splits result.splits if_splits)

lemma streamCipher_wf:
  assumes "streamCipher b ss = Ok (Some c)" "ss \<in> sectorSizes"
  shows "cipher_wf c \<and> cipher_lenOk c (nat ss)"
  using assms sectorSizes_facts [OF assms(2)]
  by (auto simp: streamCipher_def xts_lenOk_def cbc_lenOk_def split: option.splits result.splits if_splits
      dest: newXTSCipher_wf newCBCCipher_wf)

text \<open>Which keys give a cipher: two methods with 32 or 64 key bytes, two with 16 or 32.\<close>

definition supportedKey :: "bytes \<Rightarrow> u16 \<Rightarrow> bool" where
  "supportedKey k t \<longleftrightarrow>
     t \<in> {FveKeyTypeAesXts128, FveKeyTypeAesXts256} \<and> length k \<in> {32, 64} \<or>
     t \<in> {FveKeyTypeAes128, FveKeyTypeAes256} \<and> length k \<in> {16, 32}"

lemma streamCipher_iff:
  assumes "ss \<in> sectorSizes"
  shows "(\<exists>c. streamCipher b ss = Ok (Some c)) \<longleftrightarrow>
    (\<exists>k. bde_fvek b = Some k \<and> supportedKey k (bde_fvekType b))"
proof (cases "bde_fvek b")
  case None
  then show ?thesis by (simp add: streamCipher_def)
next
  case (Some k)
  have x: "(\<exists>c. newXTSCipher k = Ok c) \<longleftrightarrow> length k \<in> {32, 64}"
    and c: "(\<exists>c. newCBCCipher k ss = Ok c) \<longleftrightarrow> length k \<in> {16, 32}"
    using newXTSCipher_iff [of k] newCBCCipher_iff [of k ss] sectorSizes_facts [OF assms] by auto
  show ?thesis
  proof (cases "bde_fvekType b \<in> {FveKeyTypeAesXts128, FveKeyTypeAesXts256}")
    case True
    then have "bde_fvekType b \<notin> {FveKeyTypeAes128, FveKeyTypeAes256}" by (auto simp: keyType_consts)
    with True Some x show ?thesis
      by (auto simp: streamCipher_def supportedKey_def split: result.splits)
  next
    case False
    with Some c show ?thesis
      by (auto simp: streamCipher_def supportedKey_def split: result.splits)
  qed
qed

lemma Open_Ok:
  assumes "Open b = Ok bs"
  obtains regions cipher ho hs where "ReservedRegions b = Ok regions"
    "if Decrypted b then cipher = None else streamCipher b (bde_sectorSize b) = Ok cipher \<and> cipher \<noteq> None"
    "\<And>i. bde_information b = Some i \<Longrightarrow> ho = sint (bh_VolumeHeaderOff (info_blockHeader i)) \<and>
       hs = uint (bh_VolumeHeaderSectors (info_blockHeader i))"
    "bs = \<lparr>bs_bde = b, bs_offset = 0, bs_cipher = cipher, bs_r = bde_r b, bs_sectorSize = bde_sectorSize b,
       bs_reserved = setReservedRegions regions, bs_passthrough = Decrypted b, bs_headerOffset = ho,
       bs_headerSectors = hs\<rparr>"
proof -
  obtain ho hs where h: "(case bde_information b of None \<Rightarrow> (0, 0)
      | Some i \<Rightarrow> (sint (bh_VolumeHeaderOff (info_blockHeader i)),
          uint (bh_VolumeHeaderSectors (info_blockHeader i)))) = (ho, hs)" by fastforce
  from assms [unfolded Open_def NewBitlockerStream_def Let_def h] obtain regions where
    r: "ReservedRegions b = Ok regions"
    by (auto simp: bindR_Ok_iff split: if_splits)
  from assms [unfolded Open_def NewBitlockerStream_def Let_def h] r obtain cipher where
    "(if Decrypted b then Ok None else streamCipher b (SectorSize b)) = Ok cipher"
    "\<not> (\<not> Decrypted b \<and> cipher = None)"
    "bs = \<lparr>bs_bde = b, bs_offset = 0, bs_cipher = cipher, bs_r = bde_r b, bs_sectorSize = bde_sectorSize b,
       bs_reserved = setReservedRegions regions, bs_passthrough = Decrypted b, bs_headerOffset = ho,
       bs_headerSectors = hs\<rparr>"
    by (auto simp: bindR_Ok_iff SectorSize_def split: if_splits)
  with r h show ?thesis by (intro that [of regions cipher ho hs]) (auto simp: SectorSize_def split: if_splits)
qed

lemma Open_fields:
  assumes "Open b = Ok bs"
  shows "bs_r bs = bde_r b" "bs_sectorSize bs = bde_sectorSize b" "bs_offset bs = 0" "bs_bde bs = b"
    "bs_passthrough bs = Decrypted b" "bs_passthrough bs \<or> (\<exists>c. bs_cipher bs = Some c)"
    "if Decrypted b then bs_cipher bs = None else streamCipher b (bde_sectorSize b) = Ok (bs_cipher bs)"
    "\<exists>regions. ReservedRegions b = Ok regions \<and> bs_reserved bs = setReservedRegions regions"
    "bde_information b = Some i \<Longrightarrow> bs_headerOffset bs = sint (bh_VolumeHeaderOff (info_blockHeader i)) \<and>
       bs_headerSectors bs = uint (bh_VolumeHeaderSectors (info_blockHeader i))"
  using assms by (elim Open_Ok, auto split: if_splits)+

lemma Open_wf: "Open b = Ok bs \<Longrightarrow> bde_sectorSize b \<in> sectorSizes \<Longrightarrow> stream_wf bs"
  using Open_fields(2,7) [of b bs] streamCipher_wf [of b "bde_sectorSize b"]
  by (auto simp: stream_wf_def split: if_splits)

lemma ReservedRegions_Ok:
  assumes "bde_information b = Some i" "bde_sectorSize b \<noteq> 0"
  shows "\<exists>regions. ReservedRegions b = Ok regions"
  using assms by (simp add: ReservedRegions_def deref_def Let_def)

lemma Open_iff:
  assumes "bde_information b = Some i" "bde_sectorSize b \<in> sectorSizes"
  shows "(\<exists>bs. Open b = Ok bs) \<longleftrightarrow>
    Decrypted b \<or> (\<exists>k. bde_fvek b = Some k \<and> supportedKey k (bde_fvekType b))"
proof -
  have "bde_sectorSize b \<noteq> 0" using sectorSizes_facts [OF assms(2)] by auto
  then obtain regions where r: "ReservedRegions b = Ok regions"
    using ReservedRegions_Ok [OF assms(1)] by blast
  show ?thesis
  proof (cases "Decrypted b")
    case True
    then show ?thesis using r by (simp add: Open_def Unlocked_def NewBitlockerStream_def Let_def split: prod.splits)
  next
    case False
    obtain c where c: "streamCipher b (SectorSize b) = Ok c" by (cases "streamCipher b (SectorSize b)") auto
    have "(\<exists>bs. Open b = Ok bs) \<longleftrightarrow> bde_fvek b \<noteq> None \<and> c \<noteq> None"
      using False r c by (auto simp: Open_def Unlocked_def NewBitlockerStream_def Let_def split: prod.splits)
    also have "\<dots> \<longleftrightarrow> (\<exists>k. bde_fvek b = Some k \<and> supportedKey k (bde_fvekType b))"
      using streamCipher_iff [OF assms(2), of b] c by (auto simp: SectorSize_def)
    finally show ?thesis using False by simp
  qed
qed

subsection \<open>When a call panics\<close>

text \<open>
  Go's division truncates, so \<open>off % sectorSize\<close> is negative for an unaligned negative offset. The call
  then panics when it comes to slice the sector buffer there: the sector is not reserved, the volume is
  encrypted, and the source returned the whole sector without an error.
\<close>

definition panicsAt :: "BitlockerStream \<Rightarrow> int \<Rightarrow> bool" where
  "panicsAt bs off \<longleftrightarrow>
     off smod bs_sectorSize bs < 0 \<and> \<not> IsReservedSector bs (off sdiv bs_sectorSize bs) \<and>
     \<not> bs_passthrough bs \<and> bs_cipher bs \<noteq> None \<and>
     snd (ReadAt (bs_r bs) (srcOffset bs (off sdiv bs_sectorSize bs) (off - off smod bs_sectorSize bs))
       (nat (bs_sectorSize bs))) = None"

lemma decryptSector_full:
  assumes "stream_wf bs" "bs_cipher bs = Some c" "length d = nat (bs_sectorSize bs)"
  shows "decryptSector c d SameBuf n = Ok (decodeSector c n d)"
  using assms by (intro sc.decryptSector) (auto simp: stream_wf_def)

lemma readSector_outcome:
  assumes "stream_wf bs" "bs_cipher bs = Some c"
  shows "readSector bs c src =
    (case ReadAt (bs_r bs) src (nat (bs_sectorSize bs)) of
       (d, Some e) \<Rightarrow> Error e
     | (d, None) \<Rightarrow> Ok (decodeSector c (word_of_int (src sdiv bs_sectorSize bs)) d))"
  using stream_wfD [OF assms(1)] decryptSector_full [OF assms]
  by (auto simp: readSector_def dest: ReadAt_length split: prod.splits option.splits)

lemma smod_upper: "0 < (ss::int) \<Longrightarrow> cur smod ss < ss"
  using smod_int_range [of ss cur] by auto

lemma toDo_pos: "0 < ss \<Longrightarrow> 0 < len \<Longrightarrow> 0 < toDo ss cur len"
  using smod_upper [of ss cur] by (simp add: toDo_def Let_def)

lemma dvd_smod: "0 < (ss::int) \<Longrightarrow> ss dvd cur \<Longrightarrow> cur smod ss = 0"
  by (auto simp: signed_modulo_int_def signed_divide_int_def sgn_mult abs_mult elim!: dvdE)

lemma not_panicsAt: "0 < bs_sectorSize bs \<Longrightarrow> 0 \<le> off \<or> bs_sectorSize bs dvd off \<Longrightarrow> \<not> panicsAt bs off"
  by (auto simp: panicsAt_def smod_nonneg dvd_smod not_less)

lemma sector_start:
  assumes "- (2 ^ 63) \<le> cur" "cur < 2 ^ 63" "cur smod ss < 0" "0 < ss"
  shows "i64 (cur - cur smod ss) = cur - cur smod ss"
proof -
  have "cur < 0" using assms(3,4) by (metis not_less pos_mod_sign smod_nonneg)
  moreover from this have "- (cur smod ss) = (- cur) mod ss"
    using assms(4) by (simp add: signed_modulo_int_def)
  moreover have "(- cur) mod ss \<le> - cur" using \<open>cur < 0\<close> assms(4) by (intro zmod_le_nonneg_dividend) simp
  ultimately show ?thesis using assms by (intro i64_id) linarith+
qed

lemma readAt_round_Crash:
  assumes "stream_wf bs" "- (2 ^ 63) \<le> cur" "cur < 2 ^ 63" "panicsAt bs cur"
  shows "readAt_round bs cur len = Crash ''slice bounds out of range''"
proof -
  have ss: "0 < bs_sectorSize bs" using stream_wfD [OF assms(1)] by simp
  have neg: "cur smod bs_sectorSize bs < 0" using assms(4) by (simp add: panicsAt_def)
  obtain c where c: "bs_cipher bs = Some c" using assms(4) by (auto simp: panicsAt_def)
  let ?src = "srcOffset bs (cur sdiv bs_sectorSize bs) (cur - cur smod bs_sectorSize bs)"
  obtain d where "ReadAt (bs_r bs) ?src (nat (bs_sectorSize bs)) = (d, None)"
    using assms(4) unfolding panicsAt_def by (metis prod.collapse)
  then have "\<exists>x. readSector bs c ?src = Ok x" by (simp add: readSector_outcome [OF assms(1) c])
  with assms(4) ss neg c show ?thesis
    by (auto simp: readAt_round_def Let_def panicsAt_def IsReservedSector_def sector_start [OF assms(2,3) neg ss])
qed

lemma readAt_round_not_Crash:
  assumes "stream_wf bs" "- (2 ^ 63) \<le> cur" "cur < 2 ^ 63" "0 < len" "\<not> panicsAt bs cur"
  shows "readAt_round bs cur len \<noteq> Crash s"
proof -
  have ss: "0 < bs_sectorSize bs" using stream_wfD [OF assms(1)] by simp
  note td = toDo_pos [OF ss assms(4), of cur]
  show ?thesis
  proof (cases "cur smod bs_sectorSize bs < 0")
    case True
    then show ?thesis using ss td assms(5) sector_start [OF assms(2,3) True ss]
      by (auto simp: readAt_round_def Let_def panicsAt_def IsReservedSector_def readSector_outcome [OF assms(1)]
          split: option.splits prod.splits result.splits)
  next
    case False
    then show ?thesis using ss td
      by (auto simp: readAt_round_def Let_def readSector_outcome [OF assms(1)]
          split: option.splits prod.splits result.splits)
  qed
qed

text \<open>After its first round a call is at a sector boundary, on either side of a wrap of the position.\<close>

lemma round_to_boundary:
  assumes "readAt_round bs cur len = Continue d" "length d < len" "bs_sectorSize bs \<in> sectorSizes"
  shows "bs_sectorSize bs dvd i64 (cur + int (length d))"
proof -
  let ?ss = "bs_sectorSize bs"
  from round_Continue_length [OF assms(1)] assms(2) have d: "int (length d) = toDo ?ss cur len" by simp
  with assms(2) have "int (length d) = ?ss - cur smod ?ss" by (auto simp: toDo_def Let_def split: if_splits)
  then have "cur + int (length d) = ?ss * (cur sdiv ?ss) + ?ss" using sdiv_mult_smod_eq [of cur ?ss] by (simp add: mult.commute)
  then have "?ss dvd cur + int (length d)" by simp
  moreover have "?ss dvd 2 ^ 63" "?ss dvd 2 ^ 64" using assms(3) by (auto simp: sectorSizes_def)
  ultimately show ?thesis by (simp add: i64_def dvd_mod)
qed

lemma readAt_loop_outcome:
  assumes "stream_wf bs" "- (2 ^ 63) \<le> cur" "cur < 2 ^ 63"
  shows "if 0 < len \<and> panicsAt bs cur then readAt_loop bs out cur len = Panic ''slice bounds out of range''
    else \<exists>x. readAt_loop bs out cur len = Ok x"
  using assms
proof (induction bs out cur len rule: readAt_loop.induct)
  case (1 bs out cur len)
  have ss: "0 < bs_sectorSize bs" using stream_wfD [OF "1.prems"(1)] by simp
  show ?case
  proof (cases "0 < len")
    case True
    show ?thesis
    proof (cases "panicsAt bs cur")
      case p: True
      from readAt_loop_Crash [OF True readAt_round_Crash [OF "1.prems" p]] p True show ?thesis by simp
    next
      case p: False
      show ?thesis
      proof (cases "readAt_round bs cur len")
        case (Continue d)
        let ?cur = "i64 (cur + int (length d))"
        have "\<not> (0 < len - length d \<and> panicsAt bs ?cur)"
          using round_to_boundary [OF Continue] not_panicsAt [OF ss, of ?cur] "1.prems"(1)
          by (auto simp: stream_wf_def)
        with "1.IH" [OF _ Continue "1.prems"(1)] True i64_range [of "cur + int (length d)"]
        have "\<exists>x. readAt_loop bs (out @ d) ?cur (len - length d) = Ok x" by auto
        then show ?thesis using p by (simp add: readAt_loop_Continue [OF True Continue])
      next
        case (Return d e)
        then show ?thesis using p by (simp add: readAt_loop_Return [OF True Return])
      next
        case (Crash w)
        with readAt_round_not_Crash [OF "1.prems" True p, of w] show ?thesis by contradiction
      qed
    qed
  qed simp
qed

subsection \<open>The plaintext as an array of bytes\<close>

abbreviation sectorLen :: "BitlockerStream \<Rightarrow> nat" where
  "sectorLen bs \<equiv> nat (bs_sectorSize bs)"

text \<open>Where sector \<open>s\<close> is stored and the number that goes into its tweak.\<close>

definition secSrc :: "BitlockerStream \<Rightarrow> nat \<Rightarrow> int" where
  "secSrc bs s =
     (if 0 < bs_headerOffset bs \<and> int s < bs_headerSectors bs
      then i64 (bs_headerOffset bs + int (s * sectorLen bs))
      else int (s * sectorLen bs))"

definition secNum :: "BitlockerStream \<Rightarrow> nat \<Rightarrow> u64" where
  "secNum bs s = word_of_int (secSrc bs s div bs_sectorSize bs)"

definition viewSector :: "BitlockerStream \<Rightarrow> bytes \<Rightarrow> nat \<Rightarrow> bytes" where
  "viewSector bs data s =
     (if isReservedSector (bs_reserved bs) (int s) then replicate (sectorLen bs) 0
      else if bs_passthrough bs then slice data (s * sectorLen bs) (sectorLen bs)
      else (case bs_cipher bs of
              Some c \<Rightarrow> decodeSector c (secNum bs s) (slice data (nat (secSrc bs s)) (sectorLen bs))
            | None \<Rightarrow> []))"

definition readable :: "BitlockerStream \<Rightarrow> bytes \<Rightarrow> nat \<Rightarrow> bool" where
  "readable bs data s \<longleftrightarrow>
     isReservedSector (bs_reserved bs) (int s) \<or>
     bs_passthrough bs \<and> s * sectorLen bs + sectorLen bs \<le> length data \<or>
     \<not> bs_passthrough bs \<and> bs_cipher bs \<noteq> None \<and>
       0 \<le> secSrc bs s \<and> nat (secSrc bs s) + sectorLen bs \<le> length data"

definition viewByte :: "BitlockerStream \<Rightarrow> bytes \<Rightarrow> nat \<Rightarrow> byte" where
  "viewByte bs data i = viewSector bs data (i div sectorLen bs) ! (i mod sectorLen bs)"

definition viewBytes :: "BitlockerStream \<Rightarrow> bytes \<Rightarrow> nat \<Rightarrow> nat \<Rightarrow> bytes" where
  "viewBytes bs data off n = map (viewByte bs data) [off ..< off + n]"

lemma length_viewBytes [simp, len_simps]: "length (viewBytes bs data off n) = n"
  by (simp add: viewBytes_def)

lemma viewBytes_append:
  "viewBytes bs data off n @ viewBytes bs data (off + n) m = viewBytes bs data off (n + m)"
proof -
  have "[off ..< off + (n + m)] = [off ..< off + n] @ [off + n ..< off + n + m]"
    using upt_add_eq_append [of off "off + n" m] by (simp add: add.assoc)
  then show ?thesis by (simp add: viewBytes_def)
qed

lemma srcOffset_secSrc:
  assumes "0 \<le> bs_sectorSize bs"
  shows "srcOffset bs (int s) (int (s * sectorLen bs)) = secSrc bs s"
  using assms i64_i64_add [of "int s * bs_sectorSize bs" "bs_headerOffset bs"]
  by (auto simp: srcOffset_def secSrc_def add.commute)

lemma sectorLen_bounds: "stream_wf bs \<Longrightarrow> 512 \<le> sectorLen bs \<and> sectorLen bs \<le> 4096 \<and> int (sectorLen bs) = bs_sectorSize bs"
  using stream_wfD [of bs] by auto

lemma length_viewSector:
  assumes "stream_wf bs" "readable bs data s"
  shows "length (viewSector bs data s) = sectorLen bs"
  using assms
  by (auto simp: viewSector_def readable_def len_simps stream_wf_def
      intro!: trans [OF sc.length_decode length_slice])

text \<open>A stretch inside one sector of the array is a slice of that sector.\<close>

lemma div_mod_in_sector:
  fixes c k L :: nat
  assumes "c mod L + k < L"
  shows "(c + k) div L = c div L" "(c + k) mod L = c mod L + k"
proof -
  define q r where "q = c div L" and "r = c mod L"
  have c: "c = r + q * L" by (simp add: q_def r_def)
  have r: "r + k < L" using assms by (simp add: r_def)
  have e: "c + k = (r + k) + q * L" by (simp add: c)
  have "(c + k) div L = q" using r unfolding e by simp
  moreover have "(c + k) mod L = r + k" using r unfolding e by simp
  ultimately show "(c + k) div L = c div L" "(c + k) mod L = c mod L + k" by (simp_all add: q_def r_def)
qed

lemma viewBytes_in_sector:
  assumes "stream_wf bs" "readable bs data (c div sectorLen bs)" "c mod sectorLen bs + t \<le> sectorLen bs"
  shows "viewBytes bs data c t = slice (viewSector bs data (c div sectorLen bs)) (c mod sectorLen bs) t"
proof (rule nth_equalityI)
  have l: "length (slice (viewSector bs data (c div sectorLen bs)) (c mod sectorLen bs) t) = t"
    using assms by (simp add: len_simps length_viewSector)
  show "length (viewBytes bs data c t) = length (slice (viewSector bs data (c div sectorLen bs)) (c mod sectorLen bs) t)"
    by (simp only: l length_viewBytes)
  fix k assume "k < length (viewBytes bs data c t)"
  then have k: "k < t" by simp
  then have "c mod sectorLen bs + k < sectorLen bs" using assms(3) by simp
  note dm = div_mod_in_sector [OF this]
  have "viewBytes bs data c t ! k = viewByte bs data (c + k)" using k by (simp add: viewBytes_def)
  also have "\<dots> = viewSector bs data (c div sectorLen bs) ! (c mod sectorLen bs + k)"
    by (simp only: viewByte_def dm)
  also have "\<dots> = slice (viewSector bs data (c div sectorLen bs)) (c mod sectorLen bs) t ! k"
    using k assms length_viewSector [OF assms(1,2)] by (simp add: slice_def)
  finally show "viewBytes bs data c t ! k = slice (viewSector bs data (c div sectorLen bs)) (c mod sectorLen bs) t ! k" .
qed

subsection \<open>The loop computes the array\<close>

lemma toDo_nat:
  assumes "0 < L"
  shows "toDo (int L) (int c) len = int (min len (L - c mod L))" "int c sdiv int L = int (c div L)"
    "int c smod int L = int (c mod L)"
proof -
  show d: "int c sdiv int L = int (c div L)" and m: "int c smod int L = int (c mod L)"
    using assms by (simp_all add: sdiv_nonneg smod_nonneg zdiv_int zmod_int)
  have "c mod L < L" using assms by simp
  then show "toDo (int L) (int c) len = int (min len (L - c mod L))"
    by (auto simp: toDo_def m Let_def min_def of_nat_diff)
qed

lemma readSector_view:
  assumes "stream_wf bs" "serves (bs_r bs) data" "bs_cipher bs = Some c" "\<not> bs_passthrough bs"
    and "\<not> isReservedSector (bs_reserved bs) (int s)" "readable bs data s"
  shows "readSector bs c (secSrc bs s) = Ok (viewSector bs data s)"
proof -
  note L = sectorLen_bounds [OF assms(1)]
  let ?d = "slice data (nat (secSrc bs s)) (sectorLen bs)"
  have src: "0 \<le> secSrc bs s" "nat (secSrc bs s) + sectorLen bs \<le> length data"
    using assms(4-6) by (auto simp: readable_def)
  then have "ReadAt (bs_r bs) (secSrc bs s) (sectorLen bs) = (?d, None)"
    using L unfolding slice_def by (intro servesD [OF assms(2)]) auto
  moreover have "decryptSector c ?d SameBuf n = Ok (decodeSector c n ?d)" for n
    using src(2) by (intro decryptSector_full [OF assms(1,3)]) (simp add: len_simps)
  moreover have "secSrc bs s sdiv bs_sectorSize bs = secSrc bs s div bs_sectorSize bs"
    using src(1) L by (intro sdiv_nonneg) auto
  ultimately show ?thesis using stream_wfD [OF assms(1)] assms(3-5) by (simp add: readSector_def viewSector_def secNum_def)
qed

lemma readAt_round_view:
  assumes wf: "stream_wf bs" and sv: "serves (bs_r bs) data" and rd: "readable bs data (c div sectorLen bs)"
    and len: "0 < len" and fits: "int c + int len < 2 ^ 63"
  shows "readAt_round bs (int c) len = Continue (viewBytes bs data c (min len (sectorLen bs - c mod sectorLen bs)))"
proof -
  define L where "L = sectorLen bs"
  have L: "0 < L" "bs_sectorSize bs = int L" using stream_wfD [OF wf] by (simp_all add: L_def)
  define t where "t = min len (L - c mod L)"
  have m: "c mod L < L" using L(1) by simp
  then have t: "0 < t" "t \<le> len" "c mod L + t \<le> L" using len by (auto simp: t_def)
  note eqs = toDo_nat [OF L(1), of c]
  have v: "viewBytes bs data c t = slice (viewSector bs data (c div L)) (c mod L) t"
    using viewBytes_in_sector [OF wf rd] t(3) by (simp add: L_def)
  have start: "c - c mod L = c div L * L" by (simp add: minus_mod_eq_div_mult)
  have i: "i64 (int c - int (c mod L)) = int (c div L * L)"
    using fits i64_nat [of "c - c mod L"] by (simp add: of_nat_diff start [symmetric] del: of_nat_mult)
  have "readAt_round bs (int c) len = Continue (viewBytes bs data c t)"
  proof (cases "isReservedSector (bs_reserved bs) (int (c div L))")
    case True
    have "slice (replicate L (0::byte)) (c mod L) t = replicate t 0" using t(3) by (simp add: slice_def)
    with True v show ?thesis using L
      by (simp add: readAt_round_def Let_def eqs t_def [symmetric] viewSector_def L_def [symmetric])
  next
    case unres: False
    show ?thesis
    proof (cases "bs_passthrough bs")
      case True
      then have "c div L * L + L \<le> length data" using rd unres by (simp add: readable_def L_def)
      moreover have "c = c div L * L + c mod L" by simp
      ultimately have "c + t \<le> length data" using t(3) by linarith
      then have rdat: "ReadAt (bs_r bs) (int c) t = (slice data c t, None)"
        using servesD [OF sv, of "int c" t] t(1) by (simp add: slice_def)
      have "slice (slice data (c div L * L) L) (c mod L) t = slice data c t"
        using slice_slice [OF t(3), of data "c div L * L"] by simp
      moreover have "length (slice data c t) = t" using \<open>c + t \<le> length data\<close> by (simp add: len_simps)
      ultimately show ?thesis using True unres v L rdat
        by (simp add: readAt_round_def Let_def eqs t_def [symmetric] viewSector_def L_def [symmetric])
    next
      case False
      then obtain k where k: "bs_cipher bs = Some k" using rd unres by (auto simp: readable_def L_def)
      have "srcOffset bs (int (c div L)) (int (c div L * L)) = secSrc bs (c div L)"
        unfolding L_def by (rule srcOffset_secSrc) (simp add: L(2))
      then have "readSector bs k (srcOffset bs (int (c div L)) (int (c div L * L))) = Ok (viewSector bs data (c div L))"
        using readSector_view [OF wf sv k False, of "c div L"] unres rd by (simp add: L_def)
      then show ?thesis using False unres k v L(2) L(1)
        by (simp add: readAt_round_def Let_def eqs t_def [symmetric] i del: of_nat_mult)
    qed
  qed
  then show ?thesis by (simp add: t_def L_def)
qed

lemma readAt_loop_view:
  assumes wf: "stream_wf bs" and sv: "serves (bs_r bs) data"
  shows "\<forall>i. c \<le> i \<and> i < c + len \<longrightarrow> readable bs data (i div sectorLen bs) \<Longrightarrow> int c + int len < 2 ^ 63 \<Longrightarrow>
    readAt_loop bs out (int c) len = Ok (out @ viewBytes bs data c len, int (c + len), None)"
proof (induction len arbitrary: c out rule: less_induct)
  case (less len)
  show ?case
  proof (cases "len = 0")
    case True
    then show ?thesis by (simp add: viewBytes_def)
  next
    case False
    then have pos: "0 < len" by simp
    define t where "t = min len (sectorLen bs - c mod sectorLen bs)"
    have "c mod sectorLen bs < sectorLen bs" using stream_wfD [OF wf] by (intro mod_less_divisor) simp
    then have t: "0 < t" "t \<le> len" using pos by (auto simp: t_def)
    have "readable bs data (c div sectorLen bs)" using less.prems(1) pos by simp
    note round = readAt_round_view [OF wf sv this pos less.prems(2), folded t_def]
    have i: "i64 (int c + int t) = int (c + t)"
      using less.prems(2) t(2) i64_nat [of "c + t"] by simp
    have "readAt_loop bs (out @ viewBytes bs data c t) (int (c + t)) (len - t) =
        Ok ((out @ viewBytes bs data c t) @ viewBytes bs data (c + t) (len - t), int (c + t + (len - t)), None)"
      by (rule less.IH) (use less.prems t pos in auto)
    also have "(out @ viewBytes bs data c t) @ viewBytes bs data (c + t) (len - t) = out @ viewBytes bs data c len"
      using viewBytes_append [of bs data c t "len - t"] t(2) by simp
    finally show ?thesis
      using t(2) i by (simp add: readAt_loop_Continue [OF pos round])
  qed
qed

lemma readAtInternal_view:
  assumes "stream_wf bs" "serves (bs_r bs) data"
    and "\<forall>i. off \<le> i \<and> i < off + n \<longrightarrow> readable bs data (i div sectorLen bs)" "int off + int n < 2 ^ 63"
  shows "readAtInternal bs n (int off) = Ok (viewBytes bs data off n, int (off + n), None)"
  unfolding readAtInternal_def using readAt_loop_view [OF assms, of "[]"] by simp

lemma stream_ReadAt_view:
  assumes "stream_wf bs" "serves (bs_r bs) data"
    and "\<forall>i. off \<le> i \<and> i < off + n \<longrightarrow> readable bs data (i div sectorLen bs)" "int off + int n < 2 ^ 63"
  shows "stream_ReadAt bs n (int off) = Ok (viewBytes bs data off n, None)"
  by (simp add: stream_ReadAt_def readAtInternal_view [OF assms] dropEOF_def)

text \<open>The view does not depend on the position, so \<open>Read\<close> is \<open>ReadAt\<close> at the position, which it advances.\<close>

lemma viewBytes_offset [simp]:
  "viewBytes (bs\<lparr>bs_offset := k\<rparr>) data off n = viewBytes bs data off n"
  "readable (bs\<lparr>bs_offset := k\<rparr>) data s = readable bs data s"
  "stream_wf (bs\<lparr>bs_offset := k\<rparr>) = stream_wf bs"
proof -
  have s: "secSrc (bs\<lparr>bs_offset := k\<rparr>) = secSrc bs"
    by (simp add: secSrc_def fun_eq_iff)
  then have n: "secNum (bs\<lparr>bs_offset := k\<rparr>) = secNum bs" by (simp add: secNum_def fun_eq_iff)
  show "viewBytes (bs\<lparr>bs_offset := k\<rparr>) data off n = viewBytes bs data off n"
    by (simp add: viewBytes_def viewByte_def viewSector_def s n cong: option.case_cong)
  show "readable (bs\<lparr>bs_offset := k\<rparr>) data s = readable bs data s" by (simp add: readable_def s)
  show "stream_wf (bs\<lparr>bs_offset := k\<rparr>) = stream_wf bs" by (simp add: stream_wf_def)
qed

lemma stream_Read_view:
  assumes "stream_wf bs" "serves (bs_r bs) data"
    and "\<forall>i. off \<le> i \<and> i < off + n \<longrightarrow> readable bs data (i div sectorLen bs)" "int off + int n < 2 ^ 63"
  shows "stream_Read (bs\<lparr>bs_offset := int off\<rparr>) n =
    (bs\<lparr>bs_offset := int (off + n)\<rparr>, Ok (viewBytes bs data off n, None))"
proof -
  have "readAtInternal (bs\<lparr>bs_offset := int off\<rparr>) n (int off) = Ok (viewBytes bs data off n, int (off + n), None)"
    using readAtInternal_view [of "bs\<lparr>bs_offset := int off\<rparr>" data off n] assms by simp
  moreover have "viewBytes bs data off n = [] \<longleftrightarrow> n = 0" by (auto simp: viewBytes_def)
  ultimately show ?thesis by (simp add: stream_Read_def dropEOF_def)
qed

subsection \<open>An encrypted image of a plaintext\<close>

text \<open>
  \<open>storesSector bs data s p\<close>: the image holds the plaintext \<open>p\<close> of sector \<open>s\<close>, encrypted under the
  stream's cipher where the stream looks for it (anything for a reserved sector, the plaintext
  itself on a decrypted volume).
\<close>

definition storesSector :: "BitlockerStream \<Rightarrow> bytes \<Rightarrow> nat \<Rightarrow> bytes \<Rightarrow> bool" where
  "storesSector bs data s p \<longleftrightarrow>
     length p = sectorLen bs \<and> readable bs data s \<and>
     (isReservedSector (bs_reserved bs) (int s) \<or>
      (case bs_cipher bs of
         Some c \<Rightarrow> \<not> bs_passthrough bs \<and>
           slice data (nat (secSrc bs s)) (sectorLen bs) = encodeSector c (secNum bs s) p
       | None \<Rightarrow> bs_passthrough bs \<and> slice data (s * sectorLen bs) (sectorLen bs) = p))"

text \<open>The plaintext volume with its metadata blanked.\<close>

definition plainBytes :: "BitlockerStream \<Rightarrow> (nat \<Rightarrow> bytes) \<Rightarrow> nat \<Rightarrow> nat \<Rightarrow> bytes" where
  "plainBytes bs plain off n =
     map (\<lambda>i. if isReservedSector (bs_reserved bs) (int (i div sectorLen bs)) then 0
              else plain (i div sectorLen bs) ! (i mod sectorLen bs)) [off ..< off + n]"

lemma viewSector_stores:
  assumes "stream_wf bs" "storesSector bs data s p"
  shows "viewSector bs data s =
    (if isReservedSector (bs_reserved bs) (int s) then replicate (sectorLen bs) 0 else p)"
proof (cases "bs_cipher bs")
  case None
  with assms show ?thesis by (auto simp: storesSector_def viewSector_def)
next
  case (Some c)
  then have "cipher_wf c" "cipher_lenOk c (length p)"
    using assms by (auto simp: stream_wf_def storesSector_def)
  with Some assms show ?thesis by (auto simp: storesSector_def viewSector_def sc.decode_encode)
qed

lemma viewBytes_plain:
  assumes "stream_wf bs" "\<forall>i. off \<le> i \<and> i < off + n \<longrightarrow> storesSector bs data (i div sectorLen bs) (plain (i div sectorLen bs))"
  shows "viewBytes bs data off n = plainBytes bs plain off n"
proof -
  have L: "0 < sectorLen bs" using stream_wfD [OF assms(1)] by simp
  have "viewByte bs data i = (if isReservedSector (bs_reserved bs) (int (i div sectorLen bs)) then 0
      else plain (i div sectorLen bs) ! (i mod sectorLen bs))" if "off \<le> i" "i < off + n" for i
  proof -
    have "i mod sectorLen bs < sectorLen bs" using L by simp
    moreover have "storesSector bs data (i div sectorLen bs) (plain (i div sectorLen bs))" using assms(2) that by blast
    note viewSector_stores [OF assms(1) this]
    ultimately show ?thesis by (simp add: viewByte_def)
  qed
  then show ?thesis by (simp add: viewBytes_def plainBytes_def)
qed

lemma storesSector_readable: "storesSector bs data s p \<Longrightarrow> readable bs data s"
  by (simp add: storesSector_def)

subsection \<open>The life of a stream\<close>

text \<open>
  A stream is opened and then used by any sequence of calls with any arguments. \<open>stream_inv b bs\<close> is
  what stays true: only the position moves, within \<open>int64\<close>, and only \<open>Close\<close> takes the cipher away.
\<close>

inductive stream_step :: "BitlockerStream \<Rightarrow> BitlockerStream \<Rightarrow> bool" where
  read: "stream_Read bs n = (bs', x) \<Longrightarrow> stream_step bs bs'"
| seek: "- (2 ^ 63) \<le> off \<Longrightarrow> off < 2 ^ 63 \<Longrightarrow> stream_Seek bs off whence = (bs', y) \<Longrightarrow> stream_step bs bs'"
| close: "stream_Close bs = (bs', z) \<Longrightarrow> stream_step bs bs'"

inductive stream_reach :: "BDE \<Rightarrow> BitlockerStream \<Rightarrow> bool" for b where
  opened: "Open b = Ok bs \<Longrightarrow> stream_reach b bs"
| step: "stream_reach b bs \<Longrightarrow> stream_step bs bs' \<Longrightarrow> stream_reach b bs'"

inductive_cases stream_stepE: "stream_step bs bs'"

definition stream_inv :: "BitlockerStream \<Rightarrow> BitlockerStream \<Rightarrow> bool" where
  "stream_inv bs0 bs \<longleftrightarrow> - (2 ^ 63) \<le> bs_offset bs \<and> bs_offset bs < 2 ^ 63 \<and>
     (\<exists>k. bs = bs0\<lparr>bs_offset := k\<rparr> \<or> bs = bs0\<lparr>bs_offset := k, bs_cipher := None\<rparr>)"

lemma stream_inv_moves:
  "stream_inv bs0 bs \<Longrightarrow> - (2 ^ 63) \<le> k \<Longrightarrow> k < 2 ^ 63 \<Longrightarrow> stream_inv bs0 (bs\<lparr>bs_offset := k\<rparr>)"
  by (cases bs0) (auto simp: stream_inv_def)

lemma stream_inv_closes: "stream_inv bs0 bs \<Longrightarrow> stream_inv bs0 (bs\<lparr>bs_cipher := None\<rparr>)"
  by (cases bs0) (auto simp: stream_inv_def)

lemma readAtInternal_accounts:
  "readAtInternal bs n off = Ok (out, nxt, err) \<Longrightarrow>
   length out \<le> n \<and> (err = None \<longrightarrow> length out = n) \<and>
   nxt = (if out = [] then off else i64 (off + int (length out)))"
  unfolding readAtInternal_def using readAt_loop_accounts [of bs "[]" off n] by auto

lemma readAtInternal_no_Error: "readAtInternal bs n off \<noteq> Error e"
proof -
  have "readAt_loop bs out cur len \<noteq> Error e" for out cur len
  proof (induction bs out cur len rule: readAt_loop.induct)
    case (1 bs out cur len)
    show ?case
    proof (cases "0 < len")
      case True
      with 1 show ?thesis
        by (cases "readAt_round bs cur len") (simp_all add: readAt_loop_cases)
    qed simp
  qed
  then show ?thesis by (simp add: readAtInternal_def)
qed

text \<open>What \<open>Read\<close> leaves behind: the position moved by the bytes it returned, around the end of \<open>int64\<close>.\<close>

lemma stream_Read_moves:
  assumes "stream_Read bs n = (bs', Ok (out, err))" "- (2 ^ 63) \<le> bs_offset bs" "bs_offset bs < 2 ^ 63"
  shows "bs' = bs\<lparr>bs_offset := i64 (bs_offset bs + int (length out))\<rparr> \<and> length out \<le> n"
  using assms readAtInternal_accounts [of bs n "bs_offset bs" out]
  by (auto simp: stream_Read_def split: result.splits if_splits)

lemma stream_Read_fails: "stream_Read bs n = (bs', x) \<Longrightarrow> \<forall>out err. x \<noteq> Ok (out, err) \<Longrightarrow> bs' = bs"
  by (auto simp: stream_Read_def split: result.splits)

lemma stream_step_inv:
  assumes "stream_step bs bs'" "stream_inv bs0 bs"
  shows "stream_inv bs0 bs'"
proof -
  have pos: "- (2 ^ 63) \<le> bs_offset bs" "bs_offset bs < 2 ^ 63" using assms(2) by (simp_all add: stream_inv_def)
  show ?thesis
    using assms(1)
  proof (cases rule: stream_stepE [consumes 1, case_names read seek close])
    case (read n x)
    show ?thesis
    proof (cases "\<exists>out err. x = Ok (out, err)")
      case True
      then obtain out err where "x = Ok (out, err)" by blast
      with stream_Read_moves [OF _ pos] read have "bs' = bs\<lparr>bs_offset := i64 (bs_offset bs + int (length out))\<rparr>"
        by blast
      with i64_range [of "bs_offset bs + int (length out)"] show ?thesis
        using stream_inv_moves [OF assms(2)] by simp
    next
      case False
      with stream_Read_fails [OF read] assms(2) show ?thesis by simp
    qed
  next
    case (seek off whence y)
    then show ?thesis using i64_range [of "bs_offset bs + off"] assms(2)
      by (auto simp: stream_Seek_def Let_def split: if_splits intro!: stream_inv_moves [OF assms(2)])
  next
    case (close z)
    then show ?thesis using stream_inv_closes [OF assms(2)] by (simp add: stream_Close_def)
  qed
qed

lemma stream_reach_inv: "stream_reach b bs \<Longrightarrow> \<exists>bs0. Open b = Ok bs0 \<and> stream_inv bs0 bs"
proof (induction rule: stream_reach.induct)
  case (opened bs)
  have "bs = bs\<lparr>bs_offset := bs_offset bs\<rparr>" by simp
  then show ?case using opened Open_fields(3) [OF opened] unfolding stream_inv_def
    by (intro exI [of _ bs] conjI exI [of _ "bs_offset bs"] disjI1) simp_all
next
  case (step bs bs')
  then show ?case using stream_step_inv by blast
qed

lemma stream_inv_wf: "stream_inv bs0 bs \<Longrightarrow> stream_wf bs0 \<Longrightarrow> stream_wf bs"
  by (auto simp: stream_inv_def stream_wf_def)

subsection \<open>What the volume reserves\<close>

lemma round_down_pow: "NOT (2 ^ k - 1) AND (x :: int) = x div 2 ^ k * 2 ^ k"
proof -
  have "NOT (mask k) AND x = push_bit k (drop_bit k x)"
    by (rule bit_eqI) (auto simp: bit_simps)
  then show ?thesis by (simp only: mask_eq_exp_minus_1 drop_bit_eq_div push_bit_eq_mult)
qed

lemma round_to_sector:
  assumes "ss \<in> sectorSizes"
  shows "NOT (ss - 1) AND x = x div ss * ss"
  using assms round_down_pow [of 9 x] round_down_pow [of 10 x] round_down_pow [of 11 x] round_down_pow [of 12 x]
  by (auto simp: sectorSizes_def)

lemma info_sectors:
  assumes "ss \<in> sectorSizes"
  shows "(NOT (ss - 1) AND (ss + 0xFFFF)) sdiv ss = 65536 div ss"
  using assms unfolding round_to_sector [OF assms] by (auto simp: sectorSizes_def sdiv_nonneg)

lemma stream_ReadAt_plain:
  assumes "stream_wf bs" "serves (bs_r bs) data" "int off + int n < 2 ^ 63"
    and "\<forall>i. off \<le> i \<and> i < off + n \<longrightarrow> storesSector bs data (i div sectorLen bs) (plain (i div sectorLen bs))"
  shows "stream_ReadAt bs n (int off) = Ok (plainBytes bs plain off n, None)"
proof -
  have "\<forall>i. off \<le> i \<and> i < off + n \<longrightarrow> readable bs data (i div sectorLen bs)"
    using assms(4) storesSector_readable by blast
  from stream_ReadAt_view [OF assms(1,2) this assms(3)] viewBytes_plain [OF assms(1,4)] show ?thesis by simp
qed

end
