(* ===== verification/StreamLaws.thy ===== *)
theory StreamLaws
  imports StreamView ProtectedVolume
begin

section \<open>Properties of the stream\<close>

text \<open>
  The theorems about \<open>Open\<close>, \<open>Read\<close>, \<open>ReadAt\<close>, \<open>Seek\<close> and \<open>Close\<close>, for streams opened on a volume
  that \<open>New\<close> and any unlocking calls have led to (\<open>vol_reach\<close>), with an unlocked volume as the
  common example of the witnesses.
\<close>

subsection \<open>Reserved sectors of a volume\<close>

lemma sdiv_sectors:
  assumes "ss \<in> sectorSizes" "- (2 ^ 63) \<le> x" "x < 2 ^ 63"
  shows "- (2 ^ 62) \<le> x sdiv ss \<and> x sdiv ss < 2 ^ 62"
proof -
  have ss: "512 \<le> ss" using sectorSizes_facts [OF assms(1)] by simp
  have "\<bar>x\<bar> < 2 ^ 62 * ss" using assms(2,3) ss by auto
  then have "\<bar>x\<bar> div ss < 2 ^ 62" using ss by (simp add: zdiv_less_iff)
  moreover have "\<bar>x sdiv ss\<bar> \<le> \<bar>x\<bar> div ss"
    using ss by (cases x "0 :: int" rule: linorder_cases) (auto simp: signed_divide_int_def pos_imp_zdiv_nonneg_iff)
  ultimately show ?thesis by linarith
qed

lemma sectorSizes_inv: "vol_reach r b \<Longrightarrow> bde_sectorSize b \<in> sectorSizes \<and> bde_r b = r \<and> eowBounded b"
  using vol_inv_reach by (auto simp: vol_inv_def sectorSizes_def)

text \<open>The regions of a volume of version 1: for each metadata block 16 KiB, rounded up to whole clusters.\<close>

definition metadataRegions1 :: "BDE \<Rightarrow> Information \<Rightarrow> (int \<times> int) list" where
  "metadataRegions1 b i =
     map (\<lambda>off. (off sdiv bde_sectorSize b,
        (bde_clusterSize b + 16383) div bde_clusterSize b * bde_clusterSize b div bde_sectorSize b)) (InformationOffsets i)"

lemma ReservedRegions_v1:
  assumes "bde_information b = Some i" "bde_sectorSize b \<in> sectorSizes" "Information_Version i = 1"
    and cs: "bde_clusterSize b = 2 ^ k"
  shows "ReservedRegions b = Ok (metadataRegions1 b i)"
proof -
  let ?cs = "bde_clusterSize b" and ?ss = "bde_sectorSize b"
  have ss: "0 < ?ss" using sectorSizes_facts [OF assms(2)] by simp
  have "(?cs + 0x3FFF) AND NOT (?cs - 1) = (?cs + 16383) div ?cs * ?cs"
    using round_down_pow [of k "?cs + 16383"] unfolding cs by (simp add: and.commute)
  moreover have "0 \<le> (?cs + 16383) div ?cs * ?cs" by (simp add: cs pos_imp_zdiv_nonneg_iff)
  ultimately show ?thesis using ss assms(1,3)
    by (simp add: ReservedRegions_def deref_def Let_def metadataRegions1_def sdiv_nonneg)
qed

lemma metadataRegions1_bounded:
  assumes "vol_reach r b"
  shows "boundedRegions (metadataRegions1 b i)"
proof -
  let ?cs = "bde_clusterSize b" and ?ss = "bde_sectorSize b"
  have s: "?ss \<in> sectorSizes" using sectorSizes_inv [OF assms] by simp
  then have ss: "512 \<le> ?ss" "?ss \<le> 4096" using sectorSizes_facts by simp_all
  obtain k where k: "?cs = ?ss * k" "1 \<le> k" "k \<le> 2 ^ 25" using vol_inv_reach [OF assms] by (auto simp: vol_inv_def)
  have "?ss * k \<le> 4096 * 2 ^ 25" using ss k by (intro mult_mono) simp_all
  moreover have "0 < ?cs" using k ss by simp
  then have "(?cs + 16383) div ?cs * ?cs \<le> ?cs + 16383" using div_mult_mod_eq [of "?cs + 16383" ?cs] by (smt (verit) pos_mod_sign)
  ultimately have "(?cs + 16383) div ?cs * ?cs < 2 ^ 62" using k(1) by simp
  then have "(?cs + 16383) div ?cs * ?cs div ?ss < 2 ^ 62"
    using ss by (smt (verit) zdiv_less_iff mult_le_cancel_left1 zero_less_power)
  then show ?thesis
    using sdiv_sectors [OF s] sint_range64 unfolding boundedRegions_def metadataRegions1_def InformationOffsets_def by auto
qed

text \<open>The regions of a volume of version 2: 64 KiB for each metadata block, the EOW block rounded up.\<close>

definition metadataRegions :: "BDE \<Rightarrow> Information \<Rightarrow> (int \<times> int) list" where
  "metadataRegions b i =
     map (\<lambda>off. (off sdiv bde_sectorSize b, 65536 div bde_sectorSize b)) (InformationOffsets i) @
     (case bde_eowInformation b of
        None \<Rightarrow> []
      | Some e \<Rightarrow> [(Eow_Offset e sdiv bde_sectorSize b,
          (Eow_Size e + bde_sectorSize b - 1) div bde_sectorSize b)])"

lemma ReservedRegions_v2:
  assumes "bde_information b = Some i" "bde_sectorSize b \<in> sectorSizes" "2 \<le> Information_Version i" "eowBounded b"
  shows "ReservedRegions b = Ok (metadataRegions b i)"
proof -
  let ?ss = "bde_sectorSize b"
  have ss: "0 < ?ss" using sectorSizes_facts [OF assms(2)] by simp
  have v: "Information_Version i \<noteq> 1" "2 \<le> Information_Version i" using assms(3) by simp_all
  have "(NOT (?ss - 1) AND (Eow_Size e + ?ss - 1)) sdiv ?ss = (Eow_Size e + ?ss - 1) div ?ss"
    if "bde_eowInformation b = Some e" for e
  proof -
    have "0 \<le> Eow_Size e + ?ss - 1" using assms(4) that ss by (auto simp: eowBounded_def)
    then have "0 \<le> (Eow_Size e + ?ss - 1) div ?ss" using ss by (simp add: pos_imp_zdiv_nonneg_iff)
    then show ?thesis using ss unfolding round_to_sector [OF assms(2)] by (subst sdiv_nonneg) simp_all
  qed
  then show ?thesis using ss v assms(1) info_sectors [OF assms(2)]
    by (auto simp: ReservedRegions_def deref_def Let_def metadataRegions_def split: option.splits)
qed

definition inSectors :: "BitlockerStream \<Rightarrow> int \<Rightarrow> int \<Rightarrow> int \<Rightarrow> bool" where
  "inSectors bs off n s \<longleftrightarrow> off sdiv bs_sectorSize bs \<le> s \<and> s < off sdiv bs_sectorSize bs + n"

lemma metadataRegions_bounded:
  assumes "bde_sectorSize b \<in> sectorSizes" "eowBounded b"
  shows "boundedRegions (metadataRegions b i)"
proof -
  have ss: "512 \<le> bde_sectorSize b" "bde_sectorSize b \<le> 4096" using sectorSizes_facts [OF assms(1)] by simp_all
  have "65536 div bde_sectorSize b < 2 ^ 62" using ss by (simp add: zdiv_less_iff)
  moreover have "(Eow_Size e + bde_sectorSize b - 1) div bde_sectorSize b < 2 ^ 62" if "Eow_Size e < 2 ^ 20" for e
    using ss that by (simp add: zdiv_less_iff)
  ultimately show ?thesis
    using sdiv_sectors [OF assms(1)] sint_range64 assms(2)
    unfolding boundedRegions_def metadataRegions_def eowBounded_def InformationOffsets_def
    by (auto split: option.splits)
qed

lemma Open_reach_wf: "vol_reach r b \<Longrightarrow> Open b = Ok bs \<Longrightarrow> stream_wf bs \<and> bs_r bs = r"
  using Open_wf sectorSizes_inv Open_fields(1) by blast

subsection \<open>Two open volumes, for the witnesses\<close>

lemma demoHeader_zero:
  "sint (bh_VolumeHeaderOff demoBlockHeader) = 0" "bh_MetadataOffset1 demoBlockHeader = 0"
  "bh_MetadataOffset2 demoBlockHeader = 0" "bh_MetadataOffset3 demoBlockHeader = 0"
proof -
  have "le64 (replicate 64 0) k = 0" if "k \<le> 56" for k
    using that by (simp add: le64_def slice_def)
  then show "sint (bh_VolumeHeaderOff demoBlockHeader) = 0" "bh_MetadataOffset1 demoBlockHeader = 0"
    "bh_MetadataOffset2 demoBlockHeader = 0" "bh_MetadataOffset3 demoBlockHeader = 0"
    by (simp_all add: demoBlockHeader_def read_FveMetadataBlockHeaderV2_def)
qed

lemma demo_regions:
  assumes "bde_information b = Some (blockInfo off (demoBlockHeader\<lparr>bh_MetadataOffset1 := m\<rparr>) mh ext ds pad)"
    and "bde_sectorSize b = 512" "bde_eowInformation b = None" "m = 0"
  shows "ReservedRegions b = Ok []"
  using assms demoHeader_zero
  by (simp add: ReservedRegions_def deref_def Let_def InformationOffsets_def blockInfo_def)

lemma demoHeader_same: "demoBlockHeader\<lparr>bh_MetadataOffset1 := 0\<rparr> = demoBlockHeader"
  using demoHeader_zero(2) by (cases demoBlockHeader) simp

lemma demo_regions_at:
  assumes "bde_information b = Some (demoInfoOf 1050624 t k1 k2)" "bde_sectorSize b = 512" "bde_eowInformation b = None"
  shows "ReservedRegions b = Ok [(2052, 128)]"
proof -
  have "InformationOffsets (demoInfoOf 1050624 t k1 k2) = [1050624]"
    using demoHeader_zero by (simp add: InformationOffsets_def demoInfoOf_def blockInfo_def)
  moreover have "2 \<le> Information_Version (demoInfoOf 1050624 t k1 k2)"
    by (simp add: Information_Version_def demoInfoOf_def blockInfo_def demoVolHeader_def)
  ultimately show ?thesis
    using ReservedRegions_v2 [OF assms(1)] assms(2,3) by (simp add: sectorSizes_def eowBounded_def metadataRegions_def sdiv_nonneg)
qed

lemma demo_stream:
  assumes b: "bde_information b = Some (demoInfoOf m FveKeyTypeAesXts256 k1 k2)" "bde_sectorSize b = 512" "bde_eowInformation b = None"
    and k: "bde_fvek b = Some (replicate 64 2)" "bde_fvekType b = FveKeyTypeAesXts256" and m: "m = 0 \<or> m = 1050624"
  obtains bs c where "Open b = Ok bs" "bs_reserved bs = (if m = 0 then [] else [Region 2052 2180])" "bs_sectorSize bs = 512"
    "bs_headerOffset bs = 0" "bs_cipher bs = Some c" "\<not> bs_passthrough bs"
proof -
  have nd: "\<not> Decrypted b" by (simp add: Decrypted_def b demoInfoOf_def blockInfo_def demoVolHeader_def)
  have "supportedKey (replicate 64 2) FveKeyTypeAesXts256" by (simp add: supportedKey_def)
  then obtain bs where bs: "Open b = Ok bs"
    using Open_iff [OF b(1)] b k by (auto simp: sectorSizes_def)
  then have f: "bs_sectorSize bs = 512" "\<not> bs_passthrough bs" "\<exists>c. bs_cipher bs = Some c"
    using Open_fields(2,5,6) [OF bs] b(2) nd by auto
  have "ReservedRegions b = Ok (if m = 0 then [] else [(2052, 128)])"
    using m demo_regions [OF b(1) [unfolded demoInfoOf_def] b(2,3)] demo_regions_at [OF _ b(2,3)] b(1) by auto
  then have "bs_reserved bs = (if m = 0 then [] else [Region 2052 2180])"
    using Open_fields(8) [OF bs] by (auto simp: setReservedRegions_def positiveRegions_def merge_loop.simps)
  moreover have "bs_headerOffset bs = 0"
    using Open_fields(9) [OF bs b(1)] demoHeader_zero by (simp add: demoInfoOf_def blockInfo_def)
  ultimately show ?thesis using f bs that by blast
qed

lemma demo_open_at:
  fixes m :: u64
  assumes "m = 0 \<or> m = 1050624"
  obtains blk b bs c where "vol_reach (bytesReader (volImage blk)) b" "Open b = Ok bs"
    "bs_reserved bs = (if m = 0 then [] else [Region 2052 2180])" "bs_sectorSize bs = 512" "bs_headerOffset bs = 0"
    "bs_cipher bs = Some c" "\<not> bs_passthrough bs"
proof -
  obtain k where k: "aes_wf k" and sealed: "\<And>m t k1. sealedUnder (demoInfoOf m t k1 k) (replicate 32 1) (replicate 64 2) t"
    by (rule demo_sealed) blast
  let ?i = "demoInfoOf m FveKeyTypeAesXts256 k k"
  let ?r = "bytesReader (demoVolImageOf m FveKeyTypeAesXts256 k k)"
  obtain b0 :: BDE where b0: "New ?r 0 = Ok b0" "bde_information b0 = Some ?i" "bde_sectorSize b0 = 512"
    "bde_eowInformation b0 = None"
    using demo_New(2) [OF k k] by blast
  let ?b = "b0\<lparr>bde_fvek := Some (replicate 64 2), bde_fvekType := FveKeyTypeAesXts256\<rparr>"
  have "Unlock b0 (replicate 32 1) = (?b, Ok ())"
    using sealedUnder_keys(1) [OF sealed demo_New(1) [OF k k]]
    by (intro Unlock_Ok [OF b0(2)]) (simp_all add: CipherMap_def)
  then have "vol_step b0 ?b" by (rule vol_step.unlock)
  with b0(1) have reach: "vol_reach ?r ?b" by (blast intro: vol_reach.intros)
  have "bde_information ?b = Some ?i" "bde_sectorSize ?b = 512" "bde_eowInformation ?b = None"
    "bde_fvek ?b = Some (replicate 64 2)" "bde_fvekType ?b = FveKeyTypeAesXts256" using b0 by simp_all
  then obtain bs c where "Open ?b = Ok bs" "bs_reserved bs = (if m = 0 then [] else [Region 2052 2180])"
    "bs_sectorSize bs = 512" "bs_headerOffset bs = 0" "bs_cipher bs = Some c" "\<not> bs_passthrough bs"
    by (rule demo_stream [OF _ _ _ _ _ assms])
  with reach show ?thesis unfolding demoVolImageOf_def by (rule that)
qed

lemma demo_open:
  obtains blk b bs c where "vol_reach (bytesReader (volImage blk)) b" "Open b = Ok bs" "bs_reserved bs = []"
    "bs_sectorSize bs = 512" "bs_headerOffset bs = 0" "bs_cipher bs = Some c" "\<not> bs_passthrough bs"
  by (rule demo_open_at [of 0]) simp_all

lemma demo_open_plain:
  obtains blk b bs where "vol_reach (bytesReader (volImage blk)) b" "Open b = Ok bs" "bs_reserved bs = []"
    "bs_sectorSize bs = 512" "bs_passthrough bs" "length (volImage blk) = 1050760"
proof -
  define blk where "blk = encodeInfoBlock demoBlockHeader demoMetaHeader [] [demoDatum] [0, 0]"
  let ?r = "bytesReader (volImage blk)"
  obtain b :: BDE where b: "New ?r 0 = Ok b" "bde_sectorSize b = 512" "bde_eowInformation b = None"
    "bde_information b = Some (blockInfo 1050624 demoBlockHeader demoMetaHeader [] [demoDatum] [0, 0])"
    using New_volImage(2) [OF demoBlock_wf blk_def] by blast
  have d: "Decrypted b"
    by (simp add: Decrypted_def b blockInfo_def demoMetaHeader_def read_FveMetadataHeader_def le32_def
        slice_def)
  then obtain bs where bs: "Open b = Ok bs" using Open_iff [OF b(4)] b(2) by (auto simp: sectorSizes_def)
  have "bs_reserved bs = []"
    using Open_fields(8) [OF bs] demo_regions [of b _ 0, OF _ b(2,3) refl] b(4)
    by (simp add: setReservedRegions_def demoHeader_same)
  moreover have "length (volImage blk) = 1050760"
    using length_demoImage by (simp add: volImage_block blk_def demoImage_def)
  ultimately show ?thesis
    using Open_fields(2,5) [OF bs] d b(2) vol_reach.opened [OF b(1)] bs by (intro that [of blk b bs]) simp_all
qed

lemma viewSector_stored:
  assumes "stream_wf bs" "readable bs data s"
    and "bs_passthrough bs \<longleftrightarrow> bs_cipher bs = None"
  shows "storesSector bs data s (viewSector bs data s)"
proof (cases "bs_cipher bs")
  case None
  with assms show ?thesis
    by (auto simp: storesSector_def viewSector_def readable_def len_simps)
next
  case (Some c)
  let ?d = "slice data (nat (secSrc bs s)) (sectorLen bs)"
  have "encodeSector c n (decodeSector c n ?d) = ?d"
    if "\<not> isReservedSector (bs_reserved bs) (int s)" for n
    using assms Some that by (intro sc.encode_decode) (auto simp: stream_wf_def readable_def len_simps)
  moreover have "length (viewSector bs data s) = sectorLen bs" by (rule length_viewSector [OF assms(1,2)])
  ultimately show ?thesis using Some assms by (simp add: storesSector_def) (simp add: viewSector_def)
qed

lemma demo_readable:
  assumes "bs_reserved bs = []" "bs_sectorSize bs = 512" "s < 2000" "length data \<ge> 1050624"
    and "bs_passthrough bs \<or> bs_headerOffset bs = 0 \<and> bs_cipher bs \<noteq> None"
  shows "readable bs data s"
  using assms by (auto simp: readable_def isReservedSector_def secSrc_def)

lemma demo_stored:
  assumes "stream_wf bs" "bs_reserved bs = []" "bs_sectorSize bs = 512" "bs_headerOffset bs = 0" "bs_cipher bs = Some c"
    and "\<not> bs_passthrough bs" "off + n \<le> 2100"
  shows "\<forall>i. off \<le> i \<and> i < off + n \<longrightarrow> storesSector bs (volImage blk) (i div sectorLen bs) (viewSector bs (volImage blk) (i div sectorLen bs))"
  using assms(2-)
  by (intro allI impI viewSector_stored [OF assms(1)] demo_readable) (auto simp: volImage_block)

subsection \<open>Properties\<close>

text \<open>C2: The stream serves the plaintext: on a volume unlocked by any calls, over an image that holds each
  touched sector encrypted under the stream's key where the stream looks for it (the relocated
  header included), \<open>ReadAt\<close> fills the whole buffer with the plaintext bytes, with zeros in the
  metadata sectors, for every offset and length, sector boundaries or not.\<close>

theorem stream_reads_plaintext:
  assumes "vol_reach r b" "Open b = Ok bs" "serves r data"
    and "\<forall>i. off \<le> i \<and> i < off + n \<longrightarrow> storesSector bs data (i div sectorLen bs) (plain (i div sectorLen bs))"
    and "int off + int n < 2 ^ 63"
  shows "stream_ReadAt bs n (int off) = Ok (plainBytes bs plain off n, None)"
proof -
  have wf: "stream_wf bs" "serves (bs_r bs) data" using Open_reach_wf [OF assms(1,2)] assms(3) by auto
  show ?thesis by (rule stream_ReadAt_plain [OF wf assms(5,4)])
qed

theorem stream_reads_plaintext_witness:
  "\<exists>blk b bs plain. vol_reach (bytesReader (volImage blk)) b \<and> Open b = Ok bs \<and> \<not> bs_passthrough bs \<and>
     stream_ReadAt bs 1000 1100 = Ok (plainBytes bs plain 1100 1000, None)"
proof -
  obtain blk b bs c where d: "vol_reach (bytesReader (volImage blk)) b" "Open b = Ok bs" "bs_reserved bs = []"
    "bs_sectorSize bs = 512" "bs_headerOffset bs = 0" "bs_cipher bs = Some c" "\<not> bs_passthrough bs"
    using demo_open .
  let ?data = "volImage blk"
  have wf: "stream_wf bs" using Open_reach_wf [OF d(1,2)] by simp
  have "stream_ReadAt bs 1000 (int 1100) = Ok (plainBytes bs (viewSector bs ?data) 1100 1000, None)"
    by (rule stream_reads_plaintext [OF d(1,2) serves_bytesReader demo_stored [OF wf d(3-7)]]) simp_all
  with d show ?thesis by auto
qed

text \<open>C3: The code's sector loop refines the array of bytes: where the image has the sectors, \<open>ReadAt\<close>
  returns the stretch of the array at its offset, and \<open>Read\<close> on the stream positioned there returns
  the same bytes and advances the position by their number, so consecutive reads concatenate.\<close>

theorem stream_refines_view:
  assumes "vol_reach r b" "Open b = Ok bs" "serves r data" "int off + int n < 2 ^ 63"
    and "\<forall>i. off \<le> i \<and> i < off + n \<longrightarrow> readable bs data (i div sectorLen bs)"
  shows "stream_ReadAt bs n (int off) = Ok (viewBytes bs data off n, None) \<and>
    stream_Read (bs\<lparr>bs_offset := int off\<rparr>) n =
      (bs\<lparr>bs_offset := int (off + n)\<rparr>, Ok (viewBytes bs data off n, None)) \<and>
    (m \<le> n \<longrightarrow> viewBytes bs data off n = viewBytes bs data off m @ viewBytes bs data (off + m) (n - m))"
proof -
  have wf: "stream_wf bs" "serves (bs_r bs) data" using Open_reach_wf [OF assms(1,2)] assms(3) by auto
  from stream_ReadAt_view [OF wf assms(5,4)] stream_Read_view [OF wf assms(5,4)]
    viewBytes_append [of bs data off m "n - m"] show ?thesis by simp
qed

theorem stream_refines_view_witness:
  "\<exists>blk b bs. Open b = Ok bs \<and> bs_passthrough bs \<and>
     stream_Read (bs\<lparr>bs_offset := 1100\<rparr>) 1000 =
       (bs\<lparr>bs_offset := 2100\<rparr>, Ok (viewBytes bs (volImage blk) 1100 1000, None))"
proof -
  obtain blk b bs where d: "vol_reach (bytesReader (volImage blk)) b" "Open b = Ok bs" "bs_reserved bs = []"
    "bs_sectorSize bs = 512" "bs_passthrough bs" "length (volImage blk) = 1050760" using demo_open_plain .
  have "readable bs (volImage blk) (i div sectorLen bs)" if "i < 2100" for i
    using d that by (intro demo_readable) auto
  then have "stream_Read (bs\<lparr>bs_offset := int 1100\<rparr>) 1000 =
      (bs\<lparr>bs_offset := int (1100 + 1000)\<rparr>, Ok (viewBytes bs (volImage blk) 1100 1000, None))"
    using stream_refines_view [OF d(1,2) serves_bytesReader, of 1100 1000] by auto
  with d show ?thesis by auto
qed

lemma stream_reach_wf:
  assumes "vol_reach r b" "stream_reach b bs"
  shows "stream_wf bs" "\<exists>bs0. Open b = Ok bs0 \<and> stream_inv bs0 bs"
proof -
  obtain bs0 where bs0: "Open b = Ok bs0" "stream_inv bs0 bs" using stream_reach_inv [OF assms(2)] by blast
  then show "\<exists>bs0. Open b = Ok bs0 \<and> stream_inv bs0 bs" by blast
  show "stream_wf bs" using stream_inv_wf [OF bs0(2)] Open_reach_wf [OF assms(1) bs0(1)] by blast
qed

lemma readAtInternal_outcome:
  assumes "stream_wf bs" "- (2 ^ 63) \<le> off" "off < 2 ^ 63"
  shows "if 0 < n \<and> panicsAt bs off then readAtInternal bs n off = Panic ''slice bounds out of range''
    else \<exists>out nxt err. readAtInternal bs n off = Ok (out, nxt, err)"
  using readAt_loop_outcome [OF assms, of n "[]"] unfolding readAtInternal_def by auto

lemma readAtInternal_Ok:
  assumes "stream_wf bs" "0 \<le> off" "off < 2 ^ 63"
  shows "\<exists>out nxt err. readAtInternal bs n off = Ok (out, nxt, err)"
  using readAtInternal_outcome [OF assms(1) _ assms(3), of n] not_panicsAt [of bs off] stream_wfD [OF assms(1)] assms(2)
  by auto

text \<open>C4: The life of a stream: whatever the source returns, after any sequence of \<open>Read\<close>, \<open>Seek\<close> and
  \<open>Close\<close> only position and cipher have changed and the position is an int64. The next \<open>ReadAt\<close>, or
  \<open>Read\<close> at its position, panics exactly when \<open>panicsAt\<close> holds at its offset and the buffer is not
  empty; otherwise it returns at most the requested bytes, and \<open>Read\<close> moves the position by exactly
  their number. \<open>panicsAt\<close> holds at no offset from zero on, and \<open>Seek\<close> keeps such a position there.\<close>

theorem stream_life:
  assumes "vol_reach r b" "stream_reach b bs" "- (2 ^ 63) \<le> off" "off < 2 ^ 63"
  shows "(\<exists>bs0. Open b = Ok bs0 \<and> stream_inv bs0 bs) \<and>
    (if 0 < n \<and> panicsAt bs off then stream_ReadAt bs n off = Panic ''slice bounds out of range''
     else \<exists>out err. stream_ReadAt bs n off = Ok (out, err) \<and> length out \<le> n) \<and>
    (if 0 < n \<and> panicsAt bs (bs_offset bs) then stream_Read bs n = (bs, Panic ''slice bounds out of range'')
     else \<exists>out err. stream_Read bs n = (bs\<lparr>bs_offset := i64 (bs_offset bs + int (length out))\<rparr>, Ok (out, err)) \<and>
       length out \<le> n) \<and>
    (0 \<le> off \<longrightarrow> \<not> panicsAt bs off) \<and>
    (0 \<le> bs_offset bs \<longrightarrow> 0 \<le> bs_offset (fst (stream_Seek bs off whence)))"
proof (intro conjI)
  note wf = stream_reach_wf [OF assms(1,2)]
  show "\<exists>bs0. Open b = Ok bs0 \<and> stream_inv bs0 bs" by (rule wf(2))
  have pos: "- (2 ^ 63) \<le> bs_offset bs" "bs_offset bs < 2 ^ 63" using wf(2) by (auto simp: stream_inv_def)
  show "if 0 < n \<and> panicsAt bs off then stream_ReadAt bs n off = Panic ''slice bounds out of range''
     else \<exists>out err. stream_ReadAt bs n off = Ok (out, err) \<and> length out \<le> n"
    using readAtInternal_outcome [OF wf(1) assms(3,4), of n] readAtInternal_accounts [of bs n off]
    by (auto simp: stream_ReadAt_def split: if_splits)
  show "if 0 < n \<and> panicsAt bs (bs_offset bs) then stream_Read bs n = (bs, Panic ''slice bounds out of range'')
     else \<exists>out err. stream_Read bs n = (bs\<lparr>bs_offset := i64 (bs_offset bs + int (length out))\<rparr>, Ok (out, err)) \<and>
       length out \<le> n"
  proof (cases "0 < n \<and> panicsAt bs (bs_offset bs)")
    case True
    with readAtInternal_outcome [OF wf(1) pos, of n] show ?thesis by (simp add: stream_Read_def)
  next
    case False
    with readAtInternal_outcome [OF wf(1) pos, of n] obtain out nxt err where
      "readAtInternal bs n (bs_offset bs) = Ok (out, nxt, err)" by auto
    then have "stream_Read bs n = (fst (stream_Read bs n), Ok (out, dropEOF out err))" by (simp add: stream_Read_def)
    with stream_Read_moves [OF this pos] False show ?thesis by auto
  qed
  show "0 \<le> off \<longrightarrow> \<not> panicsAt bs off" using not_panicsAt [of bs off] stream_wfD [OF wf(1)] by auto
  show "0 \<le> bs_offset bs \<longrightarrow> 0 \<le> bs_offset (fst (stream_Seek bs off whence))"
    by (simp add: stream_Seek_def Let_def)
qed

theorem stream_life_witness:
  "\<exists>r b bs out err. vol_reach r b \<and> stream_reach b bs \<and> bs_offset bs = 5 \<and> bs_cipher bs \<noteq> None \<and>
     stream_Read bs 7 = (bs\<lparr>bs_offset := i64 (5 + int (length out))\<rparr>, Ok (out, err)) \<and>
     stream_ReadAt bs 7 (-5) = Panic ''slice bounds out of range''"
proof -
  obtain blk b bs c where d: "vol_reach (bytesReader (volImage blk)) b" "Open b = Ok bs" "bs_reserved bs = []"
    "bs_sectorSize bs = 512" "bs_headerOffset bs = 0" "bs_cipher bs = Some c" "\<not> bs_passthrough bs"
    using demo_open .
  let ?bs = "bs\<lparr>bs_offset := 5\<rparr>"
  have "stream_Seek bs 5 0 = (?bs, Ok 5)" by (simp add: stream_Seek_def)
  then have "stream_step bs ?bs" by (intro stream_step.seek) simp_all
  then have s: "stream_reach b ?bs" using stream_reach.intros d(2) by blast
  have q: "(-5::int) sdiv 512 = 0" "(-5::int) smod 512 = -5"
    by (simp_all add: signed_divide_int_def signed_modulo_int_def)
  have "bs_r bs = bytesReader (volImage blk)" using Open_reach_wf [OF d(1,2)] by simp
  then have "panicsAt ?bs (-5)" using d(3-7)
    by (simp add: panicsAt_def q IsReservedSector_def isReservedSector_def srcOffset_def ReadAt_bytesReader volImage_block)
  moreover have "\<not> panicsAt ?bs 5" using not_panicsAt [of ?bs 5] d(4) by simp
  moreover have o: "bs_offset ?bs = 5" "bs_cipher ?bs \<noteq> None" using d(6) by simp_all
  ultimately have "(\<exists>out err. stream_Read ?bs 7 = (?bs\<lparr>bs_offset := i64 (5 + int (length out))\<rparr>, Ok (out, err))) \<and>
      stream_ReadAt ?bs 7 (-5) = Panic ''slice bounds out of range''"
    using stream_life [OF d(1) s, of "-5" 7 0] by auto
  with d(1) s o show ?thesis by blast
qed

lemma open_unlocked:
  assumes "vol_reach r b"
  shows "(\<exists>bs. Open b = Ok bs) \<longleftrightarrow>
    Decrypted b \<or> (\<exists>k. bde_fvek b = Some k \<and> supportedKey k (bde_fvekType b))"
proof -
  obtain i where "bde_information b = Some i" using vol_inv_reach [OF assms] by (auto simp: vol_inv_def)
  from Open_iff [OF this] sectorSizes_inv [OF assms] show ?thesis by simp
qed

lemma Open_unsupported:
  assumes "bde_information b = Some i" "bde_sectorSize b \<in> sectorSizes" "\<not> Decrypted b"
    and "bde_fvek b = Some k" "\<not> supportedKey k (bde_fvekType b)"
  shows "Open b = Error (MsgFmt ''unsupported or uninitialized cipher for encryption method''
    (int (unat (bde_fvekType b))))"
proof -
  have "bde_sectorSize b \<noteq> 0" using sectorSizes_facts [OF assms(2)] by auto
  then obtain regions where r: "ReservedRegions b = Ok regions" using ReservedRegions_Ok [OF assms(1)] by blast
  obtain c where c: "streamCipher b (SectorSize b) = Ok c" by (cases "streamCipher b (SectorSize b)") auto
  then have "c = None" using streamCipher_iff [OF assms(2), of b] assms(4,5) by (auto simp: SectorSize_def)
  with r c assms(3,4) show ?thesis
    by (simp add: Open_def Unlocked_def NewBitlockerStream_def Let_def split: prod.splits)
qed

text \<open>C33: \<open>Open\<close> succeeds exactly when the volume is decrypted or holds a key its cipher constructors
  accept: an XTS method with 32 or 64 key bytes, or a CBC method with 16 or 32. A volume whose FVEK is
  sealed under a key with one of the two diffuser methods is unlocked by that key without error and
  then cannot be opened.\<close>

theorem open_iff_supported:
  assumes "vol_reach r b"
  shows "((\<exists>bs. Open b = Ok bs) \<longleftrightarrow>
      Decrypted b \<or> (\<exists>k. bde_fvek b = Some k \<and> supportedKey k (bde_fvekType b))) \<and>
    (\<forall>i key fvek t. bde_information b = Some i \<and> \<not> Decrypted b \<and> sealedUnder i key fvek t \<and> length fvek < 2 ^ 16 \<and>
        t \<in> {FveKeyTypeAes128Diffuser, FveKeyTypeAes256Diffuser} \<longrightarrow>
      snd (Unlock b key) = Ok () \<and> Unlocked (fst (Unlock b key)) \<and>
      Open (fst (Unlock b key)) =
        Error (MsgFmt ''unsupported or uninitialized cipher for encryption method'' (int (unat t))))"
proof (intro conjI allI impI)
  show "(\<exists>bs. Open b = Ok bs) \<longleftrightarrow>
      Decrypted b \<or> (\<exists>k. bde_fvek b = Some k \<and> supportedKey k (bde_fvekType b))"
    by (rule open_unlocked [OF assms])
  fix i key fvek t
  assume h: "bde_information b = Some i \<and> \<not> Decrypted b \<and> sealedUnder i key fvek t \<and> length fvek < 2 ^ 16 \<and>
    t \<in> {FveKeyTypeAes128Diffuser, FveKeyTypeAes256Diffuser}"
  then obtain off where off: "NewInformation r off = Ok i" using vol_inv_reach [OF assms] by (auto simp: vol_inv_def)
  have t: "CipherMap t \<noteq> None" "\<not> supportedKey fvek t"
    using h by (auto simp: CipherMap_def supportedKey_def keyType_consts)
  have u: "Unlock b key = (b\<lparr>bde_fvek := Some fvek, bde_fvekType := t\<rparr>, Ok ())"
    using Unlock_Ok [of b i key fvek t] sealedUnder_keys(1) [of i key fvek t r off] h off t(1) by blast
  then show "snd (Unlock b key) = Ok ()" "Unlocked (fst (Unlock b key))" by (simp_all add: Unlocked_def)
  have "Decrypted (b\<lparr>bde_fvek := Some fvek, bde_fvekType := t\<rparr>) \<longleftrightarrow> Decrypted b" by (simp add: Decrypted_def)
  with Open_unsupported [of "b\<lparr>bde_fvek := Some fvek, bde_fvekType := t\<rparr>" i fvek] u h t(2) sectorSizes_inv [OF assms]
  show "Open (fst (Unlock b key)) =
      Error (MsgFmt ''unsupported or uninitialized cipher for encryption method'' (int (unat t)))" by simp
qed

theorem open_iff_supported_witness:
  "(\<exists>r b. vol_reach r b \<and> \<not> Decrypted b \<and> (\<exists>k. bde_fvek b = Some k \<and> supportedKey k (bde_fvekType b)) \<and>
     (\<exists>bs. Open b = Ok bs)) \<and>
   (\<exists>r b b' e. vol_reach r b \<and> Unlock b (replicate 32 1) = (b', Ok ()) \<and> Unlocked b' \<and> Open b' = Error e)"
proof
  obtain blk b bs c where d: "vol_reach (bytesReader (volImage blk)) b" "Open b = Ok bs" "bs_reserved bs = []"
    "bs_sectorSize bs = 512" "bs_headerOffset bs = 0" "bs_cipher bs = Some c" "\<not> bs_passthrough bs"
    using demo_open .
  then have "\<not> Decrypted b" using Open_fields(5) by simp
  moreover from this have "\<exists>k. bde_fvek b = Some k \<and> supportedKey k (bde_fvekType b)"
    using open_iff_supported [OF d(1)] d(2) by blast
  ultimately show "\<exists>r b. vol_reach r b \<and> \<not> Decrypted b \<and>
    (\<exists>k. bde_fvek b = Some k \<and> supportedKey k (bde_fvekType b)) \<and> (\<exists>bs. Open b = Ok bs)" using d(1,2) by blast
next
  obtain r and b :: BDE and i where b: "New r 0 = Ok b" "bde_information b = Some i" "\<not> Decrypted b"
    "sealedUnder i (replicate 32 1) (replicate 64 2) FveKeyTypeAes128Diffuser"
    by (rule demo_volume [where t = FveKeyTypeAes128Diffuser]) blast
  have reach: "vol_reach r b" by (rule vol_reach.opened [OF b(1)])
  have "length (replicate 64 (2::byte)) < 2 ^ 16" by simp
  with open_iff_supported [OF reach] b(2-4) have "snd (Unlock b (replicate 32 1)) = Ok () \<and>
    Unlocked (fst (Unlock b (replicate 32 1))) \<and> (\<exists>e. Open (fst (Unlock b (replicate 32 1))) = Error e)" by blast
  with reach show "\<exists>r b b' e. vol_reach r b \<and> Unlock b (replicate 32 1) = (b', Ok ()) \<and> Unlocked b' \<and> Open b' = Error e"
    by (metis prod.collapse)
qed

text \<open>C6: The stream blanks exactly the metadata. On a volume of metadata version 2 or later a sector is
  reserved when and only when it lies in the 64 KiB that start in the sector of a metadata block or
  in the sectors of the EOW block, its size rounded up; on one of version 1 whose cluster size is a
  power of two, when and only when it lies in the 16 KiB, rounded up to whole clusters, that start in
  the sector of a metadata block.\<close>

theorem stream_reserves_metadata:
  assumes "vol_reach r b" "Open b = Ok bs" "bde_information b = Some i"
  shows "(2 \<le> Information_Version i \<longrightarrow>
      (IsReservedSector bs s \<longleftrightarrow>
        (\<exists>off \<in> set (InformationOffsets i). inSectors bs off (65536 div bs_sectorSize bs) s) \<or>
        (\<exists>e. bde_eowInformation b = Some e \<and>
           inSectors bs (Eow_Offset e) ((Eow_Size e + bs_sectorSize bs - 1) div bs_sectorSize bs) s))) \<and>
    (Information_Version i = 1 \<and> bde_clusterSize b = 2 ^ k \<longrightarrow>
      (IsReservedSector bs s \<longleftrightarrow>
        (\<exists>off \<in> set (InformationOffsets i). inSectors bs off
           ((bde_clusterSize b + 16383) div bde_clusterSize b * bde_clusterSize b div bs_sectorSize bs) s)))"
proof -
  have inv: "bde_sectorSize b \<in> sectorSizes" "eowBounded b" using sectorSizes_inv [OF assms(1)] by simp_all
  have same: "bs_sectorSize bs = bde_sectorSize b" using Open_fields(2) [OF assms(2)] by simp
  obtain regions where regions: "ReservedRegions b = Ok regions" "bs_reserved bs = setReservedRegions regions"
    using Open_fields(8) [OF assms(2)] by blast
  have spec: "IsReservedSector bs s \<longleftrightarrow> (\<exists>(a, n) \<in> set regions. a \<le> s \<and> s < a + n)" if "boundedRegions regions"
    using setReserved_spec [OF that] regions(2) by (simp add: IsReservedSector_def isReserved_covers)
  show ?thesis
    using spec ReservedRegions_v2 [OF assms(3) inv(1) _ inv(2)] ReservedRegions_v1 [OF assms(3) inv(1)] regions(1)
      metadataRegions_bounded [OF inv, of i] metadataRegions1_bounded [OF assms(1), of i]
    by (auto simp: metadataRegions_def metadataRegions1_def inSectors_def same split: option.splits)
qed

theorem stream_reserves_metadata_witness:
  "\<exists>r b bs. vol_reach r b \<and> Open b = Ok bs \<and> IsReservedSector bs 2179 \<and> \<not> IsReservedSector bs 2180"
proof -
  let ?bh = "demoBlockHeader\<lparr>bh_MetadataOffset1 := 1050624\<rparr>"
  let ?mh = "demoMetaHeader\<lparr>mh_Version := 2\<rparr>"
  have wf: "wfBlock ?bh ?mh [] [demoDatum] [0, 0]" using demoBlock_wf by (simp add: wfBlock_def)
  define i where "i = blockInfo 1050624 ?bh ?mh [] [demoDatum] [0, 0]"
  obtain r and b :: BDE where b: "New r 0 = Ok b" "bde_sectorSize b = 512" "bde_eowInformation b = None"
    "bde_information b = Some i"
    using New_volImage(2) [OF wf refl] unfolding i_def by blast
  have reach: "vol_reach r b" by (rule vol_reach.opened [OF b(1)])
  have "le32 (replicate 48 0) 36 = 0" by (simp add: le32_def slice_def)
  then have "Decrypted b"
    by (simp add: Decrypted_def b i_def blockInfo_def demoMetaHeader_def read_FveMetadataHeader_def)
  then obtain bs where bs: "Open b = Ok bs" using Open_iff [OF b(4)] b(2) by (auto simp: sectorSizes_def)
  have "InformationOffsets i = [1050624]"
    using demoHeader_zero by (simp add: InformationOffsets_def i_def blockInfo_def)
  moreover have "2 \<le> Information_Version i" by (simp add: Information_Version_def i_def blockInfo_def)
  moreover have "bs_sectorSize bs = 512" using Open_fields(2) [OF bs] b(2) by simp
  ultimately have "IsReservedSector bs s \<longleftrightarrow> 2052 \<le> s \<and> s < 2180" for s
    using stream_reserves_metadata [OF reach bs b(4)] b(3) by (simp add: inSectors_def sdiv_nonneg)
  then have "IsReservedSector bs 2179 \<and> \<not> IsReservedSector bs 2180" by simp
  with reach bs show ?thesis by blast
qed

lemma readAt_round_offset: "readAt_round (bs\<lparr>bs_offset := k\<rparr>) cur len = readAt_round bs cur len"
proof -
  have "readSector (bs\<lparr>bs_offset := k\<rparr>) c src = readSector bs c src" for c src
    by (simp add: readSector_def)
  moreover have "srcOffset (bs\<lparr>bs_offset := k\<rparr>) sec st = srcOffset bs sec st" for sec st
    by (simp add: srcOffset_def)
  ultimately show ?thesis by (simp add: readAt_round_def Let_def cong: option.case_cong)
qed

lemma readAt_loop_offset: "readAt_loop (bs\<lparr>bs_offset := k\<rparr>) out cur len = readAt_loop bs out cur len"
proof (induction bs out cur len rule: readAt_loop.induct)
  case (1 bs out cur len)
  show ?case
  proof (cases "0 < len")
    case True
    with 1 show ?thesis
      by (cases "readAt_round bs cur len") (simp_all add: readAt_loop_cases readAt_round_offset)
  qed simp
qed

lemma i64_overflow:
  assumes "2 ^ 63 \<le> x" "x < 2 ^ 64"
  shows "i64 x < 0"
proof -
  have "(x + 2 ^ 63) mod 2 ^ 64 = (x + 2 ^ 63 - 2 ^ 64) mod 2 ^ 64" by (rule minus_mod_self2 [symmetric])
  also have "\<dots> = x + 2 ^ 63 - 2 ^ 64" using assms by (intro mod_pos_pos_trivial) simp_all
  finally show ?thesis using assms(2) by (simp add: i64_def)
qed

lemma stream_Read_at: "snd (stream_Read (bs\<lparr>bs_offset := off\<rparr>) n) = stream_ReadAt bs n off"
  by (cases "readAtInternal bs n off")
    (auto simp: stream_Read_def stream_ReadAt_def readAtInternal_def readAt_loop_offset)



text \<open>How many bytes from an offset on lie in reserved sectors without interruption.\<close>

definition reservedRun :: "BitlockerStream \<Rightarrow> nat \<Rightarrow> nat \<Rightarrow> nat" where
  "reservedRun bs off n =
     length (takeWhile (\<lambda>i. IsReservedSector bs (int (i div sectorLen bs))) [off ..< off + n])"

lemma reservedRun_append:
  assumes "\<forall>i. off \<le> i \<and> i < off + m \<longrightarrow> IsReservedSector bs (int (i div sectorLen bs))"
  shows "reservedRun bs off (m + k) = m + reservedRun bs (off + m) k"
proof -
  have "[off ..< off + (m + k)] = [off ..< off + m] @ [off + m ..< off + m + k]"
    using upt_add_eq_append [of off "off + m" k] by (simp add: add.assoc)
  moreover have "takeWhile (\<lambda>i. IsReservedSector bs (int (i div sectorLen bs))) ([off ..< off + m] @ xs) =
      [off ..< off + m] @ takeWhile (\<lambda>i. IsReservedSector bs (int (i div sectorLen bs))) xs" for xs
    by (rule takeWhile_append2) (use assms in auto)
  ultimately show ?thesis by (simp add: reservedRun_def)
qed

lemma reservedRun_0: "n = 0 \<or> \<not> IsReservedSector bs (int (off div sectorLen bs)) \<Longrightarrow> reservedRun bs off n = 0"
  by (cases n) (auto simp: reservedRun_def upt_rec)

lemma readAt_loop_closed:
  assumes "stream_wf bs" "\<not> bs_passthrough bs" "bs_cipher bs = None"
  shows "int c + int len < 2 ^ 63 \<Longrightarrow>
    readAt_loop bs out (int c) len =
      Ok (out @ replicate (reservedRun bs c len) 0, int (c + reservedRun bs c len),
        if reservedRun bs c len = len then None
        else Some (Msg ''decryption is not initialized (volume not unlocked or cipher unsupported)''))"
proof (induction len arbitrary: c out rule: less_induct)
  case (less len)
  define L where "L = sectorLen bs"
  have L: "0 < L" "bs_sectorSize bs = int L" using stream_wfD [OF assms(1)] by (simp_all add: L_def)
  note eqs = toDo_nat [OF L(1), of c]
  show ?case
  proof (cases "len = 0")
    case True
    then show ?thesis by (simp add: reservedRun_0)
  next
    case False
    then have pos: "0 < len" by simp
    show ?thesis
    proof (cases "IsReservedSector bs (int (c div L))")
      case True
      define t where "t = min len (L - c mod L)"
      have m: "c mod L < L" using L(1) by simp
      then have t: "0 < t" "t \<le> len" using pos by (auto simp: t_def)
      have round: "readAt_round bs (int c) len = Continue (replicate t 0)"
        using True L by (simp add: readAt_round_def Let_def eqs t_def IsReservedSector_def)
      have "IsReservedSector bs (int (i div L))" if "c \<le> i" "i < c + t" for i
      proof -
        have "c mod L + (i - c) < L" using that m by (auto simp: t_def)
        from div_mod_in_sector(1) [OF this] that(1) True show ?thesis by simp
      qed
      then have run: "reservedRun bs c len = t + reservedRun bs (c + t) (len - t)"
        using reservedRun_append [of c t bs "len - t"] t(2) by (simp add: L_def)
      have i: "i64 (int c + int t) = int (c + t)" using less.prems t(2) i64_nat [of "c + t"] by simp
      have "readAt_loop bs (out @ replicate t 0) (int (c + t)) (len - t) =
          Ok ((out @ replicate t 0) @ replicate (reservedRun bs (c + t) (len - t)) 0,
            int (c + t + reservedRun bs (c + t) (len - t)),
            if reservedRun bs (c + t) (len - t) = len - t then None
            else Some (Msg ''decryption is not initialized (volume not unlocked or cipher unsupported)''))"
        by (rule less.IH) (use less.prems t pos in auto)
      moreover have "reservedRun bs (c + t) (len - t) = len - t \<longleftrightarrow> reservedRun bs c len = len" using run t(2) by linarith
      ultimately show ?thesis using i by (simp add: readAt_loop_Continue [OF pos round] run replicate_add add.assoc)
    next
      case unres: False
      then have run: "reservedRun bs c len = 0" by (intro reservedRun_0) (simp add: L_def)
      have "readAt_round bs (int c) len =
          Return [] (Msg ''decryption is not initialized (volume not unlocked or cipher unsupported)'')"
        using unres assms(2,3) L by (simp add: readAt_round_def Let_def eqs IsReservedSector_def)
      from readAt_loop_Return [OF pos this] show ?thesis using run pos by simp
    qed
  qed
qed

lemma reservedRun_closed: "reservedRun (bs\<lparr>bs_cipher := None\<rparr>) = reservedRun bs"
  by (simp add: reservedRun_def IsReservedSector_def fun_eq_iff)

text \<open>C36: Without a cipher no data: once the stream of an encrypted volume is closed, \<open>ReadAt\<close> returns, whatever
  the source holds, exactly one zero for each byte from the offset up to the first that is not in a
  reserved sector, and the error that decryption is not initialized as soon as there is such a byte in
  the request; only a request that is reserved throughout succeeds.\<close>

theorem closed_stream_serves_zeros:
  assumes "vol_reach r b" "stream_reach b bs" "\<not> bs_passthrough bs" "int off + int n < 2 ^ 63"
  shows "stream_ReadAt (fst (stream_Close bs)) n (int off) =
    (let m = reservedRun bs off n
     in Ok (replicate m 0,
            if m = n then None
            else Some (Msg ''decryption is not initialized (volume not unlocked or cipher unsupported)'')))"
proof -
  let ?bs = "bs\<lparr>bs_cipher := None\<rparr>"
  have "stream_wf ?bs" using stream_reach_wf(1) [OF assms(1,2)] by (simp add: stream_wf_def)
  from readAt_loop_closed [OF this _ _ assms(4), of "[]"] assms(3) show ?thesis
    by (simp add: stream_ReadAt_def stream_Close_def readAtInternal_def dropEOF_def reservedRun_closed Let_def)
qed

theorem closed_stream_serves_zeros_witness:
  "\<exists>r b bs e. vol_reach r b \<and> Open b = Ok bs \<and> \<not> bs_passthrough bs \<and>
     stream_ReadAt (fst (stream_Close bs)) 300 1116060 = Ok (replicate 100 0, Some e) \<and>
     stream_ReadAt (fst (stream_Close bs)) 100 1116060 = Ok (replicate 100 0, None)"
proof -
  obtain blk b bs c where d: "vol_reach (bytesReader (volImage blk)) b" "Open b = Ok bs"
    "bs_reserved bs = (if (1050624::u64) = 0 then [] else [Region 2052 2180])" "bs_sectorSize bs = 512"
    "bs_headerOffset bs = 0" "bs_cipher bs = Some c" "\<not> bs_passthrough bs"
    by (rule demo_open_at [of 1050624]) simp
  have res: "IsReservedSector bs s \<longleftrightarrow> 2052 \<le> s \<and> s < 2180" for s
    using d(3) isReserved_covers [of "[Region 2052 2180]" s] by (auto simp: IsReservedSector_def)
  have run: "reservedRun bs 1116060 (100 + k) = 100" for k
    by (subst reservedRun_append) (auto simp: res d(4) intro!: reservedRun_0)
  note z = closed_stream_serves_zeros [OF d(1) stream_reach.opened [OF d(2)] d(7)]
  from z [of 1116060 300] z [of 1116060 100] run [of 200] run [of 0]
  have "(\<exists>e. stream_ReadAt (fst (stream_Close bs)) 300 1116060 = Ok (replicate 100 0, Some e)) \<and>
     stream_ReadAt (fst (stream_Close bs)) 100 1116060 = Ok (replicate 100 0, None)"
    by (simp add: Let_def)
  with d(1,2,7) show ?thesis by blast
qed

text \<open>C37: A short read without an error: at the end of a decrypted volume's image \<open>ReadAt\<close> returns the bytes
  that are left, fewer than asked for, and a nil error, because it drops the end-of-file error when
  it has read something; \<open>io.ReaderAt\<close> requires an error then.\<close>

theorem readAt_short_without_error:
  assumes "vol_reach (bytesReader data) b" "Open b = Ok bs" "bs_passthrough bs"
    and "0 \<le> off" "off < int (length data)" "length data < nat off + n" "length data < 2 ^ 63"
    and "int n \<le> bs_sectorSize bs - off mod bs_sectorSize bs"
    and "\<not> IsReservedSector bs (off div bs_sectorSize bs)"
  shows "stream_ReadAt bs n off = Ok (drop (nat off) data, None) \<and> length (drop (nat off) data) < n"
proof -
  have wf: "stream_wf bs" "bs_r bs = bytesReader data" using Open_reach_wf [OF assms(1,2)] by auto
  have ss: "0 < bs_sectorSize bs" using stream_wfD [OF wf(1)] by simp
  have n: "0 < n" using assms(4-6) by linarith
  have t: "toDo (bs_sectorSize bs) off n = int n"
    using assms(4,8) ss by (simp add: toDo_def Let_def smod_nonneg)
  have r: "ReadAt (bs_r bs) off n = (drop (nat off) data, Some EOF)"
    using assms(4-6) by (simp add: wf(2) ReadAt_bytesReader)
  have "readAt_round bs off n = Return (drop (nat off) data) EOF"
    using assms(3,4,9) ss r by (simp add: readAt_round_def Let_def t sdiv_nonneg IsReservedSector_def)
  from readAt_loop_Return [OF n this, of "[]"]
  show ?thesis using assms(4-6) by (simp add: stream_ReadAt_def readAtInternal_def dropEOF_def) linarith
qed

theorem readAt_short_without_error_witness:
  "\<exists>b bs out. Open b = Ok bs \<and> stream_ReadAt bs 100 1050700 = Ok (out, None) \<and> length out < 100"
proof -
  obtain blk b bs where d: "vol_reach (bytesReader (volImage blk)) b" "Open b = Ok bs" "bs_reserved bs = []"
    "bs_sectorSize bs = 512" "bs_passthrough bs" "length (volImage blk) = 1050760" using demo_open_plain .
  have "\<not> IsReservedSector bs s" for s using d(3) by (simp add: IsReservedSector_def isReservedSector_def)
  then have "stream_ReadAt bs 100 1050700 = Ok (drop 1050700 (volImage blk), None) \<and>
      length (drop 1050700 (volImage blk)) < 100"
    using readAt_short_without_error [OF d(1,2,5), of 1050700 100] d(4,6) by simp
  with d(2) show ?thesis by blast
qed

lemma srcOffset_negative:
  assumes "off < 0" "0 < bs_sectorSize bs" "bs_headerOffset bs < 2 ^ 63"
  shows "srcOffset bs (off sdiv bs_sectorSize bs) (off - off smod bs_sectorSize bs) =
    (if - bs_sectorSize bs < off \<and> 0 < bs_headerOffset bs \<and> 0 < bs_headerSectors bs then bs_headerOffset bs
     else off - off smod bs_sectorSize bs)"
proof (cases "- bs_sectorSize bs < off")
  case True
  then have "off sdiv bs_sectorSize bs = 0" "off smod bs_sectorSize bs = off"
    using assms(1,2) by (simp_all add: signed_divide_int_def signed_modulo_int_def)
  with True assms(3) i64_id [of "bs_headerOffset bs"] show ?thesis by (auto simp: srcOffset_def)
next
  case False
  then have "0 < (- off) div bs_sectorSize bs" using assms(2) by (simp add: pos_imp_zdiv_pos_iff)
  then have "off sdiv bs_sectorSize bs < 0" using assms(1,2) by (simp add: signed_divide_int_def)
  with False show ?thesis by (simp add: srcOffset_def)
qed

text \<open>C38: What a negative offset does to the reader of an encrypted volume, exactly for each. Go's division
  truncates towards zero, so at an offset that is not a multiple of the sector size, unless the sector
  it is taken to lie in is reserved, a whole sector is read from the source, at the start of that sector
  or, for sector 0 of a volume with a relocated header, of the header. If the source returns it without
  an error, the call panics at a negative slice index; otherwise it returns the source's error. At a
  multiple of the sector size, or in a reserved sector, it never panics.\<close>

theorem readAt_negative_panics:
  assumes "vol_reach r b" "Open b = Ok bs" "\<not> bs_passthrough bs" "- (2 ^ 63) \<le> off" "off < 0" "0 < n"
  shows "if off smod bs_sectorSize bs \<noteq> 0 \<and> \<not> IsReservedSector bs (off sdiv bs_sectorSize bs)
    then stream_ReadAt bs n off =
      (case ReadAt r
          (if - bs_sectorSize bs < off \<and> 0 < bs_headerOffset bs \<and> 0 < bs_headerSectors bs then bs_headerOffset bs
           else off - off smod bs_sectorSize bs) (nat (bs_sectorSize bs)) of
         (d, None) \<Rightarrow> Panic ''slice bounds out of range''
       | (d, Some e) \<Rightarrow> Ok ([], Some e))
    else \<forall>s. stream_ReadAt bs n off \<noteq> Panic s"
proof -
  have wf: "stream_wf bs" "bs_r bs = r" using Open_reach_wf [OF assms(1,2)] by auto
  obtain c where c: "bs_cipher bs = Some c" using Open_fields(6) [OF assms(2)] assms(3) by blast
  have ss: "0 < bs_sectorSize bs" using stream_wfD [OF wf(1)] by simp
  have ho: "bs_headerOffset bs < 2 ^ 63"
  proof -
    obtain i where "bde_information b = Some i" using vol_inv_reach [OF assms(1)] by (auto simp: vol_inv_def)
    with Open_fields(9) [OF assms(2)] sint_range64 show ?thesis by auto
  qed
  note src = srcOffset_negative [OF assms(5) ss ho]
  have "off smod bs_sectorSize bs \<le> 0" using assms(5) ss by (simp add: signed_modulo_int_def)
  then have p: "panicsAt bs off \<longleftrightarrow> off smod bs_sectorSize bs \<noteq> 0 \<and>
      \<not> IsReservedSector bs (off sdiv bs_sectorSize bs) \<and>
      snd (ReadAt r (srcOffset bs (off sdiv bs_sectorSize bs) (off - off smod bs_sectorSize bs))
        (nat (bs_sectorSize bs))) = None"
    using assms(3) c wf(2) by (auto simp: panicsAt_def)
  note outcome = readAtInternal_outcome [OF wf(1) assms(4), of n]
  show ?thesis
  proof (cases "off smod bs_sectorSize bs \<noteq> 0 \<and> \<not> IsReservedSector bs (off sdiv bs_sectorSize bs)")
    case False
    with outcome p assms(5) have "\<exists>out nxt err. readAtInternal bs n off = Ok (out, nxt, err)" by (auto split: if_splits)
    with False show ?thesis by (auto simp: stream_ReadAt_def)
  next
    case True
    let ?src = "srcOffset bs (off sdiv bs_sectorSize bs) (off - off smod bs_sectorSize bs)"
    obtain d e where r: "ReadAt r ?src (nat (bs_sectorSize bs)) = (d, e)" by fastforce
    show ?thesis
    proof (cases e)
      case None
      with r p True outcome assms(5,6) have "readAtInternal bs n off = Panic ''slice bounds out of range''" by simp
      with True None r show ?thesis by (simp add: stream_ReadAt_def src)
    next
      case (Some x)
      have i: "i64 (off - off smod bs_sectorSize bs) = off - off smod bs_sectorSize bs"
        using True \<open>off smod bs_sectorSize bs \<le> 0\<close> assms(5) by (intro sector_start [OF assms(4) _ _ ss]) simp_all
      have "readSector bs c ?src = Error x" using r Some wf(2) by (simp add: readSector_outcome [OF wf(1) c])
      then have "readAt_round bs off n = Return [] x"
        using True assms(3) c ss i by (simp add: readAt_round_def Let_def IsReservedSector_def)
      from readAt_loop_Return [OF assms(6) this, of "[]"] True Some r show ?thesis
        by (simp add: stream_ReadAt_def readAtInternal_def dropEOF_def src)
    qed
  qed
qed

theorem readAt_negative_panics_witness:
  "\<exists>r b bs s. vol_reach r b \<and> Open b = Ok bs \<and> stream_ReadAt bs 3 (-1) = Panic s \<and>
     (\<exists>e. stream_ReadAt bs 3 (-600) = Ok ([], Some e))"
proof -
  obtain blk b bs c where d: "vol_reach (bytesReader (volImage blk)) b" "Open b = Ok bs" "bs_reserved bs = []"
    "bs_sectorSize bs = 512" "bs_headerOffset bs = 0" "bs_cipher bs = Some c" "\<not> bs_passthrough bs"
    using demo_open .
  have q: "(-1::int) sdiv 512 = 0" "(-1::int) smod 512 = -1" "(-600::int) smod 512 = -88" "(-600::int) sdiv 512 = -1"
    "(1::int) smod 512 = 1" "(600::int) smod 512 = 88"
    by (simp_all add: signed_divide_int_def signed_modulo_int_def)
  have nores: "\<not> IsReservedSector bs s" for s using d(3) by (simp add: IsReservedSector_def isReservedSector_def)
  note z = readAt_negative_panics [OF d(1,2,7)]
  have "stream_ReadAt bs 3 (-1) = Panic ''slice bounds out of range''"
    using z [of "-1" 3] nores by (simp add: d(4,5) q ReadAt_bytesReader volImage_block)
  moreover have "\<exists>e. stream_ReadAt bs 3 (-600) = Ok ([], Some e)"
    using z [of "-600" 3] nores by (simp add: d(4,5) q ReadAt_bytesReader)
  ultimately show ?thesis using d(1,2) by blast
qed

text \<open>C39: A source may return a full read together with the end-of-file error. The stream of an encrypted
  volume takes that for a failure: the sector that was read in full is dropped, and a request inside
  it gets no byte and the end-of-file error.\<close>

theorem full_read_with_eof_dropped:
  assumes "stream_wf bs" "\<not> bs_passthrough bs" "bs_cipher bs = Some c"
    and "\<not> IsReservedSector bs (int s)" "int off + int n < 2 ^ 63" "0 < n" "s = off div sectorLen bs"
    and "ReadAt (bs_r bs) (secSrc bs s) (sectorLen bs) = (d, Some EOF)" "length d = sectorLen bs"
  shows "stream_ReadAt bs n (int off) = Ok ([], Some EOF)"
proof -
  define L where "L = sectorLen bs"
  have L: "0 < L" "bs_sectorSize bs = int L" "L \<le> 4096"
    using stream_wfD [OF assms(1)] by (auto simp: L_def)
  have "off - off mod L = s * L" by (simp add: assms(7) L_def minus_mod_eq_div_mult)
  then have "int off - int (off mod L) = int (s * L)"
    using of_nat_diff [OF mod_less_eq_dividend [of off L], where ?'a = int] by simp
  moreover have "int (s * L) < 2 ^ 63" using calculation assms(5) by linarith
  ultimately have "i64 (int off - int (off mod L)) = int (s * L)"
    using i64_id [of "int (s * L)"] by (simp del: of_nat_mult)
  moreover have "srcOffset bs (int s) (int (s * sectorLen bs)) = secSrc bs s"
    by (rule srcOffset_secSrc) (simp add: L(2))
  ultimately have src: "srcOffset bs (int s) (i64 (int off - int (off mod L))) = secSrc bs s"
    unfolding L_def by (simp only:)
  have "readSector bs c (secSrc bs s) = Error EOF"
    using assms(8) L by (simp add: readSector_def L_def [symmetric])
  then have "readAt_round bs (int off) n = Return [] EOF"
    using assms(2-4,7) L toDo_nat [OF L(1), where c = off] src
    by (simp add: readAt_round_def Let_def IsReservedSector_def L_def [symmetric])
  from readAt_loop_Return [OF assms(6) this, of "[]"] show ?thesis
    by (simp add: stream_ReadAt_def readAtInternal_def dropEOF_def)
qed

theorem full_read_with_eof_dropped_witness:
  "\<exists>bs r. readerAt (rd_at r) \<and> bs_r bs = r \<and> rd_at r 1024 512 = (replicate 512 0, Some EOF) \<and>
     stream_ReadAt bs 10 1030 = Ok ([], Some EOF)"
proof -
  obtain blk b bs c where d: "vol_reach (bytesReader (volImage blk)) b" "Open b = Ok bs" "bs_reserved bs = []"
    "bs_sectorSize bs = 512" "bs_headerOffset bs = 0" "bs_cipher bs = Some c" "\<not> bs_passthrough bs"
    using demo_open .
  define r where "r = \<lparr>rd_at = (\<lambda>off n. (replicate n 0, if off + int n = 1536 then Some EOF else None)), rd_size = None\<rparr>"
  have conf: "readerAt (rd_at r)" by unfold_locales (simp_all add: r_def)
  have z: "rd_at r 1024 512 = (replicate 512 0, Some EOF)" by (simp add: r_def)
  let ?bs = "bs\<lparr>bs_r := r\<rparr>"
  have wf: "stream_wf ?bs" using Open_reach_wf [OF d(1,2)] by (simp add: stream_wf_def)
  have "secSrc ?bs 2 = 1024" using d by (simp add: secSrc_def)
  then have "stream_ReadAt ?bs 10 (int 1030) = Ok ([], Some EOF)"
    using d z ReadAt_conforming [OF conf]
    by (intro full_read_with_eof_dropped [OF wf, where c = c and s = 2 and d = "replicate 512 0"])
      (simp_all add: IsReservedSector_def isReservedSector_def)
  moreover have "bs_r ?bs = r" by (cases bs) simp
  ultimately show ?thesis using conf z by (metis of_nat_numeral)
qed

end
