(* ===== verification/Tool.thy ===== *)
theory Tool
  imports StreamLaws Opening
begin

section \<open>The command line tool (\<open>cmd/main.go\<close>)\<close>

text \<open>
  \<open>tool_main\<close> is the control flow of \<open>main\<close>: opening and examining the file are parameters (what
  \<open>os.Open\<close> and \<open>Stat\<close> return), each printed line is a value of \<open>line\<close>, \<open>log.Fatalf\<close> ends the run
  with the lines printed so far. The formats themselves are not modelled.
\<close>

datatype line =
    FileName string | FileSize int | LastModified int
  | VersionLine int | SectorSizeLine int | DescriptionLine string | EncryptedLine bool | PausedLine bool
  | RecoveryLine bool | PassphraseLine bool | ExternalLine bool | IdentifierCount nat

datatype run = Finished "line list" | Fatal "line list" string goerr | Crashed "line list" string

text \<open>What \<open>main\<close> prints of an opened volume. The accessors fail only on a missing information block, and
  then \<open>Version\<close>, the first, panics before any of these lines is printed.\<close>

definition volumeLines :: "BDE \<Rightarrow> line list result" where
  "volumeLines vol =
     bindR (BDE_Version vol) (\<lambda>v. bindR (Description vol) (\<lambda>d. bindR (HasRecoveryPassword vol) (\<lambda>hr.
       bindR (HasPassphrase vol) (\<lambda>hp. bindR (HasExternalKey vol) (\<lambda>he. bindR (Identifiers vol) (\<lambda>ids.
         Ok [VersionLine v, SectorSizeLine (SectorSize vol), DescriptionLine d, EncryptedLine (Encrypted vol),
             PausedLine (Paused vol), RecoveryLine hr, PassphraseLine hp, ExternalLine he,
             IdentifierCount (length ids)]))))))"

definition tool_main :: "reader result \<Rightarrow> (string \<times> int \<times> int) result \<Rightarrow> run" where
  "tool_main file stat =
     (case file of
        Error e \<Rightarrow> Fatal [] ''Failed to open file'' e
      | Panic s \<Rightarrow> Crashed [] s
      | Ok r \<Rightarrow>
     (case stat of
        Error e \<Rightarrow> Fatal [] ''Failed to stat file'' e
      | Panic s \<Rightarrow> Crashed [] s
      | Ok (name, len, mtime) \<Rightarrow>
     (let out = [FileName name, FileSize len, LastModified mtime] in
      case New r 0 of
        Error e \<Rightarrow> Fatal out ''Failed to parse BitLocker metadata'' e
      | Panic s \<Rightarrow> Crashed out s
      | Ok vol \<Rightarrow>
     (case Open vol of
        Error e \<Rightarrow> Fatal out ''Failed to open BitLocker volume'' e
      | Panic s \<Rightarrow> Crashed out s
      | Ok stream \<Rightarrow>
     (case stream_Read stream 1024 of
        (_, Panic s) \<Rightarrow> Crashed out s
      | _ \<Rightarrow>
     (case volumeLines vol of
        Ok ls \<Rightarrow> Finished (out @ ls) | Error e \<Rightarrow> Crashed out [] | Panic s \<Rightarrow> Crashed out s))))))"

text \<open>The accessors of a volume that \<open>New\<close> returns do not fail.\<close>

lemma volumeLines_Ok:
  assumes "vol_reach r b"
  shows "\<exists>ls. volumeLines b = Ok ls \<and> length ls = 9"
proof -
  obtain i where "bde_information b = Some i" using vol_inv_reach [OF assms] by (auto simp: vol_inv_def)
  then show ?thesis
    by (simp add: volumeLines_def BDE_Version_def Description_def HasRecoveryPassword_def HasPassphrase_def
        HasExternalKey_def Identifiers_def deref_def)
qed

text \<open>
  The tool never unlocks the volume, so it works on decrypted volumes only: there it ends with its
  twelve lines; on every encrypted one it stops at \<open>Open\<close>.
\<close>

theorem tool_needs_decrypted_volume:
  assumes "New r 0 = Ok vol"
  shows "tool_main (Ok r) (Ok (name, len, mtime)) =
      (if Decrypted vol then Finished ([FileName name, FileSize len, LastModified mtime] @
         (case volumeLines vol of Ok ls \<Rightarrow> ls | _ \<Rightarrow> []))
       else Fatal [FileName name, FileSize len, LastModified mtime] ''Failed to open BitLocker volume''
         (Msg ''volume is not unlocked''))"
proof -
  have reach: "vol_reach r vol" by (rule vol_reach.opened [OF assms])
  obtain ls where ls: "volumeLines vol = Ok ls" using volumeLines_Ok [OF reach] by blast
  show ?thesis
  proof (cases "Decrypted vol")
    case False
    then have "Open vol = Error (Msg ''volume is not unlocked'')"
      using New_Ok(2) [OF assms] by (simp add: Open_def Unlocked_def)
    with False assms show ?thesis by (simp add: tool_main_def Let_def)
  next
    case True
    then obtain bs where bs: "Open vol = Ok bs" using open_unlocked [OF reach] by blast
    have wf: "stream_wf bs" using Open_reach_wf [OF reach bs] by simp
    have "\<exists>out err. snd (stream_Read bs 1024) = Ok (out, err)"
      using readAtInternal_Ok [OF wf, of 0 1024] Open_fields(3) [OF bs] by (auto simp: stream_Read_def)
    then obtain bs' out err where "stream_Read bs 1024 = (bs', Ok (out, err))"
      by (cases "stream_Read bs 1024") auto
    with True assms bs ls show ?thesis by (simp add: tool_main_def Let_def)
  qed
qed

end
