(* ===== verification/Spec2Isabelle.thy ===== *)
theory Spec2Isabelle
  imports Keys Xts Cbc Ccm GoIO Types Datum Information Eow Detect BootSector Volume Unlocking
    ProtectedVolume Opening Reserved Stream StreamView StreamLaws Tool
begin

text \<open>
  A verification library for \<^verbatim>\<open>go-bde\<close>, a reader of BitLocker volumes.

  \<^bold>\<open>The program.\<close> The package opens an encrypted volume through an \<open>io.ReaderAt\<close>, finds its metadata,
  unlocks it with a password and serves the decrypted volume as a stream. \<open>New\<close> (\<^verbatim>\<open>bde.go\<close>) parses the
  boot sector, scans the first sectors for GUID locators, falls back to fixed positions and to the
  tail of the image, and parses the metadata blocks the locators name (\<^verbatim>\<open>information.go\<close>: headers and
  nested datums, \<^verbatim>\<open>eow.go\<close>: EOW blocks, \<^verbatim>\<open>types.go\<close>: layouts and constants). The unlock methods derive a
  key from a recovery password or passphrase (\<^verbatim>\<open>keys.go\<close>), stretch it, unbox the volume master key and
  the volume key (\<open>Datum.Unbox\<close>, \<^verbatim>\<open>ccm.go\<close>) and store the latter. \<open>Open\<close> builds the stream: a sector
  cipher (\<^verbatim>\<open>xts.go\<close>, \<^verbatim>\<open>cbc.go\<close>), the list of metadata sectors to blank, the relocated volume header;
  \<open>Read\<close>, \<open>ReadAt\<close>, \<open>Seek\<close> and \<open>Close\<close> serve it. \<^verbatim>\<open>detect.go\<close> answers whether an image is a BitLocker
  volume, with a second copy of the locator scan.

  \<^bold>\<open>The theories\<close>, in the order of their imports:

  \<^item> \<open>Prelude\<close>: bytes and words, Go's \<open>int64\<close> (\<open>i64\<close> wraps, \<open>sdiv\<close> and \<open>smod\<close> truncate), errors and
    results (\<open>Panic\<close> is a run-time panic), endianness, \<open>bytes.Index\<close>, \<open>sort.Search\<close>, the collections
    \<open>len_simps\<close> and \<open>cancel_simps\<close>.
  \<^item> \<open>Aes\<close>, \<open>Sha256\<close>, \<open>Unicode\<close>: the parts of the standard library the package calls, written out from
    their standards (\<^verbatim>\<open>crypto/aes\<close>, \<^verbatim>\<open>crypto/sha256\<close>, UTF-8 and UTF-16); the locale \<open>block_cipher\<close>.
  \<^item> \<open>GoIO\<close>: \<open>io.ReaderAt\<close> as a parameter (\<open>reader\<close>, with the locales \<open>readerAt\<close> and \<open>image\<close>),
    \<open>bytes.Reader\<close>, \<open>io.SectionReader\<close>, \<open>io.ReadFull\<close>, \<^verbatim>\<open>readerat.go\<close>, \<^verbatim>\<open>scan.go\<close>.
  \<^item> \<open>SectorCipher\<close>, \<open>Xts\<close>, \<open>Cbc\<close>: the interface of the sector ciphers as a locale, aliased buffers
    included, and its two implementations. \<open>Ccm\<close>: \<^verbatim>\<open>ccm.go\<close>.
  \<^item> \<open>Keys\<close>: \<^verbatim>\<open>keys.go\<close>.
  \<^item> \<open>Types\<close>: every structure and constant of \<^verbatim>\<open>types.go\<close> with its byte layout.
  \<^item> \<open>Datum\<close>: reading nested datums, their accessors, \<open>Unbox\<close>. \<open>Information\<close>: datasets, validation,
    metadata blocks. \<open>Eow\<close>: EOW blocks.
  \<^item> \<open>Detect\<close>: \<^verbatim>\<open>detect.go\<close>. \<open>BootSector\<close>: \<open>parseBootSector\<close>, \<open>readGuidBlocks\<close>, \<open>tryBootSectorOffsets\<close>.
  \<^item> \<open>Volume\<close>: the record \<open>BDE\<close>, \<open>New\<close>, the queries, the unlock methods, \<open>ReservedRegions\<close>.
    \<open>Unlocking\<close>: the contract of the unlock methods as the locales \<open>unlock_op\<close> and \<open>protector_unlock\<close>,
    interpreted on \<open>Unlock\<close> and the two password methods, and the life of a volume.
    \<open>ProtectedVolume\<close>: volumes whose keys are sealed under a password, and the unlock theorems.
    \<open>Opening\<close>: what \<open>New\<close> selects, the scan of the tail, the protector an identifier selects.
  \<^item> \<open>Reserved\<close>: the sorted and merged list of reserved sectors and its searches.
  \<^item> \<open>Stream\<close>: \<open>BitlockerStream\<close>, \<open>Open\<close>, the loop of \<open>readAtInternal\<close> and the calls around it.
    \<open>StreamView\<close>: the plaintext as an array of bytes, which the loop refines, and the stream's life as
    a step relation. \<open>StreamLaws\<close>: the stream's theorems.
  \<^item> \<open>Tool\<close>: \<^verbatim>\<open>cmd/main.go\<close>, the command line tool.

  A definition has the name of the function or method it models, a method whose name is taken carries
  its type or \<open>stream_\<close> in front; a loop is \<open>f_loop\<close>. Methods that change their receiver return it
  together with their result. Pointers that may be nil are options.

  \<^bold>\<open>What the lemmas show.\<close> Round trips: what the reference encoders of datums, metadata blocks and
  sectors produce, the code reads back. Exactness: the recovery password format, CCM acceptance,
  \<open>Unbox\<close>, the probe, the reserved sectors, the offsets at which a stream panics, what \<open>Seek\<close> accepts
  and what a closed stream returns are characterised by equivalences or equations. Equivalence with a
  reference: \<open>gfMulX\<close> and GF(2^128), the counter blocks of CCM, the hash chain of \<open>Stretch\<close>, the two
  locator scans, the in-place merge under every order of its input. Invariants by rule induction:
  what every volume reached by \<open>New\<close> and unlock calls, and every stream reached by \<open>Open\<close> and stream
  calls, satisfies. Error behaviour: short images, refused nonces, panics, end of file. The last
  theorem, below, composes them from the password to the plaintext.

  \<^bold>\<open>Termination.\<close> Every loop of the code is a total function: structural recursion or a measure.
  Only \<open>ReadDatum\<close> uses fuel, twice the length of the buffer and one; each datum consumes at least its eight-byte
  header, and \<open>readDatum_terminates\<close> shows that this fuel is never exhausted.

  \<^bold>\<open>Not modelled.\<close> The formats of the lines that \<^verbatim>\<open>cmd/main.go\<close> prints. The sector buffer
  pool is memory reuse: only its buffer size appears. Running out of memory, and data races between
  concurrent calls on one stream. The formatted arguments of wrapped error messages. The \<open>io.Reader\<close> of
  \<open>ReadDatum\<close> and \<open>NewValidation\<close> is the reader of a byte string, the \<open>io.ReadSeeker\<close> of \<open>NewDataset\<close> and
  \<open>UnlockWithExternalKey\<close> an \<open>io.SectionReader\<close> over any source: the package passes no others itself, and
  what a caller outside it might pass instead is not modelled. The caller's \<open>io.ReaderAt\<close> is a parameter throughout: theorems either hold for every source, or name what they
  rely on (\<open>serves r data\<close>, reads inside an image return its bytes).
\<close>

section \<open>From the password to the plaintext\<close>

text \<open>What a caller wants of an unlock call: it succeeds, the volume opens, and \<open>ReadAt\<close> at every offset
  and length returns the plaintext bytes wherever the image holds them encrypted.\<close>

definition servesPlaintext :: "bytes \<Rightarrow> BDE \<times> unit result \<Rightarrow> bool" where
  "servesPlaintext data res \<longleftrightarrow>
     snd res = Ok () \<and>
     (\<exists>bs. Open (fst res) = Ok bs \<and>
        (\<forall>off n plain. int off + int n < 2 ^ 63 \<and>
           (\<forall>i. off \<le> i \<and> i < off + n \<longrightarrow> storesSector bs data (i div sectorLen bs) (plain (i div sectorLen bs))) \<longrightarrow>
           stream_ReadAt bs n (int off) = Ok (plainBytes bs plain off n, None)))"

lemma servesPlaintext_intro:
  assumes "vol_reach r b" "serves r data" "bde_information b = Some i"
    and "bde_fvek b = Some fvek" "supportedKey fvek (bde_fvekType b)"
  shows "servesPlaintext data (b, Ok ())"
proof -
  obtain bs where bs: "Open b = Ok bs" using Open_iff [OF assms(3)] sectorSizes_inv [OF assms(1)] assms(4,5) by auto
  have wf: "stream_wf bs" "serves (bs_r bs) data" using Open_reach_wf [OF assms(1) bs] assms(2) by auto
  with bs show ?thesis
    using stream_ReadAt_plain [OF wf] by (auto simp: servesPlaintext_def)
qed

text \<open>C1: The composition of the whole package: on a volume that \<open>New\<close> returns, whose FVEK datum holds a
  supported key sealed under the master key, and one of whose recovery or passphrase protectors
  holds the master key sealed under the stretched key of the password, the matching unlock method
  succeeds when it reaches that protector (it has the given identifier, or no identifier is given
  and none before it opens). \<open>Open\<close> then succeeds, and \<open>ReadAt\<close> at every offset and length returns
  the plaintext bytes that the image holds encrypted under the FVEK, with zeros in the metadata sectors.\<close>

theorem password_to_plaintext:
  assumes "New r sz = Ok b" "bde_information b = Some i" "serves r data"
    and "sealedUnder i vmkKey fvek t" "supportedKey fvek t"
    and "protects uk vmkKey vmk" "reaches i uk ident pre vmk"
  shows "(DeriveRecoveryKey pw = Ok uk \<and> FindRecoveryVmk (info_dataset i) = pre @ vmk # post \<longrightarrow>
      servesPlaintext data (UnlockWithRecoveryPassword b pw ident)) \<and>
    (DeriveUserKey pw = uk \<and> FindPassphraseVmk (info_dataset i) = pre @ vmk # post \<longrightarrow>
      servesPlaintext data (UnlockWithPassphrase b pw ident))"
proof -
  let ?b = "b\<lparr>bde_fvek := Some fvek, bde_fvekType := t\<rparr>"
  have key: "CipherMap t \<noteq> None" "length fvek < 2 ^ 16" using assms(5) by (auto simp: supportedKey_def CipherMap_def)
  obtain off where info: "NewInformation r off = Ok i" using New_Ok(5) [OF assms(1)] assms(2) by auto
  have served: "servesPlaintext data (?b, Ok ())" if "vol_step b ?b"
    using vol_reach.step [OF vol_reach.opened [OF assms(1)] that] assms(2,3,5)
    by (intro servesPlaintext_intro [where r = r and i = i and fvek = fvek]) simp_all
  show ?thesis
    using rp.sealed_unlocks [OF assms(2) info _ _ assms(7,6,4) key, of pw post]
      pp.sealed_unlocks [OF assms(2) info _ _ assms(7,6,4) key, of pw post]
      served vol_step.recovery [of b pw ident ?b "Ok ()"] vol_step.passphrase [of b pw ident ?b "Ok ()"]
    by auto
qed

theorem password_to_plaintext_witness:
  "\<exists>r b b' bs plain. New r 0 = Ok b \<and> bde_fvek b = None \<and>
     UnlockWithRecoveryPassword b (encodeRecovery [1, 2, 3, 4, 5, 6, 7, 8]) [] = (b', Ok ()) \<and> Open b' = Ok bs \<and>
     bs_cipher bs \<noteq> None \<and> stream_ReadAt bs 1000 1100 = Ok (plainBytes bs plain 1100 1000, None)"
proof -
  let ?pw = "encodeRecovery [1, 2, 3, 4, 5, 6, 7, 8]"
  obtain uk where uk: "DeriveRecoveryKey ?pw = Ok uk" "length uk = 32" using demo_recoveryKey by blast
  obtain k1 where k1: "aes_wf k1" "protects uk (replicate 32 1) (demoVmk k1)" by (rule demo_protects [OF uk(2)])
  obtain k2 where k2: "aes_wf k2"
    and sealed: "\<And>k1. sealedUnder (demoInfo k1 k2) (replicate 32 1) (replicate 64 2) FveKeyTypeAesXts256"
    by (rule demo_sealed) blast
  let ?data = "demoVolImage k1 k2"
  obtain b :: BDE where b: "New (bytesReader ?data) 0 = Ok b" "bde_information b = Some (demoInfo k1 k2)"
    "bde_fvek b = None" "bde_sectorSize b = 512" "bde_eowInformation b = None"
    using demo_New(2) [OF k1(1) k2] by auto
  let ?b = "b\<lparr>bde_fvek := Some (replicate 64 2), bde_fvekType := FveKeyTypeAesXts256\<rparr>"
  have sup: "supportedKey (replicate 64 2) FveKeyTypeAesXts256" by (simp add: supportedKey_def)
  have first: "reaches (demoInfo k1 k2) uk [] [] (demoVmk k1)" by (simp add: reaches_def)
  have "CipherMap FveKeyTypeAesXts256 \<noteq> None" by (simp add: CipherMap_def)
  then have u: "UnlockWithRecoveryPassword b ?pw [] = (?b, Ok ())"
    using rp.sealed_unlocks [OF b(2) demo_New(1) [OF k1(1) k2] uk(1) _ first k1(2) sealed] by (simp add: demo_finds)
  have "bde_information ?b = Some (demoInfo k1 k2)" "bde_sectorSize ?b = 512" "bde_eowInformation ?b = None"
    "bde_fvek ?b = Some (replicate 64 2)" "bde_fvekType ?b = FveKeyTypeAesXts256" using b by simp_all
  then obtain bs c where "Open ?b = Ok bs" "bs_reserved bs = (if (0::u64) = 0 then [] else [Region 2052 2180])"
    "bs_sectorSize bs = 512" "bs_headerOffset bs = 0" "bs_cipher bs = Some c" "\<not> bs_passthrough bs"
    by (rule demo_stream [OF _ _ _ _ _ disjI1 [OF refl]])
  then have bs: "Open ?b = Ok bs" "bs_reserved bs = []" "bs_sectorSize bs = 512" "bs_headerOffset bs = 0"
    "bs_cipher bs = Some c" "\<not> bs_passthrough bs" by simp_all
  have "vol_reach (bytesReader ?data) ?b"
    by (rule vol_reach.step [OF vol_reach.opened [OF b(1)] vol_step.recovery [OF u]])
  then have wf: "stream_wf bs" using Open_reach_wf bs(1) by blast
  have "servesPlaintext ?data (?b, Ok ())"
    using password_to_plaintext [OF b(1,2) serves_bytesReader sealed sup k1(2) first, of ?pw "[]"] uk(1) u
    by (simp add: demo_finds)
  then have rd: "(\<forall>i. off \<le> i \<and> i < off + n \<longrightarrow> storesSector bs ?data (i div sectorLen bs) (plain (i div sectorLen bs))) \<Longrightarrow>
      int off + int n < 2 ^ 63 \<Longrightarrow> stream_ReadAt bs n (int off) = Ok (plainBytes bs plain off n, None)" for off n plain
    using bs(1) unfolding servesPlaintext_def by auto
  have "stream_ReadAt bs 1000 (int 1100) = Ok (plainBytes bs (viewSector bs ?data) 1100 1000, None)"
    by (rule rd, unfold demoVolImageOf_def, rule demo_stored [OF wf bs(2-6)]) simp_all
  with b(1,3) u bs(1,5) show ?thesis by (intro exI [of _ "bytesReader ?data"] exI [of _ b] exI [of _ ?b] exI [of _ bs]) auto
qed

end
